(* ===== verification/Prelude.thy ===== *)
theory Prelude
  imports Main "HOL-Library.Word"
begin

text \<open>
  Shared vocabulary of the development.

  \<^item> \<open>('a, 'e) outcome\<close>: the result of a Rust function that may return \<open>Err\<close>
    or panic.  A function that returns no \<open>Result\<close> but may panic keeps the error type
    polymorphic.  \<open>bindO\<close> is the \<open>?\<close> operator.
  \<^item> Unsigned machine integers are natural numbers with the wrap-around written out
    (\<open>add64\<close>, \<open>sub64\<close>, \<open>mul64\<close>), because the program is built in release mode,
    where \<open>+\<close>, \<open>-\<close> and \<open>*\<close> wrap and \<open>debug_assert!\<close> is compiled out.
    The collection \<open>wrap_simps\<close> removes the wrap-around where the operands are small.
  \<^item> Bytes are 8-bit words; \<open>Bytes\<close>, \<open>BytesMut\<close> and slices are byte lists.
\<close>

named_theorems wrap_simps
named_theorems codec_simps
named_theorems post_intros

type_synonym u8 = "8 word"
type_synonym bytes = "8 word list"

text \<open>A half-open range \<open>start..end\<close> of \<open>u64\<close>, as \<open>std::ops::Range\<close>.\<close>

type_synonym range = "nat \<times> nat"

definition range_is_empty :: "range \<Rightarrow> bool" where
  "range_is_empty r \<longleftrightarrow> \<not> fst r < snd r"

lemma range_is_empty_iff [simp]: "range_is_empty (s, e) \<longleftrightarrow> e \<le> s"
  by (auto simp: range_is_empty_def)

lemma unat_u8_lt: "unat (x :: u8) < 256"
proof -
  have "unat x < 2 ^ LENGTH(8)" by (rule unsigned_less)
  then show ?thesis by simp
qed

section \<open>Results and panics\<close>

datatype ('a, 'e) outcome = Ok 'a | Err 'e | Panic

primrec bindO :: "('a, 'e) outcome \<Rightarrow> ('a \<Rightarrow> ('b, 'e) outcome) \<Rightarrow> ('b, 'e) outcome" where
  "bindO (Ok x) f = f x"
| "bindO (Err e) f = Err e"
| "bindO Panic f = Panic"

primrec map_err :: "('e \<Rightarrow> 'f) \<Rightarrow> ('a, 'e) outcome \<Rightarrow> ('a, 'f) outcome" where
  "map_err g (Ok x) = Ok x"
| "map_err g (Err e) = Err (g e)"
| "map_err g Panic = Panic"

primrec is_ok :: "('a, 'e) outcome \<Rightarrow> bool" where
  "is_ok (Ok x) = True"
| "is_ok (Err e) = False"
| "is_ok Panic = False"

lemma bindO_cong [fundef_cong]:
  "m = n \<Longrightarrow> (\<And>x. n = Ok x \<Longrightarrow> f x = g x) \<Longrightarrow> bindO m f = bindO n g"
  by (cases n) auto

lemma bindO_assoc: "bindO (bindO m f) g = bindO m (\<lambda>x. bindO (f x) g)"
  by (cases m) auto

lemma bindO_Ok_right: "bindO m Ok = m"
  by (cases m) simp_all

lemma bindO_eq_Ok: "bindO m f = Ok y \<longleftrightarrow> (\<exists>x. m = Ok x \<and> f x = Ok y)"
  by (cases m) auto

lemma bindO_eq_Err: "bindO m f = Err e \<longleftrightarrow> m = Err e \<or> (\<exists>x. m = Ok x \<and> f x = Err e)"
  by (cases m) auto

lemma bindO_eq_Panic: "bindO m f = Panic \<longleftrightarrow> m = Panic \<or> (\<exists>x. m = Ok x \<and> f x = Panic)"
  by (cases m) auto

lemma map_err_eq_Ok [simp]: "map_err g m = Ok x \<longleftrightarrow> m = Ok x"
  by (cases m) auto

lemma map_err_eq_Panic [simp]: "map_err g m = Panic \<longleftrightarrow> m = Panic"
  by (cases m) auto

lemma map_err_eq_Err: "map_err g m = Err e \<longleftrightarrow> (\<exists>d. m = Err d \<and> e = g d)"
  by (cases m) auto

lemma is_ok_iff: "is_ok m \<longleftrightarrow> (\<exists>x. m = Ok x)"
  by (cases m) auto

section \<open>Unsigned 64-bit arithmetic\<close>

definition add64 :: "nat \<Rightarrow> nat \<Rightarrow> nat" where
  "add64 a b = (a + b) mod 2 ^ 64"

definition sub64 :: "nat \<Rightarrow> nat \<Rightarrow> nat" where
  "sub64 a b = (a + (2 ^ 64 - b mod 2 ^ 64)) mod 2 ^ 64"

definition mul64 :: "nat \<Rightarrow> nat \<Rightarrow> nat" where
  "mul64 a b = (a * b) mod 2 ^ 64"

definition u64_max :: nat where
  "u64_max = 2 ^ 64 - 1"

text \<open>\<open>u64::checked_sub\<close> and \<open>u64::saturating_sub\<close>.\<close>

definition checked_sub :: "nat \<Rightarrow> nat \<Rightarrow> nat option" where
  "checked_sub a b = (if b \<le> a then Some (a - b) else None)"

definition saturating_sub :: "nat \<Rightarrow> nat \<Rightarrow> nat" where
  "saturating_sub a b = a - b"

lemma add64_small [wrap_simps]: "a + b < 2 ^ 64 \<Longrightarrow> add64 a b = a + b"
  by (simp add: add64_def)

lemma sub64_small [wrap_simps]:
  assumes "b \<le> a" "a < 2 ^ 64"
  shows "sub64 a b = a - b"
proof -
  have "a + (2 ^ 64 - b mod 2 ^ 64) = (a - b) + 2 ^ 64"
    using assms by simp
  then show ?thesis
    using assms unfolding sub64_def by (simp only: mod_add_self2) simp
qed

lemma sub64_pred:
  assumes "b < a" "a < 2 ^ 64"
  shows "sub64 (sub64 a b) 1 = a - b - 1"
proof -
  have "sub64 a b = a - b" using assms by (intro sub64_small) simp_all
  moreover have "sub64 (a - b) 1 = a - b - 1" using assms by (intro sub64_small) linarith+
  ultimately show ?thesis by simp
qed

lemma mul64_small [wrap_simps]: "a * b < 2 ^ 64 \<Longrightarrow> mul64 a b = a * b"
  by (simp add: mul64_def)

lemma add64_bound: "add64 a b < 2 ^ 64"
  by (simp add: add64_def)

lemma sub64_bound: "sub64 a b < 2 ^ 64"
  by (simp add: sub64_def)

text \<open>A subtraction that wraps: the result is the two's complement.\<close>

lemma sub64_wrap:
  assumes "a < b" "b < 2 ^ 64"
  shows "sub64 a b = 2 ^ 64 - (b - a)"
proof -
  have "a + (2 ^ 64 - b mod 2 ^ 64) = 2 ^ 64 - (b - a)"
    using assms by simp
  moreover have "2 ^ 64 - (b - a) < (2 ^ 64 :: nat)"
    using assms by simp
  ultimately show ?thesis
    unfolding sub64_def by (simp only: mod_less)
qed

lemma checked_sub_Some [simp]: "checked_sub a b = Some d \<longleftrightarrow> b \<le> a \<and> d = a - b"
  by (auto simp: checked_sub_def)

lemma checked_sub_None [simp]: "checked_sub a b = None \<longleftrightarrow> a < b"
  by (auto simp: checked_sub_def)

section \<open>Results of computations\<close>

text \<open>A property of the result, if there is one.\<close>

definition post :: "('a, 'e) outcome \<Rightarrow> ('a \<Rightarrow> bool) \<Rightarrow> bool" where
  "post m P \<longleftrightarrow> (\<forall>x. m = Ok x \<longrightarrow> P x)"

lemma post_bind [post_intros]:
  assumes "post m Q" "\<And>x. Q x \<Longrightarrow> post (f x) P"
  shows "post (bindO m f) P"
  using assms by (auto simp: post_def bindO_eq_Ok)

lemma post_Ok [post_intros]: "P x \<Longrightarrow> post (Ok x) P"
  by (simp add: post_def)

lemma post_Panic [post_intros]: "post Panic P"
  by (simp add: post_def)

lemma post_if [post_intros]: "(b \<Longrightarrow> post m P) \<Longrightarrow> (\<not> b \<Longrightarrow> post n P) \<Longrightarrow> post (if b then m else n) P"
  by simp

lemma post_weaken: "post m Q \<Longrightarrow> (\<And>x. Q x \<Longrightarrow> P x) \<Longrightarrow> post m P"
  by (simp add: post_def)

lemma post_Err [post_intros]: "post (Err e) P"
  by (simp add: post_def)

lemma post_bind_pair:
  assumes "post m (\<lambda>(v, b). Q v b)" "\<And>v b. Q v b \<Longrightarrow> post (f v b) P"
  shows "post (bindO m (\<lambda>(v, b). f v b)) P"
  using assms by (auto simp: post_def bindO_eq_Ok split: prod.splits)

lemma post_map_err: "post m P \<Longrightarrow> post (map_err g m) P"
  by (cases m) (auto simp: post_def)

section \<open>Iterators\<close>

text \<open>\<open>Iterator::min_by_key\<close>: the first element with the least key.\<close>

fun min_by :: "('a \<Rightarrow> nat) \<Rightarrow> 'a list \<Rightarrow> 'a option" where
  "min_by f [] = None"
| "min_by f (x # xs) = (case min_by f xs of None \<Rightarrow> Some x | Some y \<Rightarrow> Some (if f x \<le> f y then x else y))"

lemma min_by_None [simp]: "min_by f xs = None \<longleftrightarrow> xs = []"
  by (cases xs) (auto split: option.splits)

lemma min_by_Some: "min_by f xs = Some m \<Longrightarrow> m \<in> set xs \<and> (\<forall>x\<in>set xs. f m \<le> f x)"
  by (induction xs arbitrary: m) (fastforce split: option.splits if_splits)+

end
