(* ===== verification/Range_Set_Spec.thy ===== *)
theory Range_Set_Spec
  imports Prelude
begin

text \<open>
  The contract shared by the two sets of \<open>u64\<close> ranges of the program
  (\<open>proto/src/range_set\<close>): what \<open>insert\<close>, \<open>remove\<close>, \<open>contains\<close>, \<open>min\<close>,
  \<open>max\<close> and \<open>pop_min\<close> promise in terms of the set of numbers the representation holds.
  \<open>Array_Range_Set\<close> and \<open>Btree_Range_Set\<close> interpret it; the operations built on it
  (adding and subtracting a whole list of ranges, running a sequence of operations) are
  verified once here.  The list representation used by both is described by \<open>wf_from\<close>.
\<close>

named_theorems range_simps

section \<open>Sorted lists of disjoint, non-adjacent ranges\<close>

fun elems :: "range list \<Rightarrow> nat set" where
  "elems [] = {}"
| "elems ((s, e) # rs) = {s..<e} \<union> elems rs"

text \<open>Every range starts at \<open>lo\<close> or later and strictly after the end of the one before.\<close>

fun wf_from :: "nat \<Rightarrow> range list \<Rightarrow> bool" where
  "wf_from lo [] = True"
| "wf_from lo ((s, e) # rs) = (lo \<le> s \<and> s < e \<and> wf_from (Suc e) rs)"

abbreviation rs_wf :: "range list \<Rightarrow> bool" where
  "rs_wf rs \<equiv> wf_from 0 rs"

lemma elems_append [simp]: "elems (xs @ ys) = elems xs \<union> elems ys"
  by (induction xs rule: elems.induct) auto

lemma elems_eq_UN: "elems rs = (\<Union>(s, e)\<in>set rs. {s..<e})"
  by (induction rs rule: elems.induct) auto

lemma wf_from_mono: "wf_from lo rs \<Longrightarrow> lo' \<le> lo \<Longrightarrow> wf_from lo' rs"
  by (cases rs rule: elems.cases) auto

lemma wf_from_ge: "wf_from lo rs \<Longrightarrow> x \<in> elems rs \<Longrightarrow> lo \<le> x"
  by (induction lo rs rule: wf_from.induct) fastforce+

lemma wf_from_elems_empty: "wf_from lo rs \<Longrightarrow> elems rs = {} \<longleftrightarrow> rs = []"
  by (cases rs rule: elems.cases) auto

lemma finite_elems [simp]: "finite (elems rs)"
  by (induction rs rule: elems.induct) auto

lemma wf_from_append:
  "wf_from lo (xs @ ys) \<longleftrightarrow>
     wf_from lo xs \<and> wf_from (if xs = [] then lo else Suc (snd (last xs))) ys"
  by (induction lo xs rule: wf_from.induct) auto

lemma wf_from_keys:
  "wf_from lo rs \<Longrightarrow> sorted_wrt (<) (map fst rs) \<and> (\<forall>k\<in>fst ` set rs. lo \<le> k)"
proof (induction lo rs rule: wf_from.induct)
  case (2 lo s e rs)
  then show ?case by fastforce
qed simp

section \<open>The contract\<close>

locale range_set =
  fixes empty :: 's
    and contains :: "'s \<Rightarrow> nat \<Rightarrow> bool"
    and insert :: "'s \<Rightarrow> range \<Rightarrow> 's \<times> bool"
    and remove :: "'s \<Rightarrow> range \<Rightarrow> 's \<times> bool"
    and pop_min :: "'s \<Rightarrow> 's \<times> range option"
    and min :: "'s \<Rightarrow> nat option"
    and is_empty :: "'s \<Rightarrow> bool"
    and set_of :: "'s \<Rightarrow> nat set"
    and invar :: "'s \<Rightarrow> bool"
  assumes invar_empty: "invar empty"
    and set_empty: "set_of empty = {}"
    and contains_iff: "invar s \<Longrightarrow> contains s x \<longleftrightarrow> x \<in> set_of s"
    and invar_insert: "invar s \<Longrightarrow> invar (fst (insert s r))"
    and set_insert: "invar s \<Longrightarrow> set_of (fst (insert s r)) = set_of s \<union> {fst r..<snd r}"
    and insert_result: "invar s \<Longrightarrow> snd (insert s r) \<longleftrightarrow> \<not> {fst r..<snd r} \<subseteq> set_of s"
    and invar_remove: "invar s \<Longrightarrow> invar (fst (remove s r))"
    and set_remove: "invar s \<Longrightarrow> set_of (fst (remove s r)) = set_of s - {fst r..<snd r}"
    and remove_result: "invar s \<Longrightarrow> snd (remove s r) \<longleftrightarrow> set_of s \<inter> {fst r..<snd r} \<noteq> {}"
    and is_empty_iff: "invar s \<Longrightarrow> is_empty s \<longleftrightarrow> set_of s = {}"
    and min_eq: "invar s \<Longrightarrow> min s = (if set_of s = {} then None else Some (Min (set_of s)))"
    and pop_min_None: "invar s \<Longrightarrow> set_of s = {} \<Longrightarrow> pop_min s = (s, None)"
    and pop_min_Some: "invar s \<Longrightarrow> set_of s \<noteq> {} \<Longrightarrow>
      \<exists>a b. snd (pop_min s) = Some (a, b) \<and> invar (fst (pop_min s)) \<and> a < b \<and>
        set_of s = {a..<b} \<union> set_of (fst (pop_min s)) \<and>
        (\<forall>y\<in>set_of (fst (pop_min s)). b < y)"
begin

lemma insert_then_contains:
  "invar s \<Longrightarrow> contains (fst (insert s r)) x \<longleftrightarrow> contains s x \<or> (fst r \<le> x \<and> x < snd r)"
  by (auto simp: contains_iff invar_insert set_insert)

lemma remove_then_contains:
  "invar s \<Longrightarrow> contains (fst (remove s r)) x \<longleftrightarrow> contains s x \<and> \<not> (fst r \<le> x \<and> x < snd r)"
  by (auto simp: contains_iff invar_remove set_remove)

lemma insert_again: "invar s \<Longrightarrow> \<not> snd (insert (fst (insert s r)) r)"
  by (simp add: insert_result invar_insert set_insert)

lemma fold_insert:
  "invar s \<Longrightarrow>
     invar (foldl (\<lambda>s r. fst (insert s r)) s rs) \<and>
     set_of (foldl (\<lambda>s r. fst (insert s r)) s rs) = set_of s \<union> elems rs"
proof (induction rs arbitrary: s)
  case (Cons r rs)
  have "invar (fst (insert s r))" using Cons.prems by (rule invar_insert)
  from Cons.IH [OF this] show ?case
    by (cases r) (auto simp: set_insert [OF Cons.prems])
qed simp

lemma fold_remove:
  "invar s \<Longrightarrow>
     invar (foldl (\<lambda>s r. fst (remove s r)) s rs) \<and>
     set_of (foldl (\<lambda>s r. fst (remove s r)) s rs) = set_of s - elems rs"
proof (induction rs arbitrary: s)
  case (Cons r rs)
  have "invar (fst (remove s r))" using Cons.prems by (rule invar_remove)
  from Cons.IH [OF this] show ?case
    by (cases r) (auto simp: set_remove [OF Cons.prems])
qed simp

end

section \<open>Sequences of operations\<close>

datatype range_op = Insert range | Remove range | Contains nat

fun run_op :: "('s \<Rightarrow> nat \<Rightarrow> bool) \<Rightarrow> ('s \<Rightarrow> range \<Rightarrow> 's \<times> bool) \<Rightarrow> ('s \<Rightarrow> range \<Rightarrow> 's \<times> bool) \<Rightarrow>
    's \<Rightarrow> range_op \<Rightarrow> 's \<times> bool" where
  "run_op c i r s (Insert x) = i s x"
| "run_op c i r s (Remove x) = r s x"
| "run_op c i r s (Contains x) = (s, c s x)"

fun run_ops :: "('s \<Rightarrow> nat \<Rightarrow> bool) \<Rightarrow> ('s \<Rightarrow> range \<Rightarrow> 's \<times> bool) \<Rightarrow> ('s \<Rightarrow> range \<Rightarrow> 's \<times> bool) \<Rightarrow>
    's \<Rightarrow> range_op list \<Rightarrow> 's \<times> bool list" where
  "run_ops c i r s [] = (s, [])"
| "run_ops c i r s (x # xs) =
     (let (s', b) = run_op c i r s x; (t, bs) = run_ops c i r s' xs in (t, b # bs))"

text \<open>The same operations on a plain set of numbers: the abstract behaviour.\<close>

fun abs_op :: "nat set \<Rightarrow> range_op \<Rightarrow> nat set \<times> bool" where
  "abs_op S (Insert x) = (S \<union> {fst x..<snd x}, \<not> {fst x..<snd x} \<subseteq> S)"
| "abs_op S (Remove x) = (S - {fst x..<snd x}, S \<inter> {fst x..<snd x} \<noteq> {})"
| "abs_op S (Contains x) = (S, x \<in> S)"

fun abs_ops :: "nat set \<Rightarrow> range_op list \<Rightarrow> nat set \<times> bool list" where
  "abs_ops S [] = (S, [])"
| "abs_ops S (x # xs) = (let (S', b) = abs_op S x; (T, bs) = abs_ops S' xs in (T, b # bs))"

context range_set
begin

lemma run_op_refines:
  assumes "invar s"
  shows "invar (fst (run_op contains insert remove s x)) \<and>
    (set_of (fst (run_op contains insert remove s x)), snd (run_op contains insert remove s x))
      = abs_op (set_of s) x"
  using assms
  by (cases x) (auto simp: invar_insert set_insert insert_result invar_remove set_remove
      remove_result contains_iff)

lemma run_ops_refine:
  "invar s \<Longrightarrow>
     invar (fst (run_ops contains insert remove s xs)) \<and>
     (set_of (fst (run_ops contains insert remove s xs)), snd (run_ops contains insert remove s xs))
       = abs_ops (set_of s) xs"
proof (induction xs arbitrary: s)
  case (Cons x xs)
  obtain s' b where sb: "run_op contains insert remove s x = (s', b)" by fastforce
  with run_op_refines [OF Cons.prems, of x]
  have "invar s'" "abs_op (set_of s) x = (set_of s', b)" by auto
  with Cons.IH [of s'] sb show ?case by (auto split: prod.splits)
qed simp

end

end
