(* ===== verification/Array_Range_Set.thy ===== *)
theory Array_Range_Set
  imports Range_Set_Spec
begin

text \<open>
  \<open>ArrayRangeSet\<close> (\<open>proto/src/range_set/array_range_set.rs\<close>): the \<open>TinyVec\<close> of ranges
  is a list.  The loops that walk an index over the array are recursions over the part of the
  list from that index on.  The lemmas show that the representation stays sorted, disjoint and
  maximal, and that every operation is the set operation it is named after.
\<close>

type_synonym array_range_set = "range list"

section \<open>Operations\<close>

fun ars_contains :: "array_range_set \<Rightarrow> nat \<Rightarrow> bool" where
  "ars_contains [] x = False"
| "ars_contains ((s, e) # rs) x =
     (if s > x then False else if s \<le> x \<and> x < e then True else ars_contains rs x)"

text \<open>The inner loop of \<open>insert\<close>: merge the follow-up ranges that overlap the current one.\<close>

fun ars_merge :: "range \<Rightarrow> range list \<Rightarrow> range list" where
  "ars_merge (s, e) [] = [(s, e)]"
| "ars_merge (s, e) ((ns, ne) # rs) =
     (if e \<ge> ns then ars_merge (s, max ne e) rs else (s, e) # (ns, ne) # rs)"

fun ars_insert_loop :: "range \<Rightarrow> bool \<Rightarrow> range list \<Rightarrow> range list \<times> bool" where
  "ars_insert_loop (xs, xe) result [] = ([(xs, xe)], True)"
| "ars_insert_loop (xs, xe) result ((s, e) # rs) =
     (if s > xe then ((xs, xe) # (s, e) # rs, True)
      else
        let result = (result \<or> s > xs); s = (if s > xs then xs else s) in
        if xe \<le> e then ((s, e) # rs, result)
        else if xs \<le> e then (ars_merge (s, xe) rs, True)
        else let (rs', b) = ars_insert_loop (xs, xe) result rs in ((s, e) # rs', b))"

definition ars_insert :: "array_range_set \<Rightarrow> range \<Rightarrow> array_range_set \<times> bool" where
  "ars_insert rs x = (if range_is_empty x then (rs, False) else ars_insert_loop x False rs)"

definition ars_insert_one :: "array_range_set \<Rightarrow> nat \<Rightarrow> array_range_set \<times> bool" where
  "ars_insert_one rs x = ars_insert rs (x, add64 x 1)"

fun ars_remove_loop :: "range \<Rightarrow> bool \<Rightarrow> range list \<Rightarrow> range list \<times> bool" where
  "ars_remove_loop x result [] = ([], result)"
| "ars_remove_loop (xs, xe) result ((s, e) # rs) =
     (if xs = xe then ((s, e) # rs, result)
      else if xe \<le> s then ((s, e) # rs, result)
      else if xs \<ge> e then
        let (rs', b) = ars_remove_loop (xs, xe) result rs in ((s, e) # rs', b)
      else
        let left = (s, xs); right = (xe, e); (rs', b) = ars_remove_loop (xs, xe) True rs in
        if range_is_empty left \<and> range_is_empty right then (rs', b)
        else if range_is_empty left then (right # rs', b)
        else if range_is_empty right then (left # rs', b)
        else (left # right # rs', b))"

definition ars_remove :: "array_range_set \<Rightarrow> range \<Rightarrow> array_range_set \<times> bool" where
  "ars_remove rs x = (if range_is_empty x then (rs, False) else ars_remove_loop x False rs)"

definition ars_subtract :: "array_range_set \<Rightarrow> array_range_set \<Rightarrow> array_range_set" where
  "ars_subtract rs other = foldl (\<lambda>rs x. fst (ars_remove rs x)) rs other"

definition ars_is_empty :: "array_range_set \<Rightarrow> bool" where
  "ars_is_empty rs \<longleftrightarrow> rs = []"

definition ars_len :: "array_range_set \<Rightarrow> nat" where
  "ars_len rs = length rs"

definition ars_pop_min :: "array_range_set \<Rightarrow> array_range_set \<times> range option" where
  "ars_pop_min rs = (case rs of [] \<Rightarrow> (rs, None) | r # rs' \<Rightarrow> (rs', Some r))"

definition ars_min :: "array_range_set \<Rightarrow> nat option" where
  "ars_min rs = (case rs of [] \<Rightarrow> None | (s, e) # _ \<Rightarrow> Some s)"

definition ars_max :: "array_range_set \<Rightarrow> nat option" where
  "ars_max rs = (case rev rs of [] \<Rightarrow> None | (s, e) # _ \<Rightarrow> Some (sub64 e 1))"

definition ars_elts :: "array_range_set \<Rightarrow> nat list" where
  "ars_elts rs = concat (map (\<lambda>(s, e). [s..<e]) rs)"

section \<open>Correctness\<close>

lemma ars_contains_iff: "wf_from lo rs \<Longrightarrow> ars_contains rs x \<longleftrightarrow> x \<in> elems rs"
proof (induction lo rs rule: wf_from.induct)
  case (2 lo s e rs)
  then show ?case using wf_from_ge [of "Suc e" rs x] by auto
qed simp

lemma elems_ars_merge: "s < e \<Longrightarrow> wf_from (Suc s) rs \<Longrightarrow> elems (ars_merge (s, e) rs) = {s..<e} \<union> elems rs"
proof (induction rs arbitrary: e)
  case (Cons r rs)
  obtain ns ne where r: "r = (ns, ne)" by fastforce
  have "wf_from (Suc s) rs" using Cons.prems(2) by (auto simp: r intro: wf_from_mono)
  with Cons show ?case by (auto simp: r)
qed simp

lemma wf_ars_merge: "lo \<le> s \<Longrightarrow> s < e \<Longrightarrow> wf_from (Suc s) rs \<Longrightarrow> wf_from lo (ars_merge (s, e) rs)"
proof (induction rs arbitrary: e)
  case (Cons r rs)
  obtain ns ne where r: "r = (ns, ne)" by fastforce
  have "wf_from (Suc s) rs" using Cons.prems(3) by (auto simp: r intro: wf_from_mono)
  with Cons show ?case by (auto simp: r)
qed simp

lemma ars_insert_loop_ok:
  assumes "wf_from lo rs" "lo \<le> xs" "xs < xe"
  shows "wf_from lo (fst (ars_insert_loop (xs, xe) r rs)) \<and>
    elems (fst (ars_insert_loop (xs, xe) r rs)) = elems rs \<union> {xs..<xe} \<and>
    (snd (ars_insert_loop (xs, xe) r rs) \<longleftrightarrow> r \<or> \<not> {xs..<xe} \<subseteq> elems rs)"
  using assms
proof (induction "(xs, xe)" r rs arbitrary: lo rule: ars_insert_loop.induct)
  case (1 r)
  then show ?case by auto
next
  case (2 r s e rs)
  have tail: "wf_from (Suc e) rs" "lo \<le> s" "s < e" using 2(2) by auto
  note ge = wf_from_ge [OF tail(1)]
  consider "s > xe" | "s \<le> xe" "xe \<le> e" | "s \<le> xe" "e < xe" "xs \<le> e" | "s \<le> xe" "e < xs"
    by linarith
  then show ?case
  proof cases
    case 1
    then have "xs \<notin> elems ((s, e) # rs)" using ge [of xs] 2(4) tail(3) by auto
    then have "\<not> {xs..<xe} \<subseteq> elems ((s, e) # rs)" using 2(4) by (meson atLeastLessThan_iff order_refl subsetD)
    with 1 show ?thesis using 2(2-4) by auto
  next
    case a: 2
    have "xs \<notin> elems rs" using ge [of xs] a 2(4) by force
    with a show ?thesis using 2(2-4) by (auto simp: Let_def subset_iff)
  next
    case a: 3
    let ?s = "min s xs"
    have pre: "lo \<le> ?s" "?s < xe" "wf_from (Suc ?s) rs"
      using a 2(3,4) tail wf_from_mono [OF tail(1), of "Suc ?s"] by auto
    note mrg = wf_ars_merge [OF pre] elems_ars_merge [OF pre(2,3)]
    have "e \<notin> elems ((s, e) # rs)" using ge [of e] by auto
    then have "\<not> {xs..<xe} \<subseteq> elems ((s, e) # rs)" using a by (meson atLeastLessThan_iff subsetD)
    moreover have "{?s..<xe} = {s..<e} \<union> {xs..<xe}" using a tail(3) by auto
    moreover have "ars_insert_loop (xs, xe) r ((s, e) # rs) = (ars_merge (?s, xe) rs, True)"
      using a by (simp add: Let_def min_def)
    ultimately show ?thesis using mrg by (simp add: Un_ac)
  next
    case a: 4
    have IH: "wf_from (Suc e) (fst (ars_insert_loop (xs, xe) r rs)) \<and>
      elems (fst (ars_insert_loop (xs, xe) r rs)) = elems rs \<union> {xs..<xe} \<and>
      (snd (ars_insert_loop (xs, xe) r rs) \<longleftrightarrow> r \<or> \<not> {xs..<xe} \<subseteq> elems rs)"
      using 2(1) [of "r \<or> s > xs" "if s > xs then xs else s" "Suc e"] a tail 2(4) by simp
    have "{xs..<xe} \<subseteq> elems rs \<longleftrightarrow> {xs..<xe} \<subseteq> {s..<e} \<union> elems rs"
      using a by auto
    moreover have "ars_insert_loop (xs, xe) r ((s, e) # rs) =
        ((s, e) # fst (ars_insert_loop (xs, xe) r rs), snd (ars_insert_loop (xs, xe) r rs))"
      using a tail 2(4) by (simp add: Let_def case_prod_beta)
    ultimately show ?thesis using IH tail by (simp add: Un_assoc)
  qed
qed

lemma ars_remove_loop_ok:
  assumes "wf_from lo rs" "xs < xe"
  shows "wf_from lo (fst (ars_remove_loop (xs, xe) r rs)) \<and>
    elems (fst (ars_remove_loop (xs, xe) r rs)) = elems rs - {xs..<xe} \<and>
    (snd (ars_remove_loop (xs, xe) r rs) \<longleftrightarrow> r \<or> elems rs \<inter> {xs..<xe} \<noteq> {})"
  using assms
proof (induction "(xs, xe)" r rs arbitrary: lo rule: ars_remove_loop.induct)
  case (1 r)
  then show ?case by auto
next
  case (2 r s e rs)
  have tail: "wf_from (Suc e) rs" "lo \<le> s" "s < e" using 2(3) by auto
  note ge = wf_from_ge [OF tail(1)]
  consider "xe \<le> s" | "s < xe" "e \<le> xs" | "s < xe" "xs < e" by linarith
  then show ?case
  proof cases
    case 1
    then have "elems ((s, e) # rs) \<inter> {xs..<xe} = {}" using ge tail(3) by force
    with 1 show ?thesis using 2(3,4) by auto
  next
    case a: 2
    obtain rs' b where rs': "ars_remove_loop (xs, xe) r rs = (rs', b)" by fastforce
    have IH: "wf_from (Suc e) rs' \<and> elems rs' = elems rs - {xs..<xe} \<and>
      (b \<longleftrightarrow> r \<or> elems rs \<inter> {xs..<xe} \<noteq> {})"
      using 2(1) [of "Suc e"] a tail 2(4) rs' by simp
    have out: "ars_remove_loop (xs, xe) r ((s, e) # rs) = ((s, e) # rs', b)"
      using a 2(4) rs' by simp
    have "{s..<e} \<inter> {xs..<xe} = {}" using a by auto
    then show ?thesis unfolding out using IH tail by (simp add: Un_Diff Int_Un_distrib2 Diff_triv)
  next
    case a: 3
    have IH: "wf_from (Suc e) (fst (ars_remove_loop (xs, xe) True rs)) \<and>
      elems (fst (ars_remove_loop (xs, xe) True rs)) = elems rs - {xs..<xe} \<and>
      snd (ars_remove_loop (xs, xe) True rs)"
      using 2(2) [of "(s, xs)" "(xe, e)" "Suc e"] a tail 2(4) by auto
    obtain rs' where rs': "ars_remove_loop (xs, xe) True rs = (rs', True)"
      using IH by (metis prod.collapse)
    let ?out = "(if s < xs then [(s, xs)] else []) @ (if xe < e then [(xe, e)] else []) @ rs'"
    have out: "ars_remove_loop (xs, xe) r ((s, e) # rs) = (?out, True)"
      using a tail 2(4) rs' by auto
    have "max s xs \<in> elems ((s, e) # rs) \<inter> {xs..<xe}" using a tail 2(4) by auto
    moreover have "wf_from lo rs'" "wf_from (Suc e) rs'" "wf_from (Suc xs) rs'"
      using IH rs' a tail by (auto intro: wf_from_mono)
    then have "wf_from lo ?out" using a tail 2(4) by auto
    moreover have "elems ?out = {s..<xs} \<union> {xe..<e} \<union> elems rs'" by (simp add: Un_assoc)
    moreover have "{s..<e} - {xs..<xe} = {s..<xs} \<union> {xe..<e}" using a 2(4) by auto
    ultimately have "elems ?out = elems ((s, e) # rs) - {xs..<xe}" "wf_from lo ?out"
      "max s xs \<in> elems ((s, e) # rs) \<inter> {xs..<xe}"
      using IH rs' by (simp_all add: Un_Diff)
    then show ?thesis unfolding out by (simp only: fst_conv snd_conv) blast
  qed
qed

interpretation ars: range_set "[] :: array_range_set" ars_contains ars_insert ars_remove
  ars_pop_min ars_min ars_is_empty elems rs_wf
proof unfold_locales
  fix s :: array_range_set and r :: range and x
  assume wf: "rs_wf s"
  obtain a b where r: "r = (a, b)" by fastforce
  show "ars_contains s x \<longleftrightarrow> x \<in> elems s" using wf by (rule ars_contains_iff)
  show "rs_wf (fst (ars_insert s r))" "elems (fst (ars_insert s r)) = elems s \<union> {fst r..<snd r}"
    "snd (ars_insert s r) \<longleftrightarrow> \<not> {fst r..<snd r} \<subseteq> elems s"
    using ars_insert_loop_ok [OF wf, of a b False] wf by (auto simp: r ars_insert_def)
  show "rs_wf (fst (ars_remove s r))" "elems (fst (ars_remove s r)) = elems s - {fst r..<snd r}"
    "snd (ars_remove s r) \<longleftrightarrow> elems s \<inter> {fst r..<snd r} \<noteq> {}"
    using ars_remove_loop_ok [OF wf, of a b False] wf by (auto simp: r ars_remove_def)
  show "ars_is_empty s \<longleftrightarrow> elems s = {}"
    using wf_from_elems_empty [OF wf] by (auto simp: ars_is_empty_def)
  show "ars_min s = (if elems s = {} then None else Some (Min (elems s)))"
  proof (cases s rule: elems.cases)
    case (2 a b rs)
    have "Min (elems s) = a"
      using wf wf_from_ge [of "Suc b" rs] 2 by (intro Min_eqI) force+
    then show ?thesis using wf by (auto simp: 2 ars_min_def)
  qed (simp add: ars_min_def)
  show "ars_pop_min s = (s, None)" if "elems s = {}"
    using that wf_from_elems_empty [OF wf] by (auto simp: ars_pop_min_def)
  show "\<exists>a b. snd (ars_pop_min s) = Some (a, b) \<and> rs_wf (fst (ars_pop_min s)) \<and> a < b \<and>
      elems s = {a..<b} \<union> elems (fst (ars_pop_min s)) \<and> (\<forall>y\<in>elems (fst (ars_pop_min s)). b < y)"
    if "elems s \<noteq> {}"
  proof (cases s rule: elems.cases)
    case (2 a b rs)
    then have "wf_from (Suc b) rs" "a < b" using wf by auto
    then show ?thesis using wf_from_ge [of "Suc b" rs]
      by (auto simp: 2 ars_pop_min_def Suc_le_eq intro: wf_from_mono)
  qed (use that in simp)
qed simp_all

lemma ars_elts_set: "set (ars_elts rs) = elems rs"
  by (induction rs rule: elems.induct) (auto simp: ars_elts_def)

lemma ars_elts_Cons: "ars_elts ((s, e) # rs) = [s..<e] @ ars_elts rs"
  by (simp add: ars_elts_def)

lemma ars_elts_sorted: "wf_from lo rs \<Longrightarrow> sorted_wrt (<) (ars_elts rs)"
proof (induction lo rs rule: wf_from.induct)
  case (2 lo s e rs)
  have "\<forall>x\<in>{s..<e}. \<forall>y\<in>elems rs. x < y"
    using 2(2) wf_from_ge [of "Suc e" rs] by fastforce
  with 2 show ?case
    by (auto simp: ars_elts_Cons sorted_wrt_append ars_elts_set)
qed (simp add: ars_elts_def)

lemma wf_from_max:
  assumes "wf_from lo rs" "rs \<noteq> []"
  shows "Max (elems rs) = snd (last rs) - 1 \<and> fst (last rs) < snd (last rs) \<and> lo \<le> fst (last rs)"
  using assms
proof (induction lo rs rule: wf_from.induct)
  case (2 lo s e rs)
  show ?case
  proof (cases "rs = []")
    case True
    have "Max {s..<e} = e - 1" using 2(2) by (intro Max_eqI) auto
    with True 2(2) show ?thesis by simp
  next
    case False
    from 2 have IH: "Max (elems rs) = snd (last rs) - 1" "fst (last rs) < snd (last rs)" "Suc e \<le> fst (last rs)"
      using False by auto
    have ne: "elems rs \<noteq> {}" using False 2(2) wf_from_elems_empty by auto
    have "Max (elems ((s, e) # rs)) = max (Max {s..<e}) (Max (elems rs))"
      using ne 2(2) by (simp add: Max_Un)
    moreover have "Max {s..<e} = e - 1" using 2(2) by (intro Max_eqI) auto
    ultimately show ?thesis using IH False 2(2) by auto
  qed
qed simp

lemma ars_max_eq:
  assumes "rs_wf rs" "\<forall>x\<in>elems rs. x < u64_max"
  shows "ars_max rs = (if elems rs = {} then None else Some (Max (elems rs)))"
proof (cases "rs = []")
  case False
  obtain s e where se: "last rs = (s, e)" by fastforce
  have mx: "Max (elems rs) = e - 1" "s < e" using wf_from_max [OF assms(1) False] se by auto
  have ne: "elems rs \<noteq> {}" using wf_from_elems_empty [OF assms(1)] False by simp
  then have "e - 1 < u64_max" using assms(2) mx(1) Max_in [of "elems rs"] by force
  then have "sub64 e 1 = e - 1" using mx(2) by (intro sub64_small) (auto simp: u64_max_def)
  moreover obtain init where "rs = init @ [(s, e)]" using False se by (metis append_butlast_last_id)
  ultimately show ?thesis using ne mx by (simp add: ars_max_def)
qed (simp add: ars_max_def)

end
