(* ===== verification/Btree_Map.thy ===== *)
theory Btree_Map
  imports Prelude
begin

text \<open>
  \<open>std::collections::BTreeMap\<close> with \<open>u64\<close> keys, as an association list sorted by key.
  The contract of the map (\<open>ordered_map\<close>) is what its clients rely on: a lookup after
  an insert or a remove, and the order of iteration.  The list implementation interprets it.
\<close>

type_synonym 'v btree = "(nat \<times> 'v) list"

definition bt_ok :: "'v btree \<Rightarrow> bool" where
  "bt_ok m \<longleftrightarrow> sorted_wrt (<) (map fst m)"

fun bt_insert :: "nat \<Rightarrow> 'v \<Rightarrow> 'v btree \<Rightarrow> 'v btree" where
  "bt_insert k v [] = [(k, v)]"
| "bt_insert k v ((a, b) # m) =
     (if k < a then (k, v) # (a, b) # m else if k = a then (k, v) # m else (a, b) # bt_insert k v m)"

definition bt_remove :: "nat \<Rightarrow> 'v btree \<Rightarrow> 'v btree" where
  "bt_remove k m = filter (\<lambda>p. fst p \<noteq> k) m"

text \<open>\<open>range(..=x).next_back()\<close> and \<open>range((Excluded(x), ..)).next()\<close>.\<close>

definition bt_pred :: "'v btree \<Rightarrow> nat \<Rightarrow> (nat \<times> 'v) option" where
  "bt_pred m x = (case rev (filter (\<lambda>p. fst p \<le> x) m) of [] \<Rightarrow> None | p # _ \<Rightarrow> Some p)"

definition bt_succ :: "'v btree \<Rightarrow> nat \<Rightarrow> (nat \<times> 'v) option" where
  "bt_succ m x = (case filter (\<lambda>p. x < fst p) m of [] \<Rightarrow> None | p # _ \<Rightarrow> Some p)"

section \<open>The contract\<close>

locale ordered_map =
  fixes empty :: 'm
    and insert :: "nat \<Rightarrow> 'v \<Rightarrow> 'm \<Rightarrow> 'm"
    and remove :: "nat \<Rightarrow> 'm \<Rightarrow> 'm"
    and lookup :: "'m \<Rightarrow> nat \<Rightarrow> 'v option"
    and entries :: "'m \<Rightarrow> (nat \<times> 'v) list"
    and invar :: "'m \<Rightarrow> bool"
  assumes invar_empty: "invar empty"
    and lookup_empty: "lookup empty k = None"
    and invar_insert: "invar m \<Longrightarrow> invar (insert k v m)"
    and lookup_insert: "invar m \<Longrightarrow> lookup (insert k v m) = (lookup m)(k \<mapsto> v)"
    and invar_remove: "invar m \<Longrightarrow> invar (remove k m)"
    and lookup_remove: "invar m \<Longrightarrow> lookup (remove k m) = (lookup m)(k := None)"
    and entries_sorted: "invar m \<Longrightarrow> sorted_wrt (<) (map fst (entries m))"
    and entries_lookup: "invar m \<Longrightarrow> lookup m = map_of (entries m)"
begin

text \<open>The sum of a weight over all entries, as a bookkeeping client keeps it.\<close>

definition total :: "('v \<Rightarrow> nat) \<Rightarrow> 'm \<Rightarrow> nat" where
  "total f m = sum_list (map (f \<circ> snd) (entries m))"

lemma total_eq_sum:
  assumes "invar m"
  shows "total f m = (\<Sum>k\<in>dom (lookup m). f (the (lookup m k)))"
proof -
  have d: "distinct (map fst (entries m))"
    using entries_sorted [OF assms] strict_sorted_iff by blast
  then have "total f m = (\<Sum>p\<in>set (entries m). f (snd p))"
    unfolding total_def using distinct_map sum_list_distinct_conv_sum_set [of "entries m" "f \<circ> snd"]
    by auto
  also have "\<dots> = (\<Sum>p\<in>set (entries m). f (the (lookup m (fst p))))"
  proof (rule sum.cong)
    fix p assume "p \<in> set (entries m)"
    then have "map_of (entries m) (fst p) = Some (snd p)"
      using d by (metis map_of_eq_Some_iff prod.collapse)
    then show "f (snd p) = f (the (lookup m (fst p)))"
      using entries_lookup [OF assms] by simp
  qed simp
  also have "\<dots> = (\<Sum>k\<in>fst ` set (entries m). f (the (lookup m k)))"
    using d by (simp add: sum.reindex distinct_map)
  also have "fst ` set (entries m) = dom (lookup m)"
    using entries_lookup [OF assms] by (simp add: dom_map_of_conv_image_fst)
  finally show ?thesis .
qed

lemma finite_dom_lookup: "invar m \<Longrightarrow> finite (dom (lookup m))"
  using entries_lookup by (simp add: finite_dom_map_of)

lemma total_insert_new:
  assumes "invar m" "lookup m k = None"
  shows "total f (insert k v m) = total f m + f v"
proof -
  have "k \<notin> dom (lookup m)" using assms(2) by auto
  then show ?thesis
    using assms finite_dom_lookup [OF assms(1)]
    by (simp add: total_eq_sum invar_insert lookup_insert) (intro sum.cong, auto)
qed

lemma total_remove:
  assumes "invar m" "lookup m k = Some v"
  shows "total f m = total f (remove k m) + f v"
proof -
  have "k \<in> dom (lookup m)" using assms(2) by auto
  then show ?thesis
    using assms finite_dom_lookup [OF assms(1)]
    by (simp add: total_eq_sum invar_remove lookup_remove sum.remove [of _ k])
qed

end

section \<open>The association list implements it\<close>

lemma bt_insert_keys: "fst ` set (bt_insert k v m) = Set.insert k (fst ` set m)"
  by (induction k v m rule: bt_insert.induct) auto

lemma bt_insert_ok [simp]: "bt_ok m \<Longrightarrow> bt_ok (bt_insert k v m)"
proof (induction k v m rule: bt_insert.induct)
  case (2 k v a b m)
  have "\<forall>x\<in>fst ` set (bt_insert k v m). a < x" if "a < k"
    using 2(2) that by (auto simp: bt_insert_keys bt_ok_def)
  with 2 show ?case by (fastforce simp: bt_ok_def)
qed (simp add: bt_ok_def)

lemma bt_remove_ok [simp]: "bt_ok m \<Longrightarrow> bt_ok (bt_remove k m)"
  by (auto simp: bt_ok_def bt_remove_def sorted_wrt_map sorted_wrt_filter)

lemma map_of_bt_insert: "map_of (bt_insert k v m) = (map_of m)(k \<mapsto> v)"
  by (induction k v m rule: bt_insert.induct) auto

lemma map_of_bt_remove: "map_of (bt_remove k m) = (map_of m)(k := None)"
  by (induction m) (auto simp: bt_remove_def)

interpretation bt: ordered_map "[] :: 'v btree" bt_insert bt_remove map_of "\<lambda>m. m" bt_ok
  by unfold_locales
    (simp_all add: map_of_bt_insert map_of_bt_remove bt_ok_def [symmetric], simp_all add: bt_ok_def)

lemma bt_remove_length: "(k, v) \<in> set m \<Longrightarrow> length (bt_remove k m) < length m"
  unfolding bt_remove_def by (rule length_filter_less [of "(k, v)"]) auto

lemma bt_succ_Some:
  assumes "bt_succ m x = Some (a, b)"
  shows "(a, b) \<in> set m \<and> x < a"
proof -
  from assms have "(a, b) \<in> set (filter (\<lambda>p. x < fst p) m)"
    by (cases "filter (\<lambda>p. x < fst p) m") (simp_all add: bt_succ_def)
  then show ?thesis by simp
qed

lemma bt_pred_Some:
  assumes "bt_pred m x = Some (a, b)"
  shows "(a, b) \<in> set m \<and> a \<le> x"
proof -
  from assms have "(a, b) \<in> set (rev (filter (\<lambda>p. fst p \<le> x) m))"
    by (cases "rev (filter (\<lambda>p. fst p \<le> x) m)") (simp_all add: bt_pred_def del: rev_is_Nil_conv)
  then show ?thesis by simp
qed

text \<open>A map split at a key: every client of \<open>bt_pred\<close> and \<open>bt_succ\<close> works on the two parts.\<close>

lemma bt_split:
  assumes "bt_ok m"
  obtains L R where "m = L @ R" "\<forall>p\<in>set L. fst p \<le> x" "\<forall>p\<in>set R. x < fst p"
proof
  show "m = takeWhile (\<lambda>p. fst p \<le> x) m @ dropWhile (\<lambda>p. fst p \<le> x) m" by simp
  show "\<forall>p\<in>set (takeWhile (\<lambda>p. fst p \<le> x) m). fst p \<le> x" by (meson set_takeWhileD)
  show "\<forall>p\<in>set (dropWhile (\<lambda>p. fst p \<le> x) m). x < fst p"
    using assms
  proof (induction m)
    case (Cons p m)
    have "\<forall>q\<in>set m. fst p < fst q" "bt_ok m" using Cons.prems by (auto simp: bt_ok_def)
    then show ?case using Cons.IH by (auto dest: order_less_trans)
  qed simp
qed

lemma bt_pred_split:
  assumes "\<forall>p\<in>set L. fst p \<le> x" "\<forall>p\<in>set R. x < fst p"
  shows "bt_pred (L @ R) x = (if L = [] then None else Some (last L))"
proof -
  have "filter (\<lambda>p. fst p \<le> x) (L @ R) = L"
    using assms by (force simp: filter_id_conv filter_empty_conv)
  then show ?thesis by (cases L rule: rev_cases) (auto simp: bt_pred_def)
qed

lemma bt_succ_split:
  assumes "\<forall>p\<in>set L. fst p \<le> x" "\<forall>p\<in>set R. x < fst p"
  shows "bt_succ (L @ R) x = (case R of [] \<Rightarrow> None | p # _ \<Rightarrow> Some p)"
proof -
  have "filter (\<lambda>p. x < fst p) (L @ R) = R"
    using assms by (force simp: filter_id_conv filter_empty_conv)
  then show ?thesis by (simp add: bt_succ_def)
qed

lemma bt_remove_middle:
  assumes "bt_ok (L @ (k, v) # R)"
  shows "bt_remove k (L @ (k, v) # R) = L @ R"
proof -
  have "filter (\<lambda>p. fst p \<noteq> k) L = L" "filter (\<lambda>p. fst p \<noteq> k) R = R"
    using assms by (auto simp: bt_ok_def sorted_wrt_append filter_id_conv)
  then show ?thesis by (simp add: bt_remove_def)
qed

lemma bt_insert_middle:
  "\<forall>p\<in>set L. fst p < k \<Longrightarrow> \<forall>p\<in>set R. k < fst p \<Longrightarrow> bt_insert k v (L @ R) = L @ (k, v) # R"
proof (induction L)
  case Nil
  then show ?case by (cases R) auto
next
  case (Cons p L)
  then show ?case by (cases p) auto
qed

end
