(* ===== verification/Btree_Range_Set.thy ===== *)
theory Btree_Range_Set
  imports Array_Range_Set Btree_Map
begin

text \<open>
  \<open>RangeSet\<close> (\<open>proto/src/range_set/btree_range_set.rs\<close>): a \<open>BTreeMap\<close> from the start of
  each range to its end.  The loops that remove successors until none overlaps are recursions
  with the number of ranges as measure.  The lemmas show that it meets the same contract as
  \<open>ArrayRangeSet\<close>, and that both compute the same list of ranges.
\<close>

type_synonym range_set = "nat btree"

section \<open>Operations\<close>

definition rs_contains :: "range_set \<Rightarrow> nat \<Rightarrow> bool" where
  "rs_contains m x = (case bt_pred m x of None \<Rightarrow> False | Some (_, e) \<Rightarrow> e > x)"

text \<open>The tail of \<open>insert_one\<close>: take in a range that starts right after \<open>x\<close>.\<close>

definition rs_join_next :: "range_set \<Rightarrow> nat \<Rightarrow> range_set \<times> nat" where
  "rs_join_next m x =
     (let new_end = add64 x 1 in
      case bt_succ m x of
        None \<Rightarrow> (m, new_end)
      | Some (next_start, next_end) \<Rightarrow>
          if next_start = new_end then (bt_remove next_start m, next_end) else (m, new_end))"

definition rs_insert_one :: "range_set \<Rightarrow> nat \<Rightarrow> range_set \<times> bool" where
  "rs_insert_one m x =
     (let fresh = (let (m, new_end) = rs_join_next m x in (bt_insert x new_end m, True)) in
      case bt_pred m x of
        None \<Rightarrow> fresh
      | Some (start, e) \<Rightarrow>
          if e > x then (m, False)
          else if e = x then
            let (m, new_end) = rs_join_next (bt_remove start m) x in (bt_insert start new_end m, True)
          else fresh)"

function rs_insert_loop :: "range_set \<Rightarrow> nat \<Rightarrow> nat \<Rightarrow> range_set \<times> nat" where
  "rs_insert_loop m xs xe =
     (case bt_succ m xs of
        None \<Rightarrow> (m, xe)
      | Some (next_start, next_end) \<Rightarrow>
          if next_start > xe then (m, xe)
          else rs_insert_loop (bt_remove next_start m) xs (max next_end xe))"
  by pat_completeness auto
termination
  by (relation "measure (\<lambda>(m, xs, xe). length m)")
    (auto dest!: bt_succ_Some intro: bt_remove_length)

declare rs_insert_loop.simps [simp del]

definition rs_insert :: "range_set \<Rightarrow> range \<Rightarrow> range_set \<times> bool" where
  "rs_insert m x =
     (if range_is_empty x then (m, False)
      else
        let finish = (\<lambda>m xs xe. let (m, xe) = rs_insert_loop m xs xe in (bt_insert xs xe m, True)) in
        case bt_pred m (fst x) of
          None \<Rightarrow> finish m (fst x) (snd x)
        | Some (start, e) \<Rightarrow>
            if e \<ge> snd x then (m, False)
            else if e \<ge> fst x then finish (bt_remove start m) start (snd x)
            else finish m (fst x) (snd x))"

function rs_remove_loop :: "range_set \<Rightarrow> nat \<Rightarrow> nat \<Rightarrow> bool \<Rightarrow> range_set \<times> bool" where
  "rs_remove_loop m xs xe after =
     (case bt_succ m xs of
        None \<Rightarrow> (m, after)
      | Some (start, e) \<Rightarrow>
          if start \<ge> xe then (m, after)
          else
            let m = bt_remove start m in
            if e > xe then (bt_insert xe e m, True) else rs_remove_loop m xs xe True)"
  by pat_completeness auto
termination
  by (relation "measure (\<lambda>(m, xs, xe, after). length m)")
    (auto dest!: bt_succ_Some intro: bt_remove_length)

declare rs_remove_loop.simps [simp del]

definition rs_remove :: "range_set \<Rightarrow> range \<Rightarrow> range_set \<times> bool" where
  "rs_remove m x =
     (if range_is_empty x then (m, False)
      else
        let tail = (\<lambda>m before.
              let (m, after) = rs_remove_loop m (fst x) (snd x) False in (m, before \<or> after)) in
        case bt_pred m (fst x) of
          None \<Rightarrow> tail m False
        | Some (start, e) \<Rightarrow>
            if e > fst x then
              let m = bt_remove start m;
                  m = (if start < fst x then bt_insert start (fst x) m else m);
                  m = (if e > snd x then bt_insert (snd x) e m else m)
              in if e \<ge> snd x then (m, True) else tail m True
            else tail m False)"

definition rs_add :: "range_set \<Rightarrow> range_set \<Rightarrow> range_set" where
  "rs_add m other = foldl (\<lambda>m x. fst (rs_insert m x)) m other"

definition rs_subtract :: "range_set \<Rightarrow> range_set \<Rightarrow> range_set" where
  "rs_subtract m other = foldl (\<lambda>m x. fst (rs_remove m x)) m other"

definition rs_is_empty :: "range_set \<Rightarrow> bool" where
  "rs_is_empty m \<longleftrightarrow> m = []"

definition rs_min :: "range_set \<Rightarrow> nat option" where
  "rs_min m = (case m of [] \<Rightarrow> None | (s, e) # _ \<Rightarrow> Some s)"

definition rs_max :: "range_set \<Rightarrow> nat option" where
  "rs_max m = (case rev m of [] \<Rightarrow> None | (s, e) # _ \<Rightarrow> Some (sub64 e 1))"

definition rs_len :: "range_set \<Rightarrow> nat" where
  "rs_len m = length m"

definition rs_peek_min :: "range_set \<Rightarrow> range option" where
  "rs_peek_min m = (case m of [] \<Rightarrow> None | r # _ \<Rightarrow> Some r)"

definition rs_pop_min :: "range_set \<Rightarrow> range_set \<times> range option" where
  "rs_pop_min m =
     (case rs_peek_min m of None \<Rightarrow> (m, None) | Some r \<Rightarrow> (bt_remove (fst r) m, Some r))"

text \<open>
  \<open>replace\<close> returns an iterator over the parts of the set the new range overlaps; its state
  is the set, the pending overlap with the predecessor, and the range that will be inserted.
  Dropping the iterator runs it to its end and inserts the range.
\<close>

type_synonym replace_state = "range_set \<times> range option \<times> range"

definition rs_replace :: "range_set \<Rightarrow> range \<Rightarrow> replace_state" where
  "rs_replace m r =
     (case bt_pred m (fst r) of
        None \<Rightarrow> (m, None, r)
      | Some (prev_start, prev_end) \<Rightarrow>
          if prev_end \<ge> fst r then
            let replaced_start = fst r; replaced_end = min (snd r) prev_end in
            (bt_remove prev_start m,
             if replaced_start \<noteq> replaced_end then Some (replaced_start, replaced_end) else None,
             (min (fst r) prev_start, max (snd r) prev_end))
          else (m, None, r))"

definition replace_next :: "replace_state \<Rightarrow> replace_state \<times> range option" where
  "replace_next st =
     (case st of (m, pred, (s, e)) \<Rightarrow>
        case pred of
          Some p \<Rightarrow> ((m, None, (s, e)), Some p)
        | None \<Rightarrow>
            (case bt_succ m s of
               None \<Rightarrow> ((m, None, (s, e)), None)
             | Some (next_start, next_end) \<Rightarrow>
                 if next_start > e then ((m, None, (s, e)), None)
                 else
                   let replaced_end = min e next_end in
                   ((bt_remove next_start m, None, (s, max e next_end)),
                    if next_start = replaced_end then None else Some (next_start, replaced_end))))"

text \<open>Calling \<open>next\<close> until it returns \<open>None\<close>: the final state and the items.\<close>

function replace_drain :: "replace_state \<Rightarrow> replace_state \<times> range list" where
  "replace_drain st =
     (case replace_next st of
        (st', None) \<Rightarrow> (st', [])
      | (st', Some r) \<Rightarrow> let (st'', rs) = replace_drain st' in (st'', r # rs))"
  by pat_completeness auto
termination
  by (relation "measure (\<lambda>(m, pred, r). length m + (case pred of None \<Rightarrow> 0 | Some _ \<Rightarrow> 1))")
    (auto simp: replace_next_def Let_def dest!: bt_succ_Some intro: bt_remove_length
      split: option.splits if_splits prod.splits)

declare replace_drain.simps [simp del]

definition replace_drop :: "replace_state \<Rightarrow> range_set" where
  "replace_drop st = (case fst (replace_drain st) of (m, pred, (s, e)) \<Rightarrow> bt_insert s e m)"

section \<open>Representation\<close>

lemma wf_from_bt_ok [simp]: "wf_from lo m \<Longrightarrow> bt_ok m"
  using wf_from_keys by (auto simp: bt_ok_def)

text \<open>A set of numbers has one representation only.\<close>

lemma wf_from_unique:
  "wf_from lo a \<Longrightarrow> wf_from lo b \<Longrightarrow> elems a = elems b \<Longrightarrow> a = b"
proof (induction lo a arbitrary: b rule: wf_from.induct)
  case (1 lo)
  then show ?case using wf_from_elems_empty by auto
next
  case (2 lo s e rs)
  obtain s' e' rs' where b: "b = (s', e') # rs'"
    using 2(2-4) wf_from_elems_empty [OF 2(3)] by (cases b rule: elems.cases) auto
  have w: "wf_from (Suc e) rs" "s < e" "wf_from (Suc e') rs'" "s' < e'" using 2(2,3) b by auto
  note ge = wf_from_ge [OF w(1)] and ge' = wf_from_ge [OF w(3)]
  have eq: "{s..<e} \<union> elems rs = {s'..<e'} \<union> elems rs'" using 2(4) b by simp
  have "s \<in> {s'..<e'} \<union> elems rs'" "s' \<in> {s..<e} \<union> elems rs" using eq w by auto
  then have s: "s = s'" using ge ge' w by force
  have "e \<notin> {s..<e} \<union> elems rs" "e' \<notin> {s'..<e'} \<union> elems rs'" using ge [of e] ge' [of e'] by auto
  then have "e \<notin> {s'..<e'}" "e' \<notin> {s..<e}" using eq by auto
  then have e: "e = e'" using s w by auto
  have "elems rs = ({s..<e} \<union> elems rs) - {s..<e}" using ge by fastforce
  also have "\<dots> = elems rs'" using eq s e ge' by fastforce
  finally have "rs = rs'" using 2(1) w e by auto
  then show ?case using b s e by simp
qed

lemma wf_from_split:
  assumes "wf_from lo (L @ (s, e) # R)"
  shows "\<forall>p\<in>set L. fst p < s \<and> snd p < s" "\<forall>p\<in>set R. e < fst p" "wf_from lo L" "s < e"
    "wf_from (Suc e) R"
proof -
  show "\<forall>p\<in>set L. fst p < s \<and> snd p < s"
    using assms
  proof (induction lo L rule: wf_from.induct)
    case (2 lo a b L)
    have "\<forall>k\<in>fst ` set (L @ (s, e) # R). Suc b \<le> k"
      using 2(2) wf_from_keys [of "Suc b" "L @ (s, e) # R"] by auto
    then have "b < s" by auto
    with 2 show ?case by auto
  qed simp
  show "wf_from lo L" "s < e" and w: "wf_from (Suc e) R" using assms by (auto simp: wf_from_append)
  show "\<forall>p\<in>set R. e < fst p" using wf_from_keys [OF w] by (auto simp: Suc_le_eq)
qed

lemma wf_from_drop_middle: "wf_from lo (L @ r # R) \<Longrightarrow> wf_from lo (L @ R)"
proof (induction lo L rule: wf_from.induct)
  case (1 lo)
  then show ?case by (cases r) (auto intro: wf_from_mono)
qed auto

section \<open>Correctness\<close>

lemma elems_le_start: "wf_from lo (L @ R) \<Longrightarrow> \<forall>p\<in>set R. x < fst p \<Longrightarrow> y \<in> elems R \<Longrightarrow> x < y"
proof -
  assume "wf_from lo (L @ R)" and gt: "\<forall>p\<in>set R. x < fst p" and y: "y \<in> elems R"
  from y obtain s e where "(s, e) \<in> set R" "s \<le> y" by (auto simp: elems_eq_UN)
  with gt show "x < y" by force
qed

lemma wf_from_suffix_gt:
  assumes "wf_from lo (L @ R)" "\<forall>p\<in>set R. x < fst p"
  shows "wf_from (Suc x) R"
  using assms by (cases R rule: elems.cases) (auto simp: wf_from_append)

text \<open>The part of a map up to \<open>x\<close> holds \<open>x\<close> exactly when its last range reaches beyond \<open>x\<close>.\<close>

lemma prefix_mem_iff:
  assumes "wf_from lo L" "\<forall>p\<in>set L. fst p \<le> x"
  shows "x \<in> elems L \<longleftrightarrow> L \<noteq> [] \<and> x < snd (last L)"
proof (cases L rule: rev_cases)
  case (snoc I r)
  obtain s e where r: "r = (s, e)" by fastforce
  have "\<forall>p\<in>set I. snd p < s" using wf_from_split(1) [of lo I s e "[]"] assms(1) snoc r by simp
  then have "x \<notin> elems I" using assms(2) snoc r by (fastforce simp: elems_eq_UN)
  then show ?thesis using snoc r assms(2) by simp
qed simp

lemma rs_contains_iff:
  assumes "rs_wf m"
  shows "rs_contains m x \<longleftrightarrow> x \<in> elems m"
proof -
  obtain L R where m: "m = L @ R" "\<forall>p\<in>set L. fst p \<le> x" "\<forall>p\<in>set R. x < fst p"
    using bt_split [of m x] assms by auto
  have "x \<notin> elems R" using elems_le_start [of 0 L R x x] assms m by auto
  moreover have "x \<in> elems L \<longleftrightarrow> L \<noteq> [] \<and> x < snd (last L)"
    using prefix_mem_iff [OF _ m(2), of 0] assms m(1) by (simp add: wf_from_append)
  ultimately show ?thesis
    by (auto simp: rs_contains_def m(1) bt_pred_split [OF m(2,3)] split: prod.splits)
qed

lemma rs_insert_loop_merge:
  assumes "\<forall>p\<in>set L. fst p < xs" "wf_from (Suc xs) R" "bt_ok (L @ R)"
  shows "(let (m, e) = rs_insert_loop (L @ R) xs xe in bt_insert xs e m) = L @ ars_merge (xs, xe) R"
  using assms
proof (induction R arbitrary: xe)
  case Nil
  then have "bt_succ (L @ []) xs = None" using bt_succ_split [of L xs "[]"] by fastforce
  then show ?case using Nil(1) bt_insert_middle [of L xs "[]"]
    by (simp add: rs_insert_loop.simps [of L])
next
  case (Cons r R)
  obtain a b where r: "r = (a, b)" by fastforce
  have le: "\<forall>p\<in>set L. fst p \<le> xs" and gt: "\<forall>p\<in>set (r # R). xs < fst p"
    using Cons.prems(1) wf_from_keys [OF Cons.prems(2)] by (auto simp: Suc_le_eq)
  have succ: "bt_succ (L @ r # R) xs = Some (a, b)"
    using bt_succ_split [OF le gt] r by simp
  have rem: "bt_remove a (L @ r # R) = L @ R"
    using bt_remove_middle [of L a b R] Cons.prems(3) r by simp
  have wf: "wf_from (Suc xs) R" using Cons.prems(2) r by (auto intro: wf_from_mono)
  have ok: "bt_ok (L @ R)" using Cons.prems(3) bt_remove_ok rem by metis
  show ?case
  proof (cases "a > xe")
    case True
    then show ?thesis using bt_insert_middle [of L xs "r # R"] Cons.prems(1) gt
      by (simp add: r rs_insert_loop.simps [of "L @ (a, b) # R"] succ [unfolded r])
  next
    case False
    then show ?thesis using Cons.IH [OF Cons.prems(1) wf ok, of "max b xe"]
      by (simp add: r rs_insert_loop.simps [of "L @ (a, b) # R"] succ [unfolded r] rem [unfolded r])
  qed
qed

text \<open>What the code does after the predecessor was dealt with.\<close>

lemma rs_insert_finish:
  assumes "rs_wf (L @ R)" "\<forall>p\<in>set L. snd p < xs" "\<forall>p\<in>set R. xs < fst p" "xs < xe"
  shows "rs_wf (L @ ars_merge (xs, xe) R)" "elems (L @ ars_merge (xs, xe) R) = elems (L @ R) \<union> {xs..<xe}"
    "(let (m, e) = rs_insert_loop (L @ R) xs xe in bt_insert xs e m) = L @ ars_merge (xs, xe) R"
proof -
  have wfR: "wf_from (Suc xs) R" using wf_from_suffix_gt assms(1,3) by blast
  have wfL: "wf_from 0 L" using assms(1) by (simp add: wf_from_append)
  have fstL: "\<forall>p\<in>set L. fst p < xs"
  proof
    fix p assume p: "p \<in> set L"
    obtain A C where "L = A @ p # C" using split_list [OF p] by auto
    then have "fst p < snd p" using wf_from_split(4) [of 0 A "fst p" "snd p" C] wfL by simp
    then show "fst p < xs" using assms(2) p by force
  qed
  show "(let (m, e) = rs_insert_loop (L @ R) xs xe in bt_insert xs e m) = L @ ars_merge (xs, xe) R"
    using rs_insert_loop_merge [OF fstL wfR] assms(1) by simp
  have "wf_from (if L = [] then 0 else Suc (snd (last L))) (ars_merge (xs, xe) R)"
    using wf_ars_merge [OF _ assms(4) wfR] assms(2) by (auto simp: Suc_le_eq)
  then show "rs_wf (L @ ars_merge (xs, xe) R)" using wfL by (simp add: wf_from_append)
  show "elems (L @ ars_merge (xs, xe) R) = elems (L @ R) \<union> {xs..<xe}"
    using elems_ars_merge [OF assms(4) wfR] by auto
qed

lemma rs_insert_ok:
  assumes "rs_wf m" "xs < xe"
  shows "rs_wf (fst (rs_insert m (xs, xe))) \<and> elems (fst (rs_insert m (xs, xe))) = elems m \<union> {xs..<xe} \<and>
    (snd (rs_insert m (xs, xe)) \<longleftrightarrow> \<not> {xs..<xe} \<subseteq> elems m)"
proof -
  obtain L R where m: "m = L @ R" "\<forall>p\<in>set L. fst p \<le> xs" "\<forall>p\<in>set R. xs < fst p"
    using bt_split [of m xs] assms(1) by auto
  have wfL: "wf_from 0 L" using assms(1) m(1) by (simp add: wf_from_append)
  have xsR: "xs \<notin> elems R" using elems_le_start [of 0 L R xs xs] assms m by auto
  have fresh: ?thesis if "\<forall>p\<in>set L. snd p < xs" "rs_insert m (xs, xe) =
      (let (m, e) = rs_insert_loop (L @ R) xs xe in (bt_insert xs e m, True))"
  proof -
    note fin = rs_insert_finish [OF _ that(1) m(3) assms(2)]
    have "xs \<notin> elems L" using that(1) by (force simp: elems_eq_UN)
    then have "\<not> {xs..<xe} \<subseteq> elems m" using xsR m(1) assms(2) by (auto simp: subset_iff)
    moreover have "rs_insert m (xs, xe) = (L @ ars_merge (xs, xe) R, True)"
      using that(2) fin(3) assms(1) m(1) by (simp add: case_prod_beta Let_def)
    ultimately show ?thesis using fin(1,2) assms(1) m(1) by simp
  qed
  show ?thesis
  proof (cases L rule: rev_cases)
    case Nil
    show ?thesis
      by (rule fresh) (use Nil m bt_pred_split [OF m(2,3)] assms(2) in \<open>simp_all add: rs_insert_def\<close>)
  next
    case (snoc I r)
    obtain ps pe where r: "r = (ps, pe)" by fastforce
    have mm: "m = I @ (ps, pe) # R" using m(1) snoc r by simp
    note sp = wf_from_split [of 0 I ps pe R, folded mm, OF assms(1)]
    have ps: "ps \<le> xs" using m(2) snoc r by simp
    have pred: "bt_pred m xs = Some (ps, pe)"
      using bt_pred_split [OF m(2,3)] m(1) snoc r by simp
    have rem: "bt_remove ps m = I @ R" using bt_remove_middle [of I ps pe R] assms(1) mm by simp
    consider "pe < xs" | "xs \<le> pe" "pe < xe" | "xe \<le> pe" by linarith
    then show ?thesis
    proof cases
      case 1
      then have "\<forall>p\<in>set L. snd p < xs" using sp(1) ps snoc r by force
      then show ?thesis by (rule fresh) (use 1 pred m(1) assms(2) in \<open>simp add: rs_insert_def\<close>)
    next
      case 2
      have wf: "rs_wf (I @ R)" using wf_from_drop_middle assms(1) mm by blast
      have gt: "\<forall>p\<in>set R. ps < fst p" using sp(2,4) by force
      note fin = rs_insert_finish [OF wf _ gt, of xe]
      have "pe \<notin> elems m"
      proof -
        have "pe \<notin> elems R" using wf_from_ge [OF sp(5), of pe] by auto
        moreover have "pe \<notin> elems I" using sp(1,4) by (force simp: elems_eq_UN)
        ultimately show ?thesis using mm by simp
      qed
      then have "\<not> {xs..<xe} \<subseteq> elems m" using 2 by (auto simp: subset_iff)
      moreover have "rs_insert m (xs, xe) = (I @ ars_merge (ps, xe) R, True)"
        using fin(3) 2 assms(2) pred rem ps sp(1)
        by (simp add: rs_insert_def case_prod_beta Let_def)
      moreover have "elems (I @ R) \<union> {ps..<xe} = elems m \<union> {xs..<xe}"
        using 2 ps sp(4) mm by auto
      ultimately show ?thesis using fin(1,2) sp(1) ps assms(2) by simp
    next
      case 3
      then have "{xs..<xe} \<subseteq> elems m" using ps mm by auto
      then show ?thesis using 3 pred assms by (auto simp: rs_insert_def)
    qed
  qed
qed

text \<open>What removing \<open>..xe\<close> leaves of the ranges that start after the removed range does.\<close>

fun rs_trim :: "nat \<Rightarrow> range list \<Rightarrow> range list" where
  "rs_trim xe [] = []"
| "rs_trim xe ((a, b) # rs) =
     (if a \<ge> xe then (a, b) # rs else if b > xe then (xe, b) # rs else rs_trim xe rs)"

lemma wf_rs_trim: "wf_from lo rs \<Longrightarrow> wf_from lo (rs_trim xe rs)"
  by (induction lo rs rule: wf_from.induct) (auto intro: wf_from_mono)

lemma elems_rs_trim: "wf_from lo rs \<Longrightarrow> elems (rs_trim xe rs) = elems rs - {..<xe}"
proof (induction lo rs rule: wf_from.induct)
  case (2 lo s e rs)
  have keep: "elems rs - {..<xe} = elems rs" if "xe \<le> Suc e"
    using that 2(2) wf_from_ge [of "Suc e" rs] by force
  consider "xe \<le> s" | "s < xe" "xe < e" | "s < xe" "e \<le> xe" by linarith
  then show ?case
  proof cases
    case 1
    then have "{s..<e} - {..<xe} = {s..<e}" by auto
    with 1 keep 2(2) show ?thesis by (simp add: Un_Diff)
  next
    case a: 2
    then have "{s..<e} - {..<xe} = {xe..<e}" by auto
    with a keep show ?thesis by (simp add: Un_Diff)
  next
    case 3
    then have "{s..<e} - {..<xe} = {}" by auto
    with 3 2 show ?thesis by (simp add: Un_Diff) blast
  qed
qed simp

lemma rs_remove_loop_trim:
  assumes "\<forall>p\<in>set L. fst p \<le> xs" "wf_from (Suc xs) R" "bt_ok (L @ R)" "xs < xe"
  shows "rs_remove_loop (L @ R) xs xe after = (L @ rs_trim xe R, after \<or> elems R \<inter> {xs..<xe} \<noteq> {})"
  using assms
proof (induction R arbitrary: after)
  case Nil
  then have "bt_succ (L @ []) xs = None" using bt_succ_split [of L xs "[]"] by fastforce
  then show ?case by (simp add: rs_remove_loop.simps [of L])
next
  case (Cons r R)
  obtain a b where r: "r = (a, b)" by fastforce
  have gt: "\<forall>p\<in>set (r # R). xs < fst p"
    using wf_from_keys [OF Cons.prems(2)] by (auto simp: Suc_le_eq)
  have w: "xs < a" "a < b" "wf_from (Suc b) R" using Cons.prems(2) r by auto
  have succ: "bt_succ (L @ (a, b) # R) xs = Some (a, b)"
    using bt_succ_split [OF Cons.prems(1) gt] r by simp
  have rem: "bt_remove a (L @ (a, b) # R) = L @ R"
    using bt_remove_middle [of L a b R] Cons.prems(3) r by simp
  have wf: "wf_from (Suc xs) R" using w by (auto intro: wf_from_mono)
  have ok: "bt_ok (L @ R)" using Cons.prems(3) bt_remove_ok rem r by metis
  have beyond: "elems R \<inter> {xs..<xe} = {}" if "xe \<le> b"
    using wf_from_ge [OF w(3)] that by force
  consider "xe \<le> a" | "a < xe" "xe < b" | "a < xe" "b \<le> xe" by linarith
  then show ?case
  proof cases
    case 1
    then have "elems (r # R) \<inter> {xs..<xe} = {}" using beyond w by (auto simp: r)
    with 1 show ?thesis by (simp add: r rs_remove_loop.simps [of "L @ (a, b) # R"] succ)
  next
    case 2
    have "\<forall>p\<in>set L. fst p < xe" "\<forall>p\<in>set R. xe < fst p"
      using Cons.prems(1,4) wf_from_keys [OF w(3)] 2 by fastforce+
    then have "bt_insert xe b (L @ R) = L @ (xe, b) # R" by (rule bt_insert_middle)
    moreover have "a \<in> elems (r # R) \<inter> {xs..<xe}" using 2 w r by auto
    then have "elems (r # R) \<inter> {xs..<xe} \<noteq> {}" by blast
    ultimately show ?thesis using 2
      by (simp add: r rs_remove_loop.simps [of "L @ (a, b) # R"] succ rem)
  next
    case 3
    have "a \<in> elems (r # R) \<inter> {xs..<xe}" using 3 w r by auto
    then have "elems (r # R) \<inter> {xs..<xe} \<noteq> {}" by blast
    then show ?thesis using 3 Cons.IH [OF Cons.prems(1) wf ok Cons.prems(4), of True]
      by (simp add: r rs_remove_loop.simps [of "L @ (a, b) # R"] succ rem)
  qed
qed

lemma rs_remove_tail:
  assumes "rs_wf (L @ R)" "\<forall>p\<in>set L. fst p \<le> xs \<and> snd p \<le> xs" "\<forall>p\<in>set R. xs < fst p" "xs < xe"
  shows "rs_remove_loop (L @ R) xs xe False = (L @ rs_trim xe R, elems (L @ R) \<inter> {xs..<xe} \<noteq> {})"
    "rs_wf (L @ rs_trim xe R)" "elems (L @ rs_trim xe R) = elems (L @ R) - {xs..<xe}"
proof -
  have wfR: "wf_from (Suc xs) R" using wf_from_suffix_gt assms(1,3) by blast
  have L: "elems L \<inter> {xs..<xe} = {}" using assms(2) by (force simp: elems_eq_UN)
  show "rs_remove_loop (L @ R) xs xe False = (L @ rs_trim xe R, elems (L @ R) \<inter> {xs..<xe} \<noteq> {})"
    using rs_remove_loop_trim [OF _ wfR _ assms(4), of L False] assms(1,2) L by auto
  show "rs_wf (L @ rs_trim xe R)" using assms(1) by (simp add: wf_from_append wf_rs_trim)
  have "elems R - {..<xe} = elems R - {xs..<xe}" using wf_from_ge [OF wfR] by force
  then show "elems (L @ rs_trim xe R) = elems (L @ R) - {xs..<xe}"
    using elems_rs_trim [OF wfR] L by auto
qed

lemma rs_remove_ok:
  assumes "rs_wf m" "xs < xe"
  shows "rs_wf (fst (rs_remove m (xs, xe))) \<and> elems (fst (rs_remove m (xs, xe))) = elems m - {xs..<xe} \<and>
    (snd (rs_remove m (xs, xe)) \<longleftrightarrow> elems m \<inter> {xs..<xe} \<noteq> {})"
proof -
  obtain L R where m: "m = L @ R" "\<forall>p\<in>set L. fst p \<le> xs" "\<forall>p\<in>set R. xs < fst p"
    using bt_split [of m xs] assms(1) by auto
  have clear: ?thesis if "\<forall>p\<in>set L. snd p \<le> xs" "rs_remove m (xs, xe) = rs_remove_loop m xs xe False"
    using rs_remove_tail [of L R xs xe] that m assms by simp
  show ?thesis
  proof (cases L rule: rev_cases)
    case Nil
    then show ?thesis using m bt_pred_split [OF m(2,3)] assms(2)
      by (intro clear) (auto simp: rs_remove_def)
  next
    case (snoc I r)
    obtain ps pe where r: "r = (ps, pe)" by fastforce
    have mm: "m = I @ (ps, pe) # R" using m(1) snoc r by simp
    note sp = wf_from_split [of 0 I ps pe R, folded mm, OF assms(1)]
    have ps: "ps \<le> xs" using m(2) snoc r by simp
    have pred: "bt_pred m xs = Some (ps, pe)"
      using bt_pred_split [OF m(2,3)] m(1) snoc r by simp
    have rem: "bt_remove ps m = I @ R" using bt_remove_middle [of I ps pe R] assms(1) mm by simp
    have wfIR: "rs_wf (I @ R)" using wf_from_drop_middle assms(1) mm by blast
    let ?I = "if ps < xs then I @ [(ps, xs)] else I"
    show ?thesis
    proof (cases "pe \<le> xs")
      case True
      then have "\<forall>p\<in>set L. snd p \<le> xs" using sp(1) ps snoc r by force
      then show ?thesis using True pred assms(2) by (intro clear) (auto simp: rs_remove_def)
    next
      case False
      have ins: "(if ps < xs then bt_insert ps xs (I @ R) else I @ R) = ?I @ R"
        using bt_insert_middle [of I ps R xs] sp(1,2,4) by fastforce
      have wfI: "rs_wf (?I @ R)"
        using assms(1) wfIR False by (auto simp: mm wf_from_append intro: wf_from_mono)
      have elI: "elems (?I @ R) = elems I \<union> {ps..<xs} \<union> elems R" using ps by auto
      have "xs \<in> elems m \<inter> {xs..<xe}" using False ps mm assms(2) by auto
      then have hit: "elems m \<inter> {xs..<xe} \<noteq> {}" by blast
      have lowI: "\<forall>p\<in>set ?I. fst p \<le> xs \<and> snd p \<le> xs"
        using sp(1) ps by (fastforce split: if_splits)
      show ?thesis
      proof (cases "xe < pe")
        case True
        have "bt_insert xe pe (?I @ R) = ?I @ (xe, pe) # R"
          using lowI sp(2) True assms(2) by (intro bt_insert_middle) force+
        then have out: "rs_remove m (xs, xe) = (?I @ (xe, pe) # R, True)"
          using False True pred rem ins assms(2) by (cases "ps < xs") (simp_all add: rs_remove_def Let_def)
        have "rs_wf (?I @ (xe, pe) # R)"
          using assms ps True sp(3,4,5) by (auto simp: mm wf_from_append)
        moreover have "elems (?I @ (xe, pe) # R) = elems m - {xs..<xe}"
        proof -
          have "elems I \<inter> {xs..<xe} = {}" "elems R \<inter> {xs..<xe} = {}"
            using sp(1) ps wf_from_ge [OF sp(5)] True by (force simp: elems_eq_UN)+
          moreover have "{ps..<pe} - {xs..<xe} = {ps..<xs} \<union> {xe..<pe}" using ps True False assms(2) by auto
          moreover have "elems (?I @ (xe, pe) # R) = elems I \<union> {ps..<xs} \<union> ({xe..<pe} \<union> elems R)"
            using ps by auto
          ultimately show ?thesis by (simp add: mm Un_Diff Diff_triv Un_ac)
        qed
        ultimately show ?thesis using out hit by simp
      next
        case not_beyond: False
        note tl = rs_remove_tail [OF wfI lowI _ assms(2)]
        have "{ps..<pe} - {xs..<xe} = {ps..<xs} - {xs..<xe}" using ps False not_beyond by auto
        then have "elems (?I @ R) - {xs..<xe} = elems m - {xs..<xe}"
          unfolding elI mm by (simp add: Un_Diff Un_ac)
        moreover have "rs_remove m (xs, xe) =
          (if pe = xe then (?I @ R, True) else (?I @ rs_trim xe R, True))"
          using False not_beyond pred rem ins tl(1) m(3) assms(2)
          by (cases "ps < xs") (auto simp: rs_remove_def Let_def)
        moreover have "elems (?I @ R) \<inter> {xs..<xe} = {}" if "pe = xe"
          using that sp(1) ps wf_from_ge [OF sp(5)] unfolding elI by (force simp: elems_eq_UN)
        ultimately show ?thesis using tl(2,3) wfI m(3) hit by (auto simp: Diff_triv)
      qed
    qed
  qed
qed

section \<open>The contract holds\<close>

lemma rs_insert_empty: "xe \<le> xs \<Longrightarrow> rs_insert m (xs, xe) = (m, False)"
  by (simp add: rs_insert_def)

lemma rs_remove_empty: "xe \<le> xs \<Longrightarrow> rs_remove m (xs, xe) = (m, False)"
  by (simp add: rs_remove_def)

lemma rs_pop_min_eq: "rs_wf m \<Longrightarrow> rs_pop_min m = ars_pop_min m"
proof (cases m rule: elems.cases)
  case (2 a b rs)
  assume "rs_wf m"
  then have "bt_ok m" by simp
  then have "bt_remove a m = rs" using bt_remove_middle [of "[]" a b rs] 2 by simp
  then show ?thesis by (simp add: 2 rs_pop_min_def rs_peek_min_def ars_pop_min_def)
qed (simp add: rs_pop_min_def rs_peek_min_def ars_pop_min_def)

interpretation rs: range_set "[] :: range_set" rs_contains rs_insert rs_remove rs_pop_min rs_min
  rs_is_empty elems rs_wf
proof unfold_locales
  fix m :: range_set and r :: range and x
  assume wf: "rs_wf m"
  obtain a b where r: "r = (a, b)" by fastforce
  show "rs_contains m x \<longleftrightarrow> x \<in> elems m" using wf by (rule rs_contains_iff)
  show "rs_wf (fst (rs_insert m r))" "elems (fst (rs_insert m r)) = elems m \<union> {fst r..<snd r}"
    "snd (rs_insert m r) \<longleftrightarrow> \<not> {fst r..<snd r} \<subseteq> elems m"
    using rs_insert_ok [OF wf, of a b] wf rs_insert_empty [of b a m]
    by (cases "a < b"; simp add: r)+
  show "rs_wf (fst (rs_remove m r))" "elems (fst (rs_remove m r)) = elems m - {fst r..<snd r}"
    "snd (rs_remove m r) \<longleftrightarrow> elems m \<inter> {fst r..<snd r} \<noteq> {}"
    using rs_remove_ok [OF wf, of a b] wf rs_remove_empty [of b a m]
    by (cases "a < b"; simp add: r)+
  show "rs_is_empty m \<longleftrightarrow> elems m = {}"
    using ars.is_empty_iff [OF wf] by (simp add: ars_is_empty_def rs_is_empty_def)
  show "rs_min m = (if elems m = {} then None else Some (Min (elems m)))"
    using ars.min_eq [OF wf] by (simp add: ars_min_def rs_min_def)
  show "rs_pop_min m = (m, None)" if "elems m = {}"
    using ars.pop_min_None [OF wf that] rs_pop_min_eq [OF wf] by simp
  show "\<exists>a b. snd (rs_pop_min m) = Some (a, b) \<and> rs_wf (fst (rs_pop_min m)) \<and> a < b \<and>
      elems m = {a..<b} \<union> elems (fst (rs_pop_min m)) \<and> (\<forall>y\<in>elems (fst (rs_pop_min m)). b < y)"
    if "elems m \<noteq> {}"
    using ars.pop_min_Some [OF wf that] rs_pop_min_eq [OF wf] by simp
qed simp_all

text \<open>Both implementations hold the same list of ranges after the same operation.\<close>

lemma rs_insert_eq_ars: "rs_wf m \<Longrightarrow> rs_insert m r = ars_insert m r"
  using wf_from_unique [of 0 "fst (rs_insert m r)" "fst (ars_insert m r)"]
    rs.invar_insert rs.set_insert rs.insert_result ars.invar_insert ars.set_insert ars.insert_result
  by (intro prod_eqI) auto

lemma rs_remove_eq_ars: "rs_wf m \<Longrightarrow> rs_remove m r = ars_remove m r"
  using wf_from_unique [of 0 "fst (rs_remove m r)" "fst (ars_remove m r)"]
    rs.invar_remove rs.set_remove rs.remove_result ars.invar_remove ars.set_remove ars.remove_result
  by (intro prod_eqI) auto

section \<open>\<open>insert_one\<close> and \<open>replace\<close>\<close>

lemma rs_join_next_merge:
  assumes "\<forall>p\<in>set L. fst p < s" "s \<le> x" "wf_from (Suc x) R" "bt_ok (L @ R)" "x < u64_max"
  shows "(let (m, e) = rs_join_next (L @ R) x in bt_insert s e m) = L @ ars_merge (s, Suc x) R"
proof -
  have add: "add64 x (Suc 0) = Suc x" using assms(5) by (subst add64_small) (auto simp: u64_max_def)
  have le: "\<forall>p\<in>set L. fst p \<le> x" and gt: "\<forall>p\<in>set R. x < fst p"
    using assms(1,2) wf_from_keys [OF assms(3)] by (auto simp: Suc_le_eq dest: order_less_le_trans)
  note succ = bt_succ_split [OF le gt]
  have ins: "bt_insert s e (L @ R') = L @ (s, e) # R'" if "set R' \<subseteq> set R" for e R'
    using bt_insert_middle [OF assms(1), of R' e] gt that assms(2) by fastforce
  show ?thesis
  proof (cases R rule: elems.cases)
    case 1
    then show ?thesis using succ ins [of "[]"] by (simp add: rs_join_next_def add)
  next
    case (2 a b R')
    have w: "Suc x \<le> a" "a < b" "wf_from (Suc b) R'" using assms(3) 2 by auto
    have rem: "bt_remove a (L @ (a, b) # R') = L @ R'"
      using bt_remove_middle [of L a b R'] assms(4) 2 by simp
    show ?thesis
    proof (cases "a = Suc x")
      case True
      have "ars_merge (s, b) R' = (s, b) # R'" using w(3) by (cases R' rule: elems.cases) auto
      moreover have "max b (Suc x) = b" using w by simp
      ultimately show ?thesis
        using succ ins [of R'] rem True 2 by (auto simp: rs_join_next_def add)
    next
      case False
      then show ?thesis using succ ins [of R] w 2 by (simp add: rs_join_next_def add)
    qed
  qed
qed

lemma rs_insert_one_eq:
  assumes "rs_wf m" "x < u64_max"
  shows "rs_insert_one m x = rs_insert m (x, Suc x)"
proof -
  obtain L R where m: "m = L @ R" "\<forall>p\<in>set L. fst p \<le> x" "\<forall>p\<in>set R. x < fst p"
    using bt_split [of m x] assms(1) by auto
  have wfR: "wf_from (Suc x) R" using wf_from_suffix_gt assms(1) m by blast
  have same: "(let (m, e) = rs_join_next (L' @ R) x in (bt_insert s e m, True)) =
      (let (m, e) = rs_insert_loop (L' @ R) s (Suc x) in (bt_insert s e m, True))"
    if "\<forall>p\<in>set L'. fst p < s" "s \<le> x" "bt_ok (L' @ R)" for L' s
    using rs_join_next_merge [OF that(1,2) wfR that(3) assms(2)]
      rs_insert_loop_merge [OF that(1) wf_from_mono [OF wfR] that(3), of "Suc x"] that(2)
    by (simp add: case_prod_beta Let_def)
  show ?thesis
  proof (cases L rule: rev_cases)
    case Nil
    then show ?thesis using same [of "[]" x] bt_pred_split [OF m(2,3)] m(1) assms(1)
      by (simp add: rs_insert_one_def rs_insert_def)
  next
    case (snoc I r)
    obtain ps pe where r: "r = (ps, pe)" by fastforce
    have mm: "m = I @ (ps, pe) # R" using m(1) snoc r by simp
    note sp = wf_from_split [of 0 I ps pe R, folded mm, OF assms(1)]
    have pred: "bt_pred m x = Some (ps, pe)"
      using bt_pred_split [OF m(2,3)] m(1) snoc r by simp
    have rem: "bt_remove ps m = I @ R" using bt_remove_middle [of I ps pe R] assms(1) mm by simp
    have wfI: "bt_ok (I @ R)" using wf_from_drop_middle [of 0 I "(ps, pe)" R] assms(1) mm by auto
    have ps: "ps \<le> x" using m(2) snoc r by simp
    have "\<forall>p\<in>set L. fst p < x" if "pe < x" using that sp(1,4) snoc r by force
    then show ?thesis
      using same [of I ps] same [of L x] sp(1,4) ps wfI assms(1) m(1) pred rem
      by (auto simp: rs_insert_one_def rs_insert_def Let_def)
  qed
qed

text \<open>The overlaps with the ranges that start after the new range does.\<close>

fun rs_overlaps :: "nat \<Rightarrow> range list \<Rightarrow> range list" where
  "rs_overlaps e [] = []"
| "rs_overlaps e ((a, b) # rs) = (if a \<ge> e then [] else (a, min e b) # (if b > e then [] else rs_overlaps e rs))"

lemma elems_rs_overlaps: "wf_from lo rs \<Longrightarrow> elems (rs_overlaps e rs) = elems rs \<inter> {..<e}"
proof (induction lo rs rule: wf_from.induct)
  case (2 lo a b rs)
  have beyond: "elems rs \<inter> {..<e} = {}" if "e \<le> Suc b"
    using that 2(2) wf_from_ge [of "Suc b" rs] by force
  have "{a..<b} \<inter> {..<e} = {a..<min e b}" by auto
  then show ?case
    using 2 beyond by (auto simp: Int_Un_distrib2)
qed simp

lemma replace_drain_split:
  assumes "\<forall>p\<in>set L. fst p < s" "wf_from (Suc s) R" "bt_ok (L @ R)"
  shows "\<exists>m e'. replace_drain (L @ R, None, (s, e)) = ((m, None, (s, e')), rs_overlaps e R) \<and>
    bt_insert s e' m = L @ ars_merge (s, e) R"
  using assms
proof (induction R arbitrary: e)
  case Nil
  then have "bt_succ L s = None" using bt_succ_split [of L s "[]"] by fastforce
  then show ?case using Nil(1) bt_insert_middle [of L s "[]"]
    by (subst replace_drain.simps) (simp add: replace_next_def)
next
  case (Cons r R)
  obtain a b where r: "r = (a, b)" by fastforce
  have le: "\<forall>p\<in>set L. fst p \<le> s" and gt: "\<forall>p\<in>set (r # R). s < fst p"
    using Cons.prems(1) wf_from_keys [OF Cons.prems(2)] by (auto simp: Suc_le_eq)
  have w: "s < a" "a < b" "wf_from (Suc b) R" using Cons.prems(2) r by auto
  have succ: "bt_succ (L @ (a, b) # R) s = Some (a, b)" using bt_succ_split [OF le gt] r by simp
  have rem: "bt_remove a (L @ (a, b) # R) = L @ R"
    using bt_remove_middle [of L a b R] Cons.prems(3) r by simp
  have wf: "wf_from (Suc s) R" using w by (auto intro: wf_from_mono)
  have ok: "bt_ok (L @ R)" using Cons.prems(3) bt_remove_ok rem r by metis
  have stop: "ars_merge (s, b) R = (s, b) # R" "rs_overlaps b R = []"
    using w(3) by (cases R rule: elems.cases; simp)+
  have ins: "bt_insert s v (L @ R') = L @ (s, v) # R'" if "set R' \<subseteq> set (r # R)" for v R'
    using that gt by (intro bt_insert_middle [OF Cons.prems(1)]) auto
  consider "a > e" | "a = e" | "a < e" by linarith
  then show ?case
  proof cases
    case 1
    then show ?thesis using ins [of "r # R"] succ
      by (subst replace_drain.simps) (simp add: replace_next_def r)
  next
    case 2
    then have m: "min e b = e" "max e b = b" "max b e = b" using w by auto
    then show ?thesis using 2 ins [of R] succ rem stop
      by (subst replace_drain.simps) (auto simp: replace_next_def r)
  next
    case 3
    then have ne: "a \<noteq> min e b" using w by auto
    obtain m e' where IH: "replace_drain (L @ R, None, (s, max e b)) = ((m, None, (s, e')), rs_overlaps (max e b) R)"
      "bt_insert s e' m = L @ ars_merge (s, max e b) R"
      using Cons.IH [OF Cons.prems(1) wf ok, of "max e b"] by auto
    have "rs_overlaps (max e b) R = (if b > e then [] else rs_overlaps e R)"
      using stop(2) by (auto simp: max_def)
    moreover have "replace_drain (L @ r # R, None, (s, e)) =
        ((m, None, (s, e')), (a, min e b) # rs_overlaps (max e b) R)"
      using 3 ne succ rem IH(1)
      by (subst replace_drain.simps) (simp add: replace_next_def r)
    ultimately show ?thesis using 3 IH(2) by (auto simp: r max.commute)
  qed
qed

lemma rs_replace_ok:
  assumes "rs_wf m" "s < e"
  shows "replace_drop (rs_replace m (s, e)) = fst (rs_insert m (s, e)) \<and>
    elems (snd (replace_drain (rs_replace m (s, e)))) = elems m \<inter> {s..<e}"
proof -
  obtain L R where m: "m = L @ R" "\<forall>p\<in>set L. fst p \<le> s" "\<forall>p\<in>set R. s < fst p"
    using bt_split [of m s] assms(1) by auto
  have wfR: "wf_from (Suc s) R" using wf_from_suffix_gt assms(1) m by blast
  have ovR: "elems (rs_overlaps e R) = elems R \<inter> {s..<e}"
    using elems_rs_overlaps [OF wfR, of e] wf_from_ge [OF wfR] by force
  have plain: ?thesis if "\<forall>p\<in>set L. snd p < s" "rs_replace m (s, e) = (m, None, (s, e))"
      "fst (rs_insert m (s, e)) = L @ ars_merge (s, e) R"
  proof -
    have "\<forall>p\<in>set L. fst p < s"
      using that(1) wf_from_split(4) assms(1) m(1) by (metis split_list_first append_Cons append_assoc
        prod.collapse order_less_trans)
    then obtain m' e' where "replace_drain (L @ R, None, (s, e)) = ((m', None, (s, e')), rs_overlaps e R)"
      "bt_insert s e' m' = L @ ars_merge (s, e) R"
      using replace_drain_split [OF _ wfR] assms(1) m(1) by fastforce
    moreover have "elems L \<inter> {s..<e} = {}" using that(1) by (force simp: elems_eq_UN)
    ultimately show ?thesis using that ovR m(1) by (auto simp: replace_drop_def Int_Un_distrib2)
  qed
  show ?thesis
  proof (cases L rule: rev_cases)
    case Nil
    then show ?thesis
      using m bt_pred_split [OF m(2,3)] assms rs_insert_finish(3) [of "[]" R s e]
      by (intro plain) (simp_all add: rs_replace_def rs_insert_def case_prod_beta Let_def)
  next
    case (snoc I r)
    obtain ps pe where r: "r = (ps, pe)" by fastforce
    have mm: "m = I @ (ps, pe) # R" using m(1) snoc r by simp
    note sp = wf_from_split [of 0 I ps pe R, folded mm, OF assms(1)]
    have pred: "bt_pred m s = Some (ps, pe)"
      using bt_pred_split [OF m(2,3)] m(1) snoc r by simp
    have rem: "bt_remove ps m = I @ R" using bt_remove_middle [of I ps pe R] assms(1) mm by simp
    have ps: "ps \<le> s" using m(2) snoc r by simp
    show ?thesis
    proof (cases "pe < s")
      case True
      then have below: "\<forall>p\<in>set L. snd p < s" using sp(1,4) snoc r by force
      show ?thesis
        using below True pred m(1) assms rs_insert_finish(3) [OF _ below m(3) assms(2)]
        by (intro plain) (simp_all add: rs_replace_def rs_insert_def case_prod_beta Let_def)
    next
      case False
      have wfI: "rs_wf (I @ R)" using wf_from_drop_middle assms(1) mm by blast
      have gt: "wf_from (Suc ps) R" using wf_from_mono [OF sp(5)] sp(4) by simp
      obtain m' e' where dr: "replace_drain (I @ R, None, (ps, max e pe)) = ((m', None, (ps, e')), rs_overlaps (max e pe) R)"
        "bt_insert ps e' m' = I @ ars_merge (ps, max e pe) R"
        using replace_drain_split [OF _ gt, of I "max e pe"] sp(1) wfI by auto
      define p where "p = (if s \<noteq> min e pe then Some (s, min e pe) else None)"
      have start: "rs_replace m (s, e) = (I @ R, p, (ps, max e pe))"
        using pred False rem ps by (simp add: rs_replace_def p_def min_def)
      have drain: "replace_drain (I @ R, p, (ps, max e pe)) = ((m', None, (ps, e')),
          (case p of None \<Rightarrow> [] | Some q \<Rightarrow> [q]) @ rs_overlaps (max e pe) R)"
        using dr(1) replace_drain.simps [of "(I @ R, p, (ps, max e pe))"]
        by (cases p) (simp_all add: replace_next_def)
      have "I @ ars_merge (ps, max e pe) R = fst (rs_insert m (s, e))"
      proof (cases "pe \<ge> e")
        case True
        then have "ars_merge (ps, max e pe) R = (ps, pe) # R"
          using sp(5) by (cases R rule: elems.cases) (auto simp: max_def)
        then show ?thesis using True pred assms(2) mm by (simp add: rs_insert_def)
      next
        case gap: False
        have "\<forall>q\<in>set R. ps < fst q" "\<forall>q\<in>set I. snd q < ps" using sp(1,2,4) by force+
        then have "(let (m, e) = rs_insert_loop (I @ R) ps e in bt_insert ps e m) = I @ ars_merge (ps, e) R"
          using rs_insert_finish(3) [OF wfI] ps assms(2) by simp
        then show ?thesis using gap False pred rem assms(2)
          by (simp add: rs_insert_def max_def case_prod_beta Let_def)
      qed
      moreover have "elems (snd (replace_drain (rs_replace m (s, e)))) = elems m \<inter> {s..<e}"
      proof -
        have "elems (rs_overlaps (max e pe) R) = elems R \<inter> {s..<e}"
        proof (cases "pe \<ge> e")
          case True
          then have "elems R \<inter> {s..<e} = {}" using wf_from_ge [OF sp(5)] by force
          moreover have "elems R \<inter> {..<pe} = {}" using wf_from_ge [OF sp(5)] by force
          ultimately show ?thesis using True elems_rs_overlaps [OF sp(5), of pe] by (simp add: max_def)
        qed (use ovR in \<open>simp add: max_def\<close>)
        moreover have "elems I \<inter> {s..<e} = {}" using sp(1) ps by (force simp: elems_eq_UN)
        moreover have "{ps..<pe} \<inter> {s..<e} = {s..<min e pe}" using ps by auto
        moreover have "elems (case p of None \<Rightarrow> [] | Some q \<Rightarrow> [q]) = {s..<min e pe}"
          using False assms(2) by (auto simp: p_def)
        ultimately show ?thesis unfolding start drain by (simp add: mm Int_Un_distrib2)
      qed
      ultimately show ?thesis using dr(2) by (simp add: replace_drop_def start drain)
    qed
  qed
qed

section \<open>Properties\<close>

text \<open>
  C20. The B-tree range set implements a set of numbers: over any sequence of insertions,
  removals and membership tests from the empty set it holds exactly the numbers of the abstract
  set and gives the same answers.
\<close>

theorem btree_range_set_refines:
  "(elems (fst (run_ops rs_contains rs_insert rs_remove [] xs)), snd (run_ops rs_contains rs_insert rs_remove [] xs))
     = abs_ops {} xs"
  using rs.run_ops_refine [OF rs.invar_empty, of xs] by (simp add: rs.set_empty)

text \<open>
  C21. The two range sets are interchangeable: the array with its scans and the B-tree with its
  neighbour lookups give the same answers to every sequence of operations and end up with the
  same list of ranges.
\<close>

theorem range_sets_equivalent:
  "run_ops ars_contains ars_insert ars_remove [] xs = run_ops rs_contains rs_insert rs_remove [] xs"
proof -
  let ?a = "run_ops ars_contains ars_insert ars_remove [] xs" and ?b = "run_ops rs_contains rs_insert rs_remove [] xs"
  note a = ars.run_ops_refine [OF ars.invar_empty, of xs] and b = rs.run_ops_refine [OF rs.invar_empty, of xs]
  have "elems (fst ?a) = elems (fst ?b)" "snd ?a = snd ?b" using a b by (simp_all add: ars.set_empty rs.set_empty prod_eq_iff)
  moreover have "fst ?a = fst ?b" using wf_from_unique a b calculation(1) by blast
  ultimately show ?thesis by (simp add: prod_eq_iff)
qed

text \<open>
  \<open>replace\<close> adds the range and, iterated to its end, yields exactly the parts of it that
  were present before.
\<close>

lemma replace_yields_overlap:
  assumes "rs_wf m" "s < e"
  shows "elems (replace_drop (rs_replace m (s, e))) = elems m \<union> {s..<e} \<and> rs_wf (replace_drop (rs_replace m (s, e))) \<and>
    elems (snd (replace_drain (rs_replace m (s, e)))) = elems m \<inter> {s..<e}"
  using rs_replace_ok [OF assms] rs.set_insert [OF assms(1)] rs.invar_insert [OF assms(1)] by simp

end
