(* ===== verification/Range_Iter.thy ===== *)
theory Range_Iter
  imports Btree_Range_Set
begin

text \<open>
  The iterators of \<open>RangeSet\<close> (\<open>proto/src/range_set/btree_range_set.rs\<close>): \<open>Iter\<close> over the
  ranges and \<open>EltIter\<close> over the numbers, both from either end.  A \<open>btree_map::Iter\<close> is the
  list of the entries it has not yielded yet, in ascending order of their keys.
\<close>

section \<open>The iterators\<close>

type_synonym map_iter = "range list"

definition map_iter_next :: "map_iter \<Rightarrow> map_iter \<times> range option" where
  "map_iter_next it = (case it of [] \<Rightarrow> (it, None) | kv # rest \<Rightarrow> (rest, Some kv))"

definition map_iter_next_back :: "map_iter \<Rightarrow> map_iter \<times> range option" where
  "map_iter_next_back it = (if it = [] then (it, None) else (butlast it, Some (last it)))"

definition rs_iter :: "range_set \<Rightarrow> map_iter" where
  "rs_iter m = m"

definition iter_next :: "map_iter \<Rightarrow> map_iter \<times> range option" where
  "iter_next it =
     (case map_iter_next it of
        (it, None) \<Rightarrow> (it, None)
      | (it, Some (start, e)) \<Rightarrow> (it, Some (start, e)))"

definition iter_next_back :: "map_iter \<Rightarrow> map_iter \<times> range option" where
  "iter_next_back it =
     (case map_iter_next_back it of
        (it, None) \<Rightarrow> (it, None)
      | (it, Some (start, e)) \<Rightarrow> (it, Some (start, e)))"

definition rs_into_iter :: "range_set \<Rightarrow> map_iter" where
  "rs_into_iter m = rs_iter m"

record elt_iter =
  ei_inner :: map_iter
  ei_next :: nat
  ei_end :: nat

definition rs_elts :: "range_set \<Rightarrow> elt_iter" where
  "rs_elts m = \<lparr>ei_inner = m, ei_next = 0, ei_end = 0\<rparr>"

text \<open>The range being consumed is replaced by the next one of the map when it is used up.\<close>

definition elt_next :: "elt_iter \<Rightarrow> elt_iter \<times> nat option" where
  "elt_next it =
     (let yield = (\<lambda>it. (it\<lparr>ei_next := add64 (ei_next it) 1\<rparr>, Some (ei_next it))) in
      if ei_next it = ei_end it then
        (case map_iter_next (ei_inner it) of
           (inner, None) \<Rightarrow> (it\<lparr>ei_inner := inner\<rparr>, None)
         | (inner, Some (start, e)) \<Rightarrow> yield \<lparr>ei_inner = inner, ei_next = start, ei_end = e\<rparr>)
      else yield it)"

definition elt_next_back :: "elt_iter \<Rightarrow> elt_iter \<times> nat option" where
  "elt_next_back it =
     (let yield = (\<lambda>it. let e = sub64 (ei_end it) 1 in (it\<lparr>ei_end := e\<rparr>, Some e)) in
      if ei_next it = ei_end it then
        (case map_iter_next_back (ei_inner it) of
           (inner, None) \<Rightarrow> (it\<lparr>ei_inner := inner\<rparr>, None)
         | (inner, Some (start, e)) \<Rightarrow> yield \<lparr>ei_inner = inner, ei_next = start, ei_end = e\<rparr>)
      else yield it)"

text \<open>A client draws from the front (\<open>True\<close>) or the back (\<open>False\<close>) in any order.\<close>

fun elt_draw :: "bool list \<Rightarrow> elt_iter \<Rightarrow> elt_iter \<times> nat list" where
  "elt_draw [] it = (it, [])"
| "elt_draw (front # calls) it =
     (let (it, x) = (if front then elt_next it else elt_next_back it);
          (it, ys) = elt_draw calls it
      in (it, case x of None \<Rightarrow> ys | Some x \<Rightarrow> x # ys))"

section \<open>What the iterators yield\<close>

text \<open>The numbers an iterator has still to yield, and the shape of its state.\<close>

definition elt_left :: "elt_iter \<Rightarrow> nat set" where
  "elt_left it = {ei_next it..<ei_end it} \<union> elems (ei_inner it)"

definition in_u64 :: "range list \<Rightarrow> bool" where
  "in_u64 rs \<longleftrightarrow> (\<forall>r\<in>set rs. snd r < 2 ^ 64)"

definition elt_ok :: "elt_iter \<Rightarrow> bool" where
  "elt_ok it \<longleftrightarrow> rs_wf (ei_inner it) \<and> in_u64 (ei_inner it) \<and> ei_next it \<le> ei_end it \<and>
     ei_end it < 2 ^ 64 \<and> (\<forall>x. ei_next it \<le> x \<longrightarrow> x < ei_end it \<longrightarrow> x \<notin> elems (ei_inner it))"

text \<open>The range being consumed lies before or behind all the others.\<close>

definition elt_before :: "elt_iter \<Rightarrow> bool" where
  "elt_before it \<longleftrightarrow> (\<forall>x y. ei_next it \<le> x \<longrightarrow> x < ei_end it \<longrightarrow> y \<in> elems (ei_inner it) \<longrightarrow> x < y)"

definition elt_behind :: "elt_iter \<Rightarrow> bool" where
  "elt_behind it \<longleftrightarrow> (\<forall>x y. ei_next it \<le> x \<longrightarrow> x < ei_end it \<longrightarrow> y \<in> elems (ei_inner it) \<longrightarrow> y < x)"

lemma wf_from_butlast: "wf_from lo (m @ [r]) \<Longrightarrow> wf_from lo m"
  by (induction m arbitrary: lo) auto

lemma wf_from_last:
  "wf_from lo (m @ [(s, e)]) \<Longrightarrow> s < e \<and> (\<forall>x\<in>elems m. x < s)"
proof (induction m arbitrary: lo)
  case (Cons p m)
  obtain a b where p: "p = (a, b)" by (cases p)
  from Cons.prems have w: "wf_from (Suc b) (m @ [(s, e)])" by (simp add: p)
  from w have "wf_from (Suc b) [(s, e)] \<or> m \<noteq> []" by (cases m) auto
  moreover have "Suc b \<le> s" using wf_from_keys [OF w] by simp
  ultimately show ?case using Cons.IH [OF w] by (auto simp: p)
qed simp

text \<open>
  One call yields a number that is left and takes it out; on the side the order is kept at, it is
  the least or the greatest.
\<close>

lemma elt_next_step:
  assumes "elt_ok it" "elt_next it = (it', r)"
  shows "case r of None \<Rightarrow> elt_left it = {} \<and> it' = it
    | Some x \<Rightarrow> elt_ok it' \<and> x \<in> elt_left it \<and> elt_left it' = elt_left it - {x} \<and>
        (elt_before it \<longrightarrow>
           (\<forall>y\<in>elt_left it. x \<le> y) \<and>
           elt_before it')"
proof (cases "ei_next it = ei_end it")
  case False
  then have lt: "ei_next it < ei_end it" using assms(1) by (simp add: elt_ok_def)
  then have "add64 (ei_next it) 1 = ei_next it + 1"
    using assms(1) by (intro add64_small) (simp add: elt_ok_def)
  then have r: "r = Some (ei_next it)" "it' = it\<lparr>ei_next := Suc (ei_next it)\<rparr>"
    using False assms(2) by (simp_all add: elt_next_def)
  have "elt_ok it'" using assms(1) lt by (simp add: r elt_ok_def)
  moreover have "elt_left it' = elt_left it - {ei_next it}"
    using assms(1) lt by (auto simp: r elt_left_def elt_ok_def)
  moreover have "ei_next it \<le> y" if "elt_before it" "y \<in> elt_left it" for y
    using that lt by (auto simp: elt_left_def elt_before_def intro: less_imp_le)
  moreover have "elt_before it'" if "elt_before it" using that by (simp add: elt_before_def r)
  moreover have "ei_next it \<in> elt_left it" using lt by (simp add: elt_left_def)
  ultimately show ?thesis by (simp add: r(1))
next
  case True
  show ?thesis
  proof (cases "ei_inner it" rule: elems.cases)
    case 1
    with True assms show ?thesis by (auto simp: elt_next_def map_iter_next_def elt_left_def)
  next
    case (2 s e rs)
    from assms(1) have w: "s < e" "wf_from (Suc e) rs" "in_u64 rs" "e < 2 ^ 64"
      by (simp_all add: elt_ok_def 2 in_u64_def)
    then have a: "add64 s 1 = s + 1" by (intro add64_small) simp
    have gt: "x < e \<Longrightarrow> y \<in> elems rs \<Longrightarrow> x < y" for x y using wf_from_ge [OF w(2), of y] by simp
    then have new: "x < e \<Longrightarrow> x \<in> elems rs \<Longrightarrow> False" for x by blast
    have "r = Some s" "it' = \<lparr>ei_inner = rs, ei_next = Suc s, ei_end = e\<rparr>"
      "elt_left it = {s..<e} \<union> elems rs"
      using True assms(2) a by (auto simp: elt_next_def map_iter_next_def elt_left_def 2)
    moreover have "elt_ok \<lparr>ei_inner = rs, ei_next = Suc s, ei_end = e\<rparr>"
      using w wf_from_mono [OF w(2), of 0] new by (auto simp: elt_ok_def)
    moreover have "{Suc s..<e} \<union> elems rs = {s..<e} \<union> elems rs - {s}" using new w(1) by auto
    moreover have "s \<le> y" if "y \<in> elems rs" for y using that gt [OF w(1)] by (simp add: less_imp_le)
    ultimately show ?thesis using w(1) gt by (auto simp: elt_left_def elt_before_def)
  qed
qed

lemma elt_next_back_step:
  assumes "elt_ok it" "elt_next_back it = (it', r)"
  shows "case r of None \<Rightarrow> elt_left it = {} \<and> it' = it
    | Some x \<Rightarrow> elt_ok it' \<and> x \<in> elt_left it \<and> elt_left it' = elt_left it - {x} \<and>
        (elt_behind it \<longrightarrow>
           (\<forall>y\<in>elt_left it. y \<le> x) \<and>
           elt_behind it')"
proof (cases "ei_next it = ei_end it")
  case False
  with assms(1) obtain e where e: "ei_end it = Suc e" by (cases "ei_end it") (auto simp: elt_ok_def)
  have "sub64 (Suc e) 1 = e" using assms(1) e by (subst sub64_small) (auto simp: elt_ok_def)
  moreover have "ei_next it \<le> e" using False assms(1) e by (simp add: elt_ok_def)
  moreover have "e \<notin> elems (ei_inner it)" using assms(1) e calculation(2) by (simp add: elt_ok_def)
  ultimately show ?thesis using assms e
    by (fastforce simp: elt_next_back_def elt_ok_def elt_left_def elt_behind_def Let_def less_Suc_eq)
next
  case True
  show ?thesis
  proof (cases "ei_inner it" rule: rev_cases)
    case Nil
    with True assms show ?thesis by (auto simp: elt_next_back_def map_iter_next_back_def elt_left_def)
  next
    case (snoc rs p)
    obtain s e where p: "p = (s, e)" by (cases p)
    have w0: "wf_from 0 (rs @ [(s, e)])" and w: "in_u64 rs" "e < 2 ^ 64"
      using assms(1) by (simp_all add: elt_ok_def snoc p in_u64_def)
    note lt = wf_from_last [OF w0]
    from lt obtain d where d: "e = Suc d" "s \<le> d" by (cases e) auto
    have a: "sub64 (Suc d) 1 = d" using w d by (subst sub64_small) auto
    have lt': "y \<in> elems rs \<Longrightarrow> s \<le> x \<Longrightarrow> y < x" for x y using lt by fastforce
    have new: "x \<in> elems rs \<Longrightarrow> s \<le> x \<Longrightarrow> False" for x using lt by fastforce
    have "r = Some d" "it' = \<lparr>ei_inner = rs, ei_next = s, ei_end = d\<rparr>" "elt_left it = {s..d} \<union> elems rs"
      using True assms(2) a d by (auto simp: elt_next_back_def map_iter_next_back_def elt_left_def snoc p Let_def)
    then show ?thesis using w d wf_from_butlast [OF w0] lt' new
      by (fastforce simp: elt_left_def elt_ok_def elt_behind_def)
  qed
qed

lemma elt_left_finite [simp]: "finite (elt_left it)"
  by (simp add: elt_left_def)

lemma elt_ok_elts: "rs_wf m \<Longrightarrow> in_u64 m \<Longrightarrow> elt_ok (rs_elts m)"
  by (simp add: elt_ok_def rs_elts_def)

lemma elt_left_elts [simp]: "elt_left (rs_elts m) = elems m"
  by (simp add: elt_left_def rs_elts_def)

lemma elt_draw_Cons:
  assumes "(if front then elt_next it else elt_next_back it) = (it1, r)"
  shows "snd (elt_draw (front # calls) it) =
    (case r of None \<Rightarrow> snd (elt_draw calls it1) | Some x \<Rightarrow> x # snd (elt_draw calls it1))"
  using assms by (cases front; cases r) (simp_all add: split_beta)

lemma elt_draw_all:
  assumes "elt_ok it"
  shows "distinct (snd (elt_draw calls it)) \<and> set (snd (elt_draw calls it)) \<subseteq> elt_left it \<and>
    length (snd (elt_draw calls it)) = min (length calls) (card (elt_left it))"
  using assms
proof (induction calls arbitrary: it)
  case (Cons front calls)
  obtain it1 r where s: "(if front then elt_next it else elt_next_back it) = (it1, r)" by force
  have step: "case r of None \<Rightarrow> elt_left it = {} \<and> it1 = it
    | Some x \<Rightarrow> elt_ok it1 \<and> x \<in> elt_left it \<and> elt_left it1 = elt_left it - {x}"
  proof (cases front)
    case True
    with s elt_next_step [OF Cons.prems, of it1 r] show ?thesis by (cases r) simp_all
  next
    case False
    with s elt_next_back_step [OF Cons.prems, of it1 r] show ?thesis by (cases r) simp_all
  qed
  show ?case
  proof (cases r)
    case None
    with step Cons.IH [OF Cons.prems] show ?thesis
      unfolding elt_draw_Cons [OF s] by simp
  next
    case (Some x)
    with step have x: "x \<in> elt_left it" "elt_left it1 = elt_left it - {x}" "elt_ok it1" by auto
    then have "card (elt_left it) = Suc (card (elt_left it1))"
      by (simp only: card_Suc_Diff1 [OF elt_left_finite])
    moreover have "set (snd (elt_draw calls it1)) \<subseteq> elt_left it - {x}"
      using Cons.IH [OF x(3)] x(2) by simp
    ultimately show ?thesis using Cons.IH [OF x(3)] x(1)
      unfolding elt_draw_Cons [OF s] by (simp add: Some subset_Diff_insert)
  qed
qed simp

lemma sorted_list_of_set_Min:
  fixes A :: "nat set"
  assumes "finite A" "x \<in> A" "\<forall>y\<in>A. x \<le> y"
  shows "sorted_list_of_set A = x # sorted_list_of_set (A - {x})"
proof -
  have "x = Min A" using assms by (intro Min_eqI [symmetric]) auto
  then show ?thesis using assms sorted_list_of_set_nonempty [of A] by auto
qed

lemma sorted_list_of_set_Max:
  fixes A :: "nat set"
  assumes "finite A" "x \<in> A" "\<forall>y\<in>A. y \<le> x"
  shows "sorted_list_of_set A = sorted_list_of_set (A - {x}) @ [x]"
proof (rule sorted_distinct_set_unique)
  show "sorted (sorted_list_of_set (A - {x}) @ [x])"
    using assms by (auto simp: sorted_append)
  show "set (sorted_list_of_set A) = set (sorted_list_of_set (A - {x}) @ [x])" using assms by auto
qed (use assms in auto)

lemma elt_draw_front:
  assumes "elt_ok it" "elt_before it"
  shows "snd (elt_draw (replicate n True) it) = take n (sorted_list_of_set (elt_left it))"
  using assms
proof (induction n arbitrary: it)
  case (Suc n)
  obtain it1 r where s: "elt_next it = (it1, r)" by force
  have draw: "snd (elt_draw (True # calls) it) =
      (case r of None \<Rightarrow> snd (elt_draw calls it1) | Some x \<Rightarrow> x # snd (elt_draw calls it1))" for calls
    by (rule elt_draw_Cons) (simp add: s)
  show ?case
  proof (cases r)
    case None
    with elt_next_step [OF Suc.prems(1) s] have e: "it1 = it" "elt_left it = {}" by auto
    show ?thesis using Suc.IH [OF Suc.prems] by (simp add: draw None e del: elt_draw.simps)
  next
    case (Some x)
    with elt_next_step [OF Suc.prems(1) s] Suc.prems(2)
    have e: "elt_ok it1" "x \<in> elt_left it" "elt_left it1 = elt_left it - {x}" "\<forall>y\<in>elt_left it. x \<le> y"
      "elt_before it1" by simp_all
    show ?thesis using Suc.IH [OF e(1,5)] sorted_list_of_set_Min [OF elt_left_finite e(2,4)]
      by (simp add: draw Some e(3) del: elt_draw.simps)
  qed
qed simp

lemma elt_draw_back:
  assumes "elt_ok it" "elt_behind it"
  shows "snd (elt_draw (replicate n False) it) = take n (rev (sorted_list_of_set (elt_left it)))"
  using assms
proof (induction n arbitrary: it)
  case (Suc n)
  obtain it1 r where s: "elt_next_back it = (it1, r)" by force
  have draw: "snd (elt_draw (False # calls) it) =
      (case r of None \<Rightarrow> snd (elt_draw calls it1) | Some x \<Rightarrow> x # snd (elt_draw calls it1))" for calls
    by (rule elt_draw_Cons) (simp add: s)
  show ?case
  proof (cases r)
    case None
    with elt_next_back_step [OF Suc.prems(1) s] have e: "it1 = it" "elt_left it = {}" by auto
    show ?thesis using Suc.IH [OF Suc.prems] by (simp add: draw None e del: elt_draw.simps)
  next
    case (Some x)
    with elt_next_back_step [OF Suc.prems(1) s] Suc.prems(2)
    have e: "elt_ok it1" "x \<in> elt_left it" "elt_left it1 = elt_left it - {x}" "\<forall>y\<in>elt_left it. y \<le> x"
      "elt_behind it1" by simp_all
    show ?thesis using Suc.IH [OF e(1,5)] sorted_list_of_set_Max [OF elt_left_finite e(2,4)]
      by (simp add: draw Some e(3) del: elt_draw.simps)
  qed
qed simp

section \<open>Properties\<close>

text \<open>
  The iterator over the numbers of a range set is exhaustive and duplicate free however it
  is drawn from: any mix of calls at its two ends yields distinct numbers of the set, one per
  call until all have been yielded; from the front they come in ascending order, from the back
  in descending order.
\<close>

lemma elements_enumerated:
  assumes "rs_wf m" "in_u64 m"
  shows "distinct (snd (elt_draw calls (rs_elts m))) \<and> set (snd (elt_draw calls (rs_elts m))) \<subseteq> elems m \<and>
    length (snd (elt_draw calls (rs_elts m))) = min (length calls) (card (elems m)) \<and>
    snd (elt_draw (replicate n True) (rs_elts m)) = take n (sorted_list_of_set (elems m)) \<and>
    snd (elt_draw (replicate n False) (rs_elts m)) = take n (rev (sorted_list_of_set (elems m)))"
proof -
  note ok = elt_ok_elts [OF assms]
  have "snd (elt_draw (replicate n True) (rs_elts m)) = take n (sorted_list_of_set (elems m))"
    using elt_draw_front [OF ok] by (simp add: rs_elts_def elt_left_def elt_before_def)
  moreover have "snd (elt_draw (replicate n False) (rs_elts m)) = take n (rev (sorted_list_of_set (elems m)))"
    using elt_draw_back [OF ok] by (simp add: rs_elts_def elt_left_def elt_behind_def)
  ultimately show ?thesis using elt_draw_all [OF ok, of calls] by simp
qed

text \<open>
  Drawn from both ends in turn it does not keep the order of a double-ended iterator: after one
  call at the front, the call at the back takes the end of the first range and not of the last.
\<close>

lemma mixed_ends_out_of_order:
  "snd (elt_draw [True, False] (rs_elts [(2, 4), (7, 9)])) = [2, 3]"
  "snd (elt_draw [False] (rs_elts [(2, 4), (7, 9)])) = [8]"
  by (simp_all add: rs_elts_def elt_next_def elt_next_back_def map_iter_next_def
      map_iter_next_back_def add64_def sub64_def)

end
