(* ===== verification/Varint.thy ===== *)
theory Varint
  imports Prelude
begin

unbundle bit_operations_syntax

text \<open>
  Variable-length integers (\<open>proto/src/varint.rs\<close>).

  The \<open>bytes\<close> crate is not part of the repository.  Its big-endian conversions are the
  parameter \<open>B\<close> of type \<open>bytes_api\<close> of every codec function: \<open>be_put B n v\<close> are the
  bytes that \<open>put_u8\<close>, \<open>put_u16\<close>, \<open>put_u32\<close>, \<open>put_u64\<close> (\<open>n\<close> = 1, 2, 4, 8)
  and \<open>put_uint\<close> append, \<open>be_get B bs\<close> is the value the \<open>try_get_\<close> functions read from
  the bytes \<open>bs\<close>.  The locale \<open>bytes_crate\<close> states their documented behaviour: network byte
  order, the number of bytes written, and that writing and reading are inverse.
  A \<open>BufMut\<close> is a \<open>writer\<close>: the bytes written so far and the capacity that is left
  (\<open>remaining_mut\<close>); writing past the capacity panics, as the crate documents.
\<close>

section \<open>Buffers\<close>

record bytes_api =
  be_put :: "nat \<Rightarrow> nat \<Rightarrow> bytes"
  be_get :: "bytes \<Rightarrow> nat"

record writer =
  w_bytes :: bytes
  w_left :: nat

definition put_slice :: "bytes \<Rightarrow> writer \<Rightarrow> (writer, 'e) outcome" where
  "put_slice src w =
     (if length src \<le> w_left w
      then Ok (w\<lparr>w_bytes := w_bytes w @ src, w_left := w_left w - length src\<rparr>)
      else Panic)"

definition put_uint :: "bytes_api \<Rightarrow> nat \<Rightarrow> nat \<Rightarrow> writer \<Rightarrow> (writer, 'e) outcome" where
  "put_uint B n v w = put_slice (be_put B n v) w"

datatype try_get_error = TryGetError (requested: nat) (available: nat)

definition try_get_uint :: "bytes_api \<Rightarrow> nat \<Rightarrow> bytes \<Rightarrow> (nat \<times> bytes, try_get_error) outcome" where
  "try_get_uint B n buf =
     (if length buf < n then Err (TryGetError n (length buf))
      else Ok (be_get B (take n buf), drop n buf))"

definition try_copy_to_slice :: "nat \<Rightarrow> bytes \<Rightarrow> (bytes \<times> bytes, try_get_error) outcome" where
  "try_copy_to_slice n buf =
     (if length buf < n then Err (TryGetError n (length buf))
      else Ok (take n buf, drop n buf))"

section \<open>The codec\<close>

definition VARINT_MAX_1 :: nat where "VARINT_MAX_1 = push_bit 6 1 - 1"
definition VARINT_MAX_2 :: nat where "VARINT_MAX_2 = push_bit 14 1 - 1"
definition VARINT_MAX_4 :: nat where "VARINT_MAX_4 = push_bit 30 1 - 1"
definition VARINT_MAX_8 :: nat where "VARINT_MAX_8 = push_bit 62 1 - 1"
definition VARINT_MAX :: nat where "VARINT_MAX = VARINT_MAX_8"

definition varint_len :: "nat \<Rightarrow> (nat, 'e) outcome" where
  "varint_len v =
     (if v \<le> VARINT_MAX_1 then Ok 1
      else if v \<le> VARINT_MAX_2 then Ok 2
      else if v \<le> VARINT_MAX_4 then Ok 4
      else if v \<le> VARINT_MAX_8 then Ok 8
      else Panic)"

definition varint_parse_len :: "u8 \<Rightarrow> nat" where
  "varint_parse_len first = push_bit (unat (drop_bit 6 first)) 1"

definition try_get_varint :: "bytes_api \<Rightarrow> bytes \<Rightarrow> (nat \<times> bytes, try_get_error) outcome" where
  "try_get_varint B buf =
     (case buf of
        [] \<Rightarrow> Err (TryGetError 1 (length buf))
      | first # _ \<Rightarrow>
          (let len = varint_parse_len first in
           if len = 1 then bindO (try_get_uint B 1 buf) (\<lambda>(x, buf). Ok (x AND VARINT_MAX_1, buf))
           else if len = 2 then bindO (try_get_uint B 2 buf) (\<lambda>(x, buf). Ok (x AND VARINT_MAX_2, buf))
           else if len = 4 then bindO (try_get_uint B 4 buf) (\<lambda>(x, buf). Ok (x AND VARINT_MAX_4, buf))
           else if len = 8 then bindO (try_get_uint B 8 buf) (\<lambda>(x, buf). Ok (x AND VARINT_MAX_8, buf))
           else Panic))"

definition try_get_bytes_with_varint_length ::
    "bytes_api \<Rightarrow> bytes \<Rightarrow> (bytes \<times> bytes, try_get_error) outcome" where
  "try_get_bytes_with_varint_length B buf =
     bindO (try_get_varint B buf) (\<lambda>(len, buf).
       if length buf < len then Err (TryGetError len (length buf))
       else Ok (take len buf, drop len buf))"

definition put_varint :: "bytes_api \<Rightarrow> nat \<Rightarrow> writer \<Rightarrow> (writer, 'e) outcome" where
  "put_varint B v w =
     bindO (varint_len v) (\<lambda>len.
       if len = 1 then put_uint B 1 (take_bit 8 v) w
       else if len = 2 then put_uint B 2 (push_bit 14 1 OR take_bit 16 v) w
       else if len = 4 then put_uint B 4 (push_bit 30 2 OR take_bit 32 v) w
       else if len = 8 then put_uint B 8 (push_bit 62 3 OR v) w
       else Panic)"

definition put_bytes_with_varint_length :: "bytes_api \<Rightarrow> bytes \<Rightarrow> writer \<Rightarrow> (writer, 'e) outcome" where
  "put_bytes_with_varint_length B bs w =
     bindO (put_varint B (length bs) w) (\<lambda>w. put_slice bs w)"

section \<open>Writers\<close>

lemma put_slice_eq_Ok:
  "put_slice src w = Ok w' \<longleftrightarrow>
     length src \<le> w_left w \<and> w' = w\<lparr>w_bytes := w_bytes w @ src, w_left := w_left w - length src\<rparr>"
  by (auto simp: put_slice_def)

lemma put_slice_append [codec_simps]:
  "bindO (put_slice a w) (put_slice b) = put_slice (a @ b) w"
  by (auto simp: put_slice_def)

lemma put_slice_append_bind [codec_simps]:
  "bindO (put_slice a w) (\<lambda>w. bindO (put_slice b w) k) = bindO (put_slice (a @ b) w) k"
  by (simp flip: put_slice_append bindO_assoc)

lemma put_slice_left: "put_slice bs w = Ok w' \<Longrightarrow> w_left w = length bs + w_left w'"
  by (auto simp: put_slice_eq_Ok)

lemma put_slice_Nil: "put_slice [] w = Ok w"
  by (simp add: put_slice_def)

section \<open>Numbers with a two-bit length prefix\<close>

lemma varint_max_values:
  "VARINT_MAX_1 = 63" "VARINT_MAX_2 = 16383" "VARINT_MAX_4 = 1073741823"
  "VARINT_MAX_8 = 4611686018427387903" "VARINT_MAX = 4611686018427387903"
  by (simp_all add: VARINT_MAX_1_def VARINT_MAX_2_def VARINT_MAX_4_def VARINT_MAX_8_def
      VARINT_MAX_def push_bit_eq_mult)

lemma varint_max_masks:
  "VARINT_MAX_1 = mask 6" "VARINT_MAX_2 = mask 14" "VARINT_MAX_4 = mask 30" "VARINT_MAX_8 = mask 62"
  by (simp_all add: VARINT_MAX_1_def VARINT_MAX_2_def VARINT_MAX_4_def VARINT_MAX_8_def
      mask_eq_exp_minus_1 push_bit_eq_mult)

lemma and_varint_max:
  "x AND VARINT_MAX_1 = x mod 2 ^ 6" "x AND VARINT_MAX_2 = x mod 2 ^ 14"
  "x AND VARINT_MAX_4 = x mod 2 ^ 30" "x AND VARINT_MAX_8 = x mod 2 ^ 62"
  by (simp_all only: varint_max_masks take_bit_eq_mask [symmetric] take_bit_eq_mod)

lemma and_varint_max_le:
  "x AND VARINT_MAX_1 \<le> VARINT_MAX" "x AND VARINT_MAX_2 \<le> VARINT_MAX"
  "x AND VARINT_MAX_4 \<le> VARINT_MAX" "x AND VARINT_MAX_8 \<le> VARINT_MAX"
proof -
  have bound: "x mod 2 ^ n \<le> VARINT_MAX" if "n \<le> 62" for n
  proof -
    have "x mod 2 ^ n < 2 ^ n" by simp
    also have "(2::nat) ^ n \<le> 2 ^ 62" using that by (rule power_increasing) simp
    finally show ?thesis by (simp add: varint_max_values)
  qed
  show "x AND VARINT_MAX_1 \<le> VARINT_MAX" "x AND VARINT_MAX_2 \<le> VARINT_MAX"
    "x AND VARINT_MAX_4 \<le> VARINT_MAX" "x AND VARINT_MAX_8 \<le> VARINT_MAX"
    by (simp_all only: and_varint_max bound)
qed

lemma push_or_eq_add:
  fixes v :: nat
  assumes "v < 2 ^ n"
  shows "push_bit n c OR v = c * 2 ^ n + v"
proof -
  have "take_bit n v = v"
    using assms by (simp add: take_bit_nat_eq_self)
  then have "push_bit n c OR v = push_bit n c + v"
    by (intro disjunctive_add [symmetric])
      (metis bit_push_bit_iff bit_take_bit_iff linorder_not_less)
  then show ?thesis by (simp add: push_bit_eq_mult)
qed

definition varint_bytes :: "bytes_api \<Rightarrow> nat \<Rightarrow> bytes" where
  "varint_bytes B v =
     (if v \<le> VARINT_MAX_1 then be_put B 1 v
      else if v \<le> VARINT_MAX_2 then be_put B 2 (1 * 2 ^ 14 + v)
      else if v \<le> VARINT_MAX_4 then be_put B 4 (2 * 2 ^ 30 + v)
      else be_put B 8 (3 * 2 ^ 62 + v))"

lemma or_varint_prefix:
  "v < 2 ^ 14 \<Longrightarrow> 16384 OR v = (16384 + v :: nat)"
  "v < 2 ^ 30 \<Longrightarrow> 2147483648 OR v = (2147483648 + v :: nat)"
  "v < 2 ^ 62 \<Longrightarrow> 13835058055282163712 OR v = (13835058055282163712 + v :: nat)"
  using push_or_eq_add [of v 14 1] push_or_eq_add [of v 30 2] push_or_eq_add [of v 62 3]
  by (simp_all add: push_bit_eq_mult)

lemma put_varint_eq [codec_simps]:
  "v \<le> VARINT_MAX \<Longrightarrow> put_varint B v w = put_slice (varint_bytes B v) w"
  by (simp add: put_varint_def varint_len_def varint_bytes_def put_uint_def varint_max_values
      take_bit_nat_eq_self or_varint_prefix)

lemma put_varint_too_large: "VARINT_MAX < v \<Longrightarrow> put_varint B v w = Panic"
  by (simp add: put_varint_def varint_len_def varint_max_values)

lemma put_varint_Ok:
  "put_varint B v w = (Ok w' :: (writer, 'e) outcome) \<longleftrightarrow>
     v \<le> VARINT_MAX \<and> put_slice (varint_bytes B v) w = (Ok w' :: (writer, 'e) outcome)"
  by (cases "v \<le> VARINT_MAX") (simp_all add: put_varint_eq put_varint_too_large)

lemma put_bytes_eq [codec_simps]:
  "length bs \<le> VARINT_MAX \<Longrightarrow>
     put_bytes_with_varint_length B bs w = put_slice (varint_bytes B (length bs) @ bs) w"
  by (simp add: put_bytes_with_varint_length_def codec_simps)

lemma varint_prefix_lt_4: "unat (drop_bit 6 (first :: u8)) < 4"
  using unat_u8_lt [of first] by (simp add: unat_drop_bit_eq flip: drop_bit_eq_div)
    (simp add: drop_bit_eq_div less_mult_imp_div_less)

lemma varint_parse_len_cases:
  "varint_parse_len first = 1 \<or> varint_parse_len first = 2 \<or>
   varint_parse_len first = 4 \<or> varint_parse_len first = 8"
proof -
  consider "unat (drop_bit 6 first) = 0" | "unat (drop_bit 6 first) = 1"
    | "unat (drop_bit 6 first) = 2" | "unat (drop_bit 6 first) = 3"
    using varint_prefix_lt_4 [of first] by linarith
  then show ?thesis
    by cases (simp_all add: varint_parse_len_def push_bit_eq_mult)
qed

lemma try_get_varint_Ok:
  assumes "try_get_varint B buf = Ok (v, rest)"
  shows "v \<le> VARINT_MAX \<and> (\<exists>k. 0 < k \<and> k \<le> 8 \<and> k \<le> length buf \<and> rest = drop k buf)"
proof (cases buf)
  case Nil
  then show ?thesis using assms by (simp add: try_get_varint_def)
next
  case (Cons first tail)
  obtain k where k: "k = varint_parse_len first" "0 < k" "k \<le> 8"
    using varint_parse_len_cases [of first] by auto
  have "k \<le> length buf \<and> rest = drop k buf \<and> v \<le> VARINT_MAX"
    using varint_parse_len_cases [of first] assms
    by (auto simp: k(1) Cons try_get_varint_def try_get_uint_def Let_def and_varint_max_le
        Suc_le_eq split: if_splits)
  then show ?thesis using k(2,3) by blast
qed

lemma try_get_varint_no_panic [simp]: "try_get_varint B buf \<noteq> Panic"
  using varint_parse_len_cases [of "hd buf"]
  by (cases buf) (auto simp: try_get_varint_def try_get_uint_def Let_def)

lemma try_get_varint_shorter:
  "try_get_varint B buf = Ok (v, rest) \<Longrightarrow> length rest < length buf"
  by (drule try_get_varint_Ok) auto

lemma try_get_bytes_no_panic [simp]: "try_get_bytes_with_varint_length B buf \<noteq> Panic"
  by (auto simp: try_get_bytes_with_varint_length_def bindO_eq_Panic split: prod.splits if_splits)

lemma pow256_split:
  assumes "0 < n"
  shows "(256::nat) ^ (n - 1) * 64 = 2 ^ (8 * n - 2)"
proof -
  have "(256::nat) ^ (n - 1) * 64 = 2 ^ (8 * (n - 1)) * 2 ^ 6"
    by (simp add: power_mult)
  also have "\<dots> = 2 ^ (8 * (n - 1) + 6)" by (simp only: power_add)
  also have "8 * (n - 1) + 6 = 8 * n - 2" using assms by simp
  finally show ?thesis .
qed

lemma prefixed_lt:
  assumes "0 < n" "c < 4" "v < 2 ^ (8 * n - 2)"
  shows "c * 2 ^ (8 * n - 2) + v < (256::nat) ^ n"
proof -
  have "c * 2 ^ (8 * n - 2) + v < (c + 1) * 2 ^ (8 * n - 2)"
    using assms(3) by simp
  also have "\<dots> \<le> 4 * 2 ^ (8 * n - 2)" using assms(2) by (intro mult_right_mono) auto
  also have "\<dots> = 256 ^ (n - 1) * 256" by (simp flip: pow256_split [OF assms(1)])
  also have "\<dots> = 256 ^ n" using assms(1) by (simp add: power_eq_if)
  finally show ?thesis .
qed

section \<open>Round trip\<close>

locale bytes_crate =
  fixes B :: bytes_api
  assumes put_length: "length (be_put B n v) = n"
    and put_msb: "0 < n \<Longrightarrow> v < 256 ^ n \<Longrightarrow> unat (hd (be_put B n v)) = v div 256 ^ (n - 1)"
    and get_put: "be_get B (be_put B n v) = v mod 256 ^ n"
    and put_get: "be_put B (length bs) (be_get B bs) = bs"
begin

lemma get_bound: "be_get B bs < 256 ^ length bs"
proof -
  have "be_get B bs = be_get B bs mod 256 ^ length bs"
    using get_put [of "length bs" "be_get B bs"] by (simp add: put_get)
  also have "\<dots> < 256 ^ length bs" by simp
  finally show ?thesis .
qed

lemma try_get_uint_put:
  "v < 256 ^ n \<Longrightarrow> try_get_uint B n (be_put B n v @ rest) = Ok (v, rest)"
  by (simp add: try_get_uint_def put_length get_put)

lemma varint_prefix:
  assumes "0 < n" "c < 4" "v < 2 ^ (8 * n - 2)"
  shows "unat (drop_bit 6 (hd (be_put B n (c * 2 ^ (8 * n - 2) + v)))) = c"
proof -
  note split = pow256_split [OF assms(1)] and small = prefixed_lt [OF assms]
  have "(c * 2 ^ (8 * n - 2) + v) div 256 ^ (n - 1) div 64 = (c * 2 ^ (8 * n - 2) + v) div 2 ^ (8 * n - 2)"
    by (simp only: div_mult2_eq [symmetric] split)
  also have "\<dots> = c" using assms(3) by simp
  finally show ?thesis
    using put_msb [OF assms(1) small] by (simp only: unat_drop_bit_eq) (simp add: drop_bit_eq_div)
qed

lemma try_get_prefixed:
  assumes "0 < n" "v < 2 ^ (8 * n - 2)" "c < 4"
  shows "\<exists>first tail. be_put B n (c * 2 ^ (8 * n - 2) + v) @ rest = first # tail \<and>
    varint_parse_len first = 2 ^ c"
proof -
  let ?bs = "be_put B n (c * 2 ^ (8 * n - 2) + v)"
  have ne: "?bs \<noteq> []" using put_length [of n] assms(1) by (metis length_greater_0_conv)
  have "varint_parse_len (hd ?bs) = 2 ^ c"
    using varint_prefix [OF assms(1,3,2)] by (simp add: varint_parse_len_def push_bit_eq_mult)
  moreover have "?bs @ rest = hd ?bs # tl ?bs @ rest" using ne by simp
  ultimately show ?thesis by blast
qed

lemma varint_bytes_length:
  "length (varint_bytes B v) =
     (if v \<le> VARINT_MAX_1 then 1 else if v \<le> VARINT_MAX_2 then 2 else if v \<le> VARINT_MAX_4 then 4 else 8)"
  by (simp add: varint_bytes_def put_length)

lemma varint_len_length: "v \<le> VARINT_MAX \<Longrightarrow> varint_len v = Ok (length (varint_bytes B v))"
  by (simp add: varint_len_def varint_bytes_length VARINT_MAX_def)

lemma varint_bytes_nonempty [simp]: "varint_bytes B v \<noteq> []"
proof -
  have "0 < length (varint_bytes B v)" by (simp add: varint_bytes_length)
  then show ?thesis by simp
qed

lemma varint_bytes_length_le: "length (varint_bytes B v) \<le> 8"
  by (simp add: varint_bytes_length)

lemma try_get_varint_bytes [codec_simps]:
  assumes "v \<le> VARINT_MAX"
  shows "try_get_varint B (varint_bytes B v @ rest) = Ok (v, rest)"
proof -
  have step: "try_get_varint B (be_put B n (c * 2 ^ (8 * n - 2) + v) @ rest) = Ok (v, rest)"
    if nc: "n = 2 ^ c" "c < 4" "v < 2 ^ (8 * n - 2)" for n c
  proof -
    let ?bs = "be_put B n (c * 2 ^ (8 * n - 2) + v)"
    obtain first tail where ft: "?bs @ rest = first # tail" "varint_parse_len first = n"
      using try_get_prefixed [of n v c rest] nc by auto
    have get: "try_get_uint B n (first # tail) = Ok (c * 2 ^ (8 * n - 2) + v, rest)"
      using try_get_uint_put [OF prefixed_lt [of n c v], of rest] ft(1) nc by simp
    have modn: "(c * 2 ^ (8 * n - 2) + v) mod 2 ^ (8 * n - 2) = v" using nc(3) by simp
    consider "c = 0" | "c = 1" | "c = 2" | "c = 3" using nc(2) by linarith
    then show ?thesis
      using ft get modn nc(1)
      by cases (simp_all add: try_get_varint_def Let_def and_varint_max)
  qed
  show ?thesis
    using step [of 1 0] step [of 2 1] step [of 4 2] step [of 8 3] assms
    by (auto simp: varint_bytes_def varint_max_values)
qed

lemma try_get_bytes_put [codec_simps]:
  assumes "length bs \<le> VARINT_MAX"
  shows "try_get_bytes_with_varint_length B (varint_bytes B (length bs) @ bs @ rest) = Ok (bs, rest)"
  using assms by (simp add: try_get_bytes_with_varint_length_def try_get_varint_bytes)

end

section \<open>The standard library's big-endian conversion is an instance\<close>

text \<open>\<open>to_be_bytes\<close> and \<open>from_be_bytes\<close> of Rust's integer types, for \<open>n\<close> bytes.\<close>

fun to_be_bytes :: "nat \<Rightarrow> nat \<Rightarrow> bytes" where
  "to_be_bytes 0 v = []"
| "to_be_bytes (Suc n) v = word_of_nat (v div 256 ^ n) # to_be_bytes n v"

fun from_be_bytes :: "bytes \<Rightarrow> nat" where
  "from_be_bytes [] = 0"
| "from_be_bytes (b # bs) = unat b * 256 ^ length bs + from_be_bytes bs"

definition std_bytes :: bytes_api where
  "std_bytes = \<lparr>be_put = to_be_bytes, be_get = from_be_bytes\<rparr>"

lemma length_to_be_bytes [simp]: "length (to_be_bytes n v) = n"
  by (induction n) auto

lemma from_be_bytes_bound: "from_be_bytes bs < 256 ^ length bs"
proof (induction bs)
  case (Cons b bs)
  have "unat b * 256 ^ length bs + from_be_bytes bs < (unat b + 1) * 256 ^ length bs"
    using Cons.IH by simp
  also have "\<dots> \<le> 256 * 256 ^ length bs"
    using unat_u8_lt [of b] by (intro mult_right_mono) auto
  finally show ?case by simp
qed simp

lemma from_to_be_bytes: "from_be_bytes (to_be_bytes n v) = v mod 256 ^ n"
proof (induction n)
  case (Suc n)
  have "unat (word_of_nat (v div 256 ^ n) :: u8) = v div 256 ^ n mod 256"
    by (simp add: unat_of_nat)
  then show ?case
    using Suc.IH mod_mult2_eq [of v "256 ^ n" 256] by (simp add: mult.commute)
qed simp

lemma to_be_bytes_low: "to_be_bytes n (a * 256 ^ n + v) = to_be_bytes n v"
proof (induction n arbitrary: a v)
  case (Suc n)
  have "(a * 256 ^ Suc n + v) div 256 ^ n = 256 * a + v div 256 ^ n"
    using div_mult_self1 [of "256 ^ n" v "256 * a"] by (simp add: mult_ac add_ac)
  moreover have "(word_of_nat (256 * a + v div 256 ^ n) :: u8) = word_of_nat (v div 256 ^ n)"
  proof -
    have "(256 :: u8) = 0" by simp
    then have "(word_of_nat (256 * a) :: u8) = 0" by (metis mult_zero_left of_nat_mult of_nat_numeral)
    then show ?thesis by (simp only: of_nat_add add_0_left)
  qed
  moreover have "to_be_bytes n (a * 256 ^ Suc n + v) = to_be_bytes n v"
    using Suc.IH [of "a * 256" v] by (simp add: mult.assoc)
  ultimately show ?case by simp
qed simp

lemma to_from_be_bytes: "to_be_bytes (length bs) (from_be_bytes bs) = bs"
proof (induction bs)
  case (Cons b bs)
  have "(unat b * 256 ^ length bs + from_be_bytes bs) div 256 ^ length bs = unat b"
    using from_be_bytes_bound [of bs] by simp
  then show ?case using Cons.IH by (simp add: to_be_bytes_low)
qed simp

interpretation std: bytes_crate std_bytes
proof unfold_locales
  show "unat (hd (be_put std_bytes n v)) = v div 256 ^ (n - 1)" if nv: "0 < n" "v < 256 ^ n" for n v
  proof -
    obtain m where m: "n = Suc m" using nv(1) by (cases n) auto
    have "v div 256 ^ m < 256" using nv(2) m by (simp add: less_mult_imp_div_less)
    then show ?thesis by (simp add: std_bytes_def m unat_of_nat)
  qed
qed (simp_all add: std_bytes_def from_to_be_bytes to_from_be_bytes)

section \<open>Properties\<close>

text \<open>Evaluation of short varints, for concrete inputs.\<close>

lemma to_be_bytes_1: "to_be_bytes (Suc 0) v = [word_of_nat v]"
  by simp

lemmas varint_eval = put_varint_def varint_len_def VARINT_MAX_1_def VARINT_MAX_2_def VARINT_MAX_4_def VARINT_MAX_8_def
  put_uint_def put_slice_def std_bytes_def to_be_bytes_1

text \<open>
  C35. Varints round trip: what \<open>put_varint\<close> writes has the length \<open>varint_len\<close> announces, at
  most eight bytes, and reading it back gives the value and leaves what follows.
\<close>

theorem varint_roundtrip:
  assumes "bytes_crate B" "put_varint B v w = (Ok w' :: (writer, 'e) outcome)"
  shows "\<exists>bs. w_bytes w' = w_bytes w @ bs \<and> length bs \<le> 8 \<and> varint_len v = (Ok (length bs) :: (nat, 'f) outcome) \<and>
    (\<forall>rest. try_get_varint B (bs @ rest) = Ok (v, rest))"
proof (intro exI conjI)
  have v: "v \<le> VARINT_MAX" "put_slice (varint_bytes B v) w = (Ok w' :: (writer, 'e) outcome)"
    using assms(2) by (simp_all add: put_varint_Ok)
  then show "w_bytes w' = w_bytes w @ varint_bytes B v" by (simp add: put_slice_eq_Ok)
  show "length (varint_bytes B v) \<le> 8" by (rule bytes_crate.varint_bytes_length_le [OF assms(1)])
  show "varint_len v = (Ok (length (varint_bytes B v)) :: (nat, 'f) outcome)"
    by (rule bytes_crate.varint_len_length [OF assms(1) v(1)])
  show "\<forall>rest. try_get_varint B (varint_bytes B v @ rest) = Ok (v, rest)"
    using bytes_crate.try_get_varint_bytes [OF assms(1) v(1)] by blast
qed

theorem varint_roundtrip_witness:
  "\<exists>bs. w_bytes (\<lparr>w_bytes = [0x7B, 0xBD], w_left = 6\<rparr>) = w_bytes \<lparr>w_bytes = [], w_left = 8\<rparr> @ bs \<and> length bs \<le> 8 \<and>
    varint_len 15293 = (Ok (length bs) :: (nat, unit) outcome) \<and>
    (\<forall>rest. try_get_varint std_bytes (bs @ rest) = Ok (15293, rest))"
proof -
  have be: "to_be_bytes 2 v = [word_of_nat (v div 256), word_of_nat v]" for v by (simp add: numeral_2_eq_2)
  have "put_varint std_bytes 15293 \<lparr>w_bytes = [], w_left = 8\<rparr> = (Ok \<lparr>w_bytes = [0x7B, 0xBD], w_left = 6\<rparr> :: (writer, unit) outcome)"
    by (simp add: put_varint_def varint_len_def VARINT_MAX_1_def VARINT_MAX_2_def put_uint_def put_slice_def std_bytes_def
        be)
  then show ?thesis by (rule varint_roundtrip [OF std.bytes_crate_axioms])
qed

text \<open>
  Reading a varint never panics: it consumes one to eight bytes of the input and returns a
  value of at most 62 bits, or it fails, which happens only when the input is shorter than its
  first byte announces.
\<close>

lemma varint_read_total:
  "case try_get_varint B buf of
     Ok (v, rest) \<Rightarrow> v \<le> VARINT_MAX \<and> (\<exists>k. 0 < k \<and> k \<le> 8 \<and> k \<le> length buf \<and> rest = drop k buf)
   | Err e \<Rightarrow> buf = [] \<or> length buf < varint_parse_len (hd buf)
   | Panic \<Rightarrow> False"
proof (cases "try_get_varint B buf")
  case (Ok x)
  then show ?thesis using try_get_varint_Ok by (cases x) fastforce
next
  case (Err e)
  then have "buf = [] \<or> length buf < varint_parse_len (hd buf)"
    by (cases buf) (auto simp: try_get_varint_def try_get_uint_def bindO_eq_Err Let_def split: if_splits)
  then show ?thesis using Err by simp
qed simp

end
