(* ===== verification/Common.thy ===== *)
theory Common
  imports Varint
begin

unbundle bit_operations_syntax

text \<open>
  \<open>proto/src/common.rs\<close> and \<open>proto/src/error.rs\<close>: sides, directions, stream and connection
  identifiers, ECN code points, and transport errors.  The lemmas show that a stream identifier
  and its three components determine each other, and that a connection identifier survives its
  long-header encoding; the decoder panics on a length over 20.
\<close>

section \<open>Sides, directions and stream identifiers\<close>

datatype side = Client | Server

fun side_not :: "side \<Rightarrow> side" where
  "side_not Client = Server"
| "side_not Server = Client"

datatype dir = Bi | Uni

text \<open>\<open>self as u64\<close>.\<close>

fun side_num :: "side \<Rightarrow> nat" where
  "side_num Client = 0"
| "side_num Server = 1"

fun dir_num :: "dir \<Rightarrow> nat" where
  "dir_num Bi = 0"
| "dir_num Uni = 1"

type_synonym stream_id = nat

definition stream_id_new :: "side \<Rightarrow> dir \<Rightarrow> nat \<Rightarrow> stream_id" where
  "stream_id_new initiator dir index =
     (take_bit 64 (push_bit 2 index) OR push_bit 1 (dir_num dir)) OR side_num initiator"

definition initiator :: "stream_id \<Rightarrow> side" where
  "initiator sid = (if sid AND 1 = 0 then Client else Server)"

definition stream_dir :: "stream_id \<Rightarrow> dir" where
  "stream_dir sid = (if sid AND 2 = 0 then Bi else Uni)"

definition stream_index :: "stream_id \<Rightarrow> nat" where
  "stream_index sid = drop_bit 2 sid"

section \<open>Connection identifiers\<close>

definition MAX_CID_SIZE :: nat where
  "MAX_CID_SIZE = 20"

record connection_id =
  cid_len :: nat
  cid_bytes :: bytes

definition cid_new :: "bytes \<Rightarrow> (connection_id, 'e) outcome" where
  "cid_new bs =
     (if MAX_CID_SIZE < length bs then Panic
      else Ok \<lparr>cid_len = length bs mod 256, cid_bytes = bs @ replicate (MAX_CID_SIZE - length bs) 0\<rparr>)"

text \<open>
  \<open>res[..len]\<close> slices \<open>bytes[0..len as u8]\<close>: it panics when the stored length is over 20
  or the requested length is over the stored one.
\<close>

definition cid_from_buf :: "bytes \<Rightarrow> nat \<Rightarrow> (connection_id \<times> bytes, try_get_error) outcome" where
  "cid_from_buf buf len =
     (if MAX_CID_SIZE < len mod 256 \<or> len mod 256 < len then Panic
      else bindO (try_copy_to_slice len buf) (\<lambda>(bs, buf).
        Ok (\<lparr>cid_len = len mod 256, cid_bytes = bs @ replicate (MAX_CID_SIZE - len) 0\<rparr>, buf)))"

definition cid_decode :: "bytes_api \<Rightarrow> bytes \<Rightarrow> (connection_id \<times> bytes, try_get_error) outcome" where
  "cid_decode B buf = bindO (try_get_uint B 1 buf) (\<lambda>(len, buf). cid_from_buf buf len)"

definition cid_deref :: "connection_id \<Rightarrow> bytes" where
  "cid_deref cid = take (cid_len cid) (cid_bytes cid)"

definition cid_encode :: "bytes_api \<Rightarrow> connection_id \<Rightarrow> writer \<Rightarrow> (writer, 'e) outcome" where
  "cid_encode B cid w = bindO (put_uint B 1 (cid_len cid) w) (\<lambda>w. put_slice (cid_deref cid) w)"

text \<open>What the constructors guarantee: the array has 20 bytes, those beyond \<open>len\<close> are zero.\<close>

definition cid_wf :: "connection_id \<Rightarrow> bool" where
  "cid_wf cid \<longleftrightarrow> cid_len cid \<le> MAX_CID_SIZE \<and>
     cid_bytes cid = cid_deref cid @ replicate (MAX_CID_SIZE - cid_len cid) 0 \<and>
     length (cid_deref cid) = cid_len cid"

section \<open>ECN code points and reset tokens\<close>

datatype ecn_codepoint = Ect0 | Ect1 | Ce

definition ecn_from_bits :: "u8 \<Rightarrow> ecn_codepoint option" where
  "ecn_from_bits x =
     (if x AND 3 = 2 then Some Ect0
      else if x AND 3 = 1 then Some Ect1
      else if x AND 3 = 3 then Some Ce
      else None)"

definition RESET_TOKEN_SIZE :: nat where
  "RESET_TOKEN_SIZE = 16"

type_synonym reset_token = bytes

record issued_cid =
  issued_sequence :: nat
  issued_id :: connection_id
  issued_reset_token :: reset_token

section \<open>Transport errors\<close>

type_synonym transport_error_code = nat

record transport_error =
  te_code :: transport_error_code
  te_frame :: "nat option"
  te_reason :: string

definition code_crypto :: "nat \<Rightarrow> transport_error_code" where
  "code_crypto code = 256 OR code"

definition NO_ERROR :: transport_error_code where "NO_ERROR = 0x0"
definition INTERNAL_ERROR :: transport_error_code where "INTERNAL_ERROR = 0x1"
definition CONNECTION_REFUSED :: transport_error_code where "CONNECTION_REFUSED = 0x2"
definition FLOW_CONTROL_ERROR :: transport_error_code where "FLOW_CONTROL_ERROR = 0x3"
definition STREAM_LIMIT_ERROR :: transport_error_code where "STREAM_LIMIT_ERROR = 0x4"
definition STREAM_STATE_ERROR :: transport_error_code where "STREAM_STATE_ERROR = 0x5"
definition FINAL_SIZE_ERROR :: transport_error_code where "FINAL_SIZE_ERROR = 0x6"
definition FRAME_ENCODING_ERROR :: transport_error_code where "FRAME_ENCODING_ERROR = 0x7"
definition TRANSPORT_PARAMETER_ERROR :: transport_error_code where "TRANSPORT_PARAMETER_ERROR = 0x8"
definition CONNECTION_ID_LIMIT_ERROR :: transport_error_code where "CONNECTION_ID_LIMIT_ERROR = 0x9"
definition PROTOCOL_VIOLATION :: transport_error_code where "PROTOCOL_VIOLATION = 0xA"
definition INVALID_TOKEN :: transport_error_code where "INVALID_TOKEN = 0xB"
definition APPLICATION_ERROR :: transport_error_code where "APPLICATION_ERROR = 0xC"
definition CRYPTO_BUFFER_EXCEEDED :: transport_error_code where "CRYPTO_BUFFER_EXCEEDED = 0xD"
definition KEY_UPDATE_ERROR :: transport_error_code where "KEY_UPDATE_ERROR = 0xE"
definition AEAD_LIMIT_REACHED :: transport_error_code where "AEAD_LIMIT_REACHED = 0xF"
definition NO_VIABLE_PATH :: transport_error_code where "NO_VIABLE_PATH = 0x10"

text \<open>The constructor functions \<open>TransportError::NAME(reason)\<close>.\<close>

definition transport_error_new :: "transport_error_code \<Rightarrow> string \<Rightarrow> transport_error" where
  "transport_error_new code reason = \<lparr>te_code = code, te_frame = None, te_reason = reason\<rparr>"

section \<open>Stream identifiers\<close>

lemma stream_id_new_eq:
  assumes "index < 2 ^ 62"
  shows "stream_id_new s d index = 4 * index + 2 * dir_num d + side_num s"
proof -
  have low: "push_bit 1 (dir_num d) OR side_num s = 2 * dir_num d + side_num s"
    using push_or_eq_add [of "side_num s" 1 "dir_num d"] by (cases s) (simp_all add: mult.commute)
  have "take_bit 64 (push_bit 2 index) = push_bit 2 index"
    using assms by (simp add: take_bit_nat_eq_self push_bit_eq_mult)
  moreover have "2 * dir_num d + side_num s < 2 ^ 2" by (cases d; cases s) simp_all
  ultimately show ?thesis
    using push_or_eq_add [of "2 * dir_num d + side_num s" 2 index] low
    by (simp add: stream_id_new_def or.assoc)
qed

lemma and_pow2_eq_0_iff:
  "(n :: nat) AND 1 = 0 \<longleftrightarrow> even n"
  "(n :: nat) AND 2 = 0 \<longleftrightarrow> even (n div 2)"
  "(n :: nat) AND 4 = 0 \<longleftrightarrow> even (n div 4)"
  using and_exp_eq_0_iff_not_bit [of n 0] and_exp_eq_0_iff_not_bit [of n 1]
    and_exp_eq_0_iff_not_bit [of n 2]
  by (simp_all add: bit_iff_odd)

lemma stream_id_components:
  assumes "index < 2 ^ 62"
  shows "initiator (stream_id_new s d index) = s" "stream_dir (stream_id_new s d index) = d"
    "stream_index (stream_id_new s d index) = index"
proof -
  have eq: "stream_id_new s d index = 2 * (2 * index + dir_num d) + side_num s"
    using stream_id_new_eq [OF assms] by simp
  have half: "stream_id_new s d index div 2 = 2 * index + dir_num d"
    unfolding eq by (cases s) simp_all
  then have "stream_id_new s d index div 2 div 2 = index" by (cases d) simp_all
  then have "stream_id_new s d index div 4 = index" by (simp flip: div_mult2_eq)
  then show "stream_index (stream_id_new s d index) = index"
    by (simp add: stream_index_def drop_bit_eq_div)
  show "initiator (stream_id_new s d index) = s"
    unfolding initiator_def and_pow2_eq_0_iff eq by (cases s) simp_all
  show "stream_dir (stream_id_new s d index) = d"
    unfolding stream_dir_def and_pow2_eq_0_iff half by (cases d) simp_all
qed

lemma stream_id_rebuild:
  assumes "sid < 2 ^ 64"
  shows "stream_id_new (initiator sid) (stream_dir sid) (stream_index sid) = sid"
proof -
  have "stream_index sid < 2 ^ 62"
    using assms by (simp add: stream_index_def drop_bit_eq_div less_mult_imp_div_less)
  moreover have "side_num (initiator sid) = sid mod 2" "dir_num (stream_dir sid) = sid div 2 mod 2"
    by (simp_all add: initiator_def stream_dir_def and_pow2_eq_0_iff even_iff_mod_2_eq_zero
        not_mod_2_eq_0_eq_1)
  moreover have "4 * (sid div 4) + 2 * (sid div 2 mod 2) + sid mod 2 = sid"
  proof -
    have "sid div 4 = sid div 2 div 2" by (simp flip: div_mult2_eq)
    then have "2 * (sid div 4) + sid div 2 mod 2 = sid div 2" by simp
    then show ?thesis using div_mult_mod_eq [of sid 2] by linarith
  qed
  ultimately show ?thesis
    by (simp add: stream_id_new_eq stream_index_def drop_bit_eq_div)
qed

section \<open>Connection identifiers\<close>

lemma cid_new_wf: "cid_new bs = Ok cid \<Longrightarrow> cid_wf cid \<and> cid_deref cid = bs"
  by (auto simp: cid_new_def cid_wf_def cid_deref_def MAX_CID_SIZE_def split: if_splits)

lemma cid_from_buf_Ok:
  assumes "cid_from_buf buf len = Ok (cid, rest)"
  shows "cid_wf cid \<and> cid_deref cid = take len buf \<and> rest = drop len buf \<and> len \<le> length buf \<and> len \<le> MAX_CID_SIZE"
  using assms
  by (auto simp: cid_from_buf_def try_copy_to_slice_def cid_wf_def cid_deref_def MAX_CID_SIZE_def
      split: if_splits)

lemma cid_from_buf_too_long: "MAX_CID_SIZE < len \<Longrightarrow> len < 256 \<Longrightarrow> cid_from_buf buf len = Panic"
  by (simp add: cid_from_buf_def)

lemma cid_from_buf_deref:
  assumes "cid_wf cid"
  shows "cid_from_buf (cid_deref cid @ rest) (cid_len cid) = Ok (cid, rest)"
proof -
  have "cid = \<lparr>cid_len = cid_len cid, cid_bytes = cid_deref cid @ replicate (MAX_CID_SIZE - cid_len cid) 0\<rparr>"
    using assms by (simp add: cid_wf_def)
  then show ?thesis
    using assms by (simp add: cid_from_buf_def try_copy_to_slice_def cid_wf_def MAX_CID_SIZE_def)
qed

context bytes_crate
begin

lemma cid_encode_eq [codec_simps]:
  "cid_encode B cid = put_slice (be_put B 1 (cid_len cid) @ cid_deref cid)"
  by (rule ext) (simp add: cid_encode_def put_uint_def codec_simps)

lemma cid_decode_encode [codec_simps]:
  assumes "cid_wf cid"
  shows "cid_decode B (be_put B 1 (cid_len cid) @ cid_deref cid @ rest) = Ok (cid, rest)"
  using assms cid_from_buf_deref [OF assms, of rest] try_get_uint_put [of "cid_len cid" 1]
  by (simp add: cid_decode_def cid_wf_def MAX_CID_SIZE_def)

end

section \<open>Properties\<close>

text \<open>
  Stream identifiers carry their initiator, direction and index without loss: the three
  accessors recover what \<open>new\<close> packed, and packing them again gives the identifier.
\<close>

lemma stream_id_roundtrip:
  assumes "index < 2 ^ 62" "sid < 2 ^ 64"
  shows "initiator (stream_id_new s d index) = s \<and> stream_dir (stream_id_new s d index) = d \<and>
    stream_index (stream_id_new s d index) = index \<and>
    stream_id_new (initiator sid) (stream_dir sid) (stream_index sid) = sid"
  using stream_id_components [OF assms(1)] stream_id_rebuild [OF assms(2)] by simp

end
