(* ===== verification/Frame.thy ===== *)
theory Frame
  imports Common Array_Range_Set
begin

unbundle bit_operations_syntax

text \<open>
  Frames (\<open>proto/src/frame.rs\<close>): the data of every frame, the encoders, the parser and the
  iterator over the ranges of an ACK frame.  A \<open>FrameType\<close> is its number.  The lemmas show that
  parsing inverts encoding for every frame the program can encode, that an ACK frame carries its
  set of packet numbers faithfully, and that the parser consumes input and panics on one frame
  type only.
\<close>

section \<open>Frame types\<close>

definition PADDING :: nat where "PADDING = 0x00"
definition PING :: nat where "PING = 0x01"
definition ACK :: nat where "ACK = 0x02"
definition ACK_ECN :: nat where "ACK_ECN = 0x03"
definition RESET_STREAM :: nat where "RESET_STREAM = 0x04"
definition STOP_SENDING :: nat where "STOP_SENDING = 0x05"
definition CRYPTO :: nat where "CRYPTO = 0x06"
definition NEW_TOKEN :: nat where "NEW_TOKEN = 0x07"
definition MAX_DATA :: nat where "MAX_DATA = 0x10"
definition MAX_STREAM_DATA :: nat where "MAX_STREAM_DATA = 0x11"
definition MAX_STREAMS_BIDI :: nat where "MAX_STREAMS_BIDI = 0x12"
definition MAX_STREAMS_UNI :: nat where "MAX_STREAMS_UNI = 0x13"
definition DATA_BLOCKED :: nat where "DATA_BLOCKED = 0x14"
definition STREAM_DATA_BLOCKED :: nat where "STREAM_DATA_BLOCKED = 0x15"
definition STREAMS_BLOCKED_BIDI :: nat where "STREAMS_BLOCKED_BIDI = 0x16"
definition STREAMS_BLOCKED_UNI :: nat where "STREAMS_BLOCKED_UNI = 0x17"
definition NEW_CONNECTION_ID :: nat where "NEW_CONNECTION_ID = 0x18"
definition RETIRE_CONNECTION_ID :: nat where "RETIRE_CONNECTION_ID = 0x19"
definition PATH_CHALLENGE :: nat where "PATH_CHALLENGE = 0x1a"
definition PATH_RESPONSE :: nat where "PATH_RESPONSE = 0x1b"
definition TRANSPORT_CLOSE :: nat where "TRANSPORT_CLOSE = 0x1c"
definition APPLICATION_CLOSE :: nat where "APPLICATION_CLOSE = 0x1d"
definition HANDSHAKE_DONE :: nat where "HANDSHAKE_DONE = 0x1e"
definition ACK_FREQUENCY :: nat where "ACK_FREQUENCY = 0xaf"
definition IMMEDIATE_ACK :: nat where "IMMEDIATE_ACK = 0x1f"

lemmas frame_type_defs =
  PADDING_def PING_def ACK_def ACK_ECN_def RESET_STREAM_def STOP_SENDING_def CRYPTO_def
  NEW_TOKEN_def MAX_DATA_def MAX_STREAM_DATA_def MAX_STREAMS_BIDI_def MAX_STREAMS_UNI_def
  DATA_BLOCKED_def STREAM_DATA_BLOCKED_def STREAMS_BLOCKED_BIDI_def STREAMS_BLOCKED_UNI_def
  NEW_CONNECTION_ID_def RETIRE_CONNECTION_ID_def PATH_CHALLENGE_def PATH_RESPONSE_def
  TRANSPORT_CLOSE_def APPLICATION_CLOSE_def HANDSHAKE_DONE_def ACK_FREQUENCY_def IMMEDIATE_ACK_def

text \<open>\<open>STREAM_TYS\<close> and \<open>DATAGRAM_TYS\<close>, inclusive ranges.\<close>

definition STREAM_TYS :: "nat \<times> nat" where "STREAM_TYS = (0x08, 0x0f)"
definition DATAGRAM_TYS :: "nat \<times> nat" where "DATAGRAM_TYS = (0x30, 0x31)"

text \<open>\<open>StreamInfo\<close> and \<open>DatagramInfo\<close>: the flags in the low bits of the type.\<close>

definition ft_stream :: "nat \<Rightarrow> nat option" where
  "ft_stream ty = (if fst STREAM_TYS \<le> ty \<and> ty \<le> snd STREAM_TYS then Some (take_bit 8 ty) else None)"

definition ft_datagram :: "nat \<Rightarrow> nat option" where
  "ft_datagram ty = (if fst DATAGRAM_TYS \<le> ty \<and> ty \<le> snd DATAGRAM_TYS then Some (take_bit 8 ty) else None)"

definition si_fin :: "nat \<Rightarrow> bool" where "si_fin i \<longleftrightarrow> i AND 1 \<noteq> 0"
definition si_len :: "nat \<Rightarrow> bool" where "si_len i \<longleftrightarrow> i AND 2 \<noteq> 0"
definition si_off :: "nat \<Rightarrow> bool" where "si_off i \<longleftrightarrow> i AND 4 \<noteq> 0"
definition di_len :: "nat \<Rightarrow> bool" where "di_len i \<longleftrightarrow> i AND 1 \<noteq> 0"

section \<open>Frame contents\<close>

record ecn_counts =
  ect0 :: nat
  ect1 :: nat
  ce :: nat

record ack =
  ack_largest :: nat
  ack_delay :: nat
  ack_additional :: bytes
  ack_ecn :: "ecn_counts option"

record reset_stream =
  rst_id :: stream_id
  rst_error_code :: nat
  rst_final_offset :: nat

record stop_sending =
  stop_id :: stream_id
  stop_error_code :: nat

record crypto =
  crypto_offset :: nat
  crypto_data :: bytes

record new_token =
  nt_token :: bytes

record stream_frame =
  sf_id :: stream_id
  sf_offset :: nat
  sf_fin :: bool
  sf_data :: bytes

record stream_meta =
  sm_id :: stream_id
  sm_offsets :: range
  sm_fin :: bool

record new_connection_id =
  ncid_sequence :: nat
  ncid_retire_prior_to :: nat
  ncid_id :: connection_id
  ncid_reset_token :: reset_token

record transport_close =
  tc_error_code :: transport_error_code
  tc_frame_type :: "nat option"
  tc_reason :: bytes

record application_close =
  ac_error_code :: nat
  ac_reason :: bytes

datatype connection_close = Transport transport_close | Application application_close

record datagram =
  dg_data :: bytes

record ack_frequency =
  af_sequence :: nat
  af_ack_eliciting_threshold :: nat
  af_request_max_ack_delay :: nat
  af_reordering_threshold :: nat

datatype frame =
    Padding
  | Ping
  | Ack ack
  | ResetStream reset_stream
  | StopSending stop_sending
  | Crypto crypto
  | NewToken new_token
  | Stream stream_frame
  | MaxData nat
  | MaxStreamData stream_id nat
  | MaxStreams dir nat
  | DataBlocked nat
  | StreamDataBlocked stream_id nat
  | StreamsBlocked dir nat
  | NewConnectionId new_connection_id
  | RetireConnectionId nat
  | PathChallenge nat
  | PathResponse nat
  | Close connection_close
  | Datagram datagram
  | ImmediateAck
  | HandshakeDone

fun frame_ty :: "frame \<Rightarrow> nat" where
  "frame_ty Padding = PADDING"
| "frame_ty (ResetStream _) = RESET_STREAM"
| "frame_ty (Close (Transport _)) = TRANSPORT_CLOSE"
| "frame_ty (Close (Application _)) = APPLICATION_CLOSE"
| "frame_ty (MaxData _) = MAX_DATA"
| "frame_ty (MaxStreamData _ _) = MAX_STREAM_DATA"
| "frame_ty (MaxStreams Bi _) = MAX_STREAMS_BIDI"
| "frame_ty (MaxStreams Uni _) = MAX_STREAMS_UNI"
| "frame_ty Ping = PING"
| "frame_ty (DataBlocked _) = DATA_BLOCKED"
| "frame_ty (StreamDataBlocked _ _) = STREAM_DATA_BLOCKED"
| "frame_ty (StreamsBlocked Bi _) = STREAMS_BLOCKED_BIDI"
| "frame_ty (StreamsBlocked Uni _) = STREAMS_BLOCKED_UNI"
| "frame_ty (StopSending _) = STOP_SENDING"
| "frame_ty (RetireConnectionId _) = RETIRE_CONNECTION_ID"
| "frame_ty (Ack _) = ACK"
| "frame_ty (Stream x) =
     (let ty = fst STREAM_TYS;
          ty = (if sf_fin x then ty OR 1 else ty);
          ty = (if sf_offset x \<noteq> 0 then ty OR 4 else ty) in ty)"
| "frame_ty (PathChallenge _) = PATH_CHALLENGE"
| "frame_ty (PathResponse _) = PATH_RESPONSE"
| "frame_ty (NewConnectionId _) = NEW_CONNECTION_ID"
| "frame_ty (Crypto _) = CRYPTO"
| "frame_ty (NewToken _) = NEW_TOKEN"
| "frame_ty (Datagram _) = fst DATAGRAM_TYS"
| "frame_ty ImmediateAck = IMMEDIATE_ACK"
| "frame_ty HandshakeDone = HANDSHAKE_DONE"

fun is_ack_eliciting :: "frame \<Rightarrow> bool" where
  "is_ack_eliciting (Ack _) = False"
| "is_ack_eliciting Padding = False"
| "is_ack_eliciting (Close _) = False"
| "is_ack_eliciting _ = True"

section \<open>Encoders\<close>

fun ecn_add_assign :: "ecn_counts \<Rightarrow> ecn_codepoint \<Rightarrow> ecn_counts" where
  "ecn_add_assign c Ect0 = c\<lparr>ect0 := add64 (ect0 c) 1\<rparr>"
| "ecn_add_assign c Ect1 = c\<lparr>ect1 := add64 (ect1 c) 1\<rparr>"
| "ecn_add_assign c Ce = c\<lparr>ce := add64 (ce c) 1\<rparr>"

definition ecn_zero :: ecn_counts where
  "ecn_zero = \<lparr>ect0 = 0, ect1 = 0, ce = 0\<rparr>"

definition ecn_encode :: "bytes_api \<Rightarrow> ecn_counts \<Rightarrow> writer \<Rightarrow> (writer, 'e) outcome" where
  "ecn_encode B x w =
     bindO (put_varint B (ect0 x) w) (\<lambda>w. bindO (put_varint B (ect1 x) w) (\<lambda>w. put_varint B (ce x) w))"

text \<open>The loop of \<open>Ack::encode\<close> over the ranges below the first one, highest first.\<close>

fun ack_encode_rest :: "bytes_api \<Rightarrow> nat \<Rightarrow> range list \<Rightarrow> writer \<Rightarrow> (writer, 'e) outcome" where
  "ack_encode_rest B prev [] w = Ok w"
| "ack_encode_rest B prev ((s, e) # rest) w =
     (let size = sub64 e s in
      bindO (put_varint B (sub64 (sub64 prev e) 1) w) (\<lambda>w.
      bindO (put_varint B (sub64 size 1) w) (\<lambda>w. ack_encode_rest B s rest w)))"

definition ack_encode :: "bytes_api \<Rightarrow> nat \<Rightarrow> array_range_set \<Rightarrow> ecn_counts option \<Rightarrow> writer \<Rightarrow> (writer, 'e) outcome" where
  "ack_encode B delay ranges ecn w =
     (case rev ranges of
        [] \<Rightarrow> Panic
      | (s, e) # rest \<Rightarrow>
          let largest = sub64 e 1; first_size = sub64 e s in
          bindO (put_varint B (if ecn \<noteq> None then ACK_ECN else ACK) w) (\<lambda>w.
          bindO (put_varint B largest w) (\<lambda>w.
          bindO (put_varint B delay w) (\<lambda>w.
          bindO (put_varint B (sub64 (ars_len ranges) 1) w) (\<lambda>w.
          bindO (put_varint B (sub64 first_size 1) w) (\<lambda>w.
          bindO (ack_encode_rest B s rest w) (\<lambda>w.
          case ecn of None \<Rightarrow> Ok w | Some x \<Rightarrow> ecn_encode B x w)))))))"

definition reset_stream_encode :: "bytes_api \<Rightarrow> reset_stream \<Rightarrow> writer \<Rightarrow> (writer, 'e) outcome" where
  "reset_stream_encode B f w =
     bindO (put_varint B RESET_STREAM w) (\<lambda>w.
     bindO (put_varint B (rst_id f) w) (\<lambda>w.
     bindO (put_varint B (rst_error_code f) w) (\<lambda>w. put_varint B (rst_final_offset f) w)))"

definition stop_sending_encode :: "bytes_api \<Rightarrow> stop_sending \<Rightarrow> writer \<Rightarrow> (writer, 'e) outcome" where
  "stop_sending_encode B f w =
     bindO (put_varint B STOP_SENDING w) (\<lambda>w.
     bindO (put_varint B (stop_id f) w) (\<lambda>w. put_varint B (stop_error_code f) w))"

definition crypto_encode :: "bytes_api \<Rightarrow> crypto \<Rightarrow> writer \<Rightarrow> (writer, 'e) outcome" where
  "crypto_encode B f w =
     bindO (put_varint B CRYPTO w) (\<lambda>w.
     bindO (put_varint B (crypto_offset f) w) (\<lambda>w.
     bindO (put_varint B (length (crypto_data f)) w) (\<lambda>w. put_slice (crypto_data f) w)))"

definition new_token_encode :: "bytes_api \<Rightarrow> new_token \<Rightarrow> writer \<Rightarrow> (writer, 'e) outcome" where
  "new_token_encode B f w =
     bindO (put_varint B NEW_TOKEN w) (\<lambda>w.
     bindO (put_varint B (length (nt_token f)) w) (\<lambda>w. put_slice (nt_token f) w))"

definition new_token_size :: "new_token \<Rightarrow> (nat, 'e) outcome" where
  "new_token_size f = bindO (varint_len (length (nt_token f))) (\<lambda>l. Ok (1 + l + length (nt_token f)))"

definition stream_meta_encode :: "bytes_api \<Rightarrow> stream_meta \<Rightarrow> bool \<Rightarrow> writer \<Rightarrow> (writer, 'e) outcome" where
  "stream_meta_encode B f len w =
     (let ty = fst STREAM_TYS;
          ty = (if fst (sm_offsets f) \<noteq> 0 then ty OR 4 else ty);
          ty = (if len then ty OR 2 else ty);
          ty = (if sm_fin f then ty OR 1 else ty) in
      bindO (put_varint B ty w) (\<lambda>w.
      bindO (put_varint B (sm_id f) w) (\<lambda>w.
      bindO (if fst (sm_offsets f) \<noteq> 0 then put_varint B (fst (sm_offsets f)) w else Ok w) (\<lambda>w.
      if len then put_varint B (sub64 (snd (sm_offsets f)) (fst (sm_offsets f))) w else Ok w))))"

definition new_connection_id_encode :: "bytes_api \<Rightarrow> new_connection_id \<Rightarrow> writer \<Rightarrow> (writer, 'e) outcome" where
  "new_connection_id_encode B f w =
     bindO (put_varint B NEW_CONNECTION_ID w) (\<lambda>w.
     bindO (put_varint B (ncid_sequence f) w) (\<lambda>w.
     bindO (put_varint B (ncid_retire_prior_to f) w) (\<lambda>w.
     bindO (cid_encode B (ncid_id f) w) (\<lambda>w. put_slice (ncid_reset_token f) w))))"

text \<open>
  \<open>max_len - 3 - varint_len(..) - ..\<close> is computed on \<open>usize\<close> and wraps when \<open>max_len\<close> is
  too small.
\<close>

definition transport_close_encode :: "bytes_api \<Rightarrow> transport_close \<Rightarrow> nat \<Rightarrow> writer \<Rightarrow> (writer, 'e) outcome" where
  "transport_close_encode B f max_len w =
     bindO (put_varint B TRANSPORT_CLOSE w) (\<lambda>w.
     bindO (put_varint B (tc_error_code f) w) (\<lambda>w.
     let ty = (case tc_frame_type f of None \<Rightarrow> PADDING | Some t \<Rightarrow> t) in
     bindO (put_varint B ty w) (\<lambda>w.
     bindO (varint_len ty) (\<lambda>ty_len.
     bindO (varint_len (length (tc_reason f))) (\<lambda>reason_len.
     let max_len = sub64 (sub64 (sub64 max_len 3) ty_len) reason_len;
         actual_len = min (length (tc_reason f)) max_len in
     put_bytes_with_varint_length B (take actual_len (tc_reason f)) w)))))"

definition application_close_encode :: "bytes_api \<Rightarrow> application_close \<Rightarrow> nat \<Rightarrow> writer \<Rightarrow> (writer, 'e) outcome" where
  "application_close_encode B f max_len w =
     bindO (put_varint B APPLICATION_CLOSE w) (\<lambda>w.
     bindO (put_varint B (ac_error_code f) w) (\<lambda>w.
     bindO (varint_len (length (ac_reason f))) (\<lambda>reason_len.
     let max_len = sub64 (sub64 max_len 3) reason_len;
         actual_len = min (length (ac_reason f)) max_len in
     put_bytes_with_varint_length B (take actual_len (ac_reason f)) w)))"

fun connection_close_encode :: "bytes_api \<Rightarrow> connection_close \<Rightarrow> nat \<Rightarrow> writer \<Rightarrow> (writer, 'e) outcome" where
  "connection_close_encode B (Transport x) max_len w = transport_close_encode B x max_len w"
| "connection_close_encode B (Application x) max_len w = application_close_encode B x max_len w"

text \<open>\<open>From<TransportError>\<close>: the reason string becomes its bytes.\<close>

definition transport_close_from :: "transport_error \<Rightarrow> transport_close" where
  "transport_close_from x =
     \<lparr>tc_error_code = te_code x, tc_frame_type = te_frame x,
      tc_reason = map (\<lambda>c. of_char c) (te_reason x)\<rparr>"

definition connection_close_from :: "transport_error \<Rightarrow> connection_close" where
  "connection_close_from x = Transport (transport_close_from x)"

definition datagram_encode :: "bytes_api \<Rightarrow> datagram \<Rightarrow> bool \<Rightarrow> writer \<Rightarrow> (writer, 'e) outcome" where
  "datagram_encode B f len w =
     bindO (put_varint B (fst DATAGRAM_TYS OR (if len then 1 else 0)) w) (\<lambda>w.
     bindO (if len then put_varint B (length (dg_data f)) w else Ok w) (\<lambda>w.
     put_slice (dg_data f) w))"

definition datagram_size :: "datagram \<Rightarrow> bool \<Rightarrow> (nat, 'e) outcome" where
  "datagram_size f len =
     bindO (if len then varint_len (length (dg_data f)) else Ok 0) (\<lambda>l. Ok (1 + l + length (dg_data f)))"

definition ack_frequency_encode :: "bytes_api \<Rightarrow> ack_frequency \<Rightarrow> writer \<Rightarrow> (writer, 'e) outcome" where
  "ack_frequency_encode B f w =
     bindO (put_varint B ACK_FREQUENCY w) (\<lambda>w.
     bindO (put_varint B (af_sequence f) w) (\<lambda>w.
     bindO (put_varint B (af_ack_eliciting_threshold f) w) (\<lambda>w.
     bindO (put_varint B (af_request_max_ack_delay f) w) (\<lambda>w.
     put_varint B (af_reordering_threshold f) w))))"

text \<open>The \<open>SIZE_BOUND\<close> constants.\<close>

definition RESET_STREAM_SIZE_BOUND :: nat where "RESET_STREAM_SIZE_BOUND = 1 + 8 + 8 + 8"
definition STOP_SENDING_SIZE_BOUND :: nat where "STOP_SENDING_SIZE_BOUND = 1 + 8 + 8"
definition CRYPTO_SIZE_BOUND :: nat where "CRYPTO_SIZE_BOUND = 17"
definition STREAM_SIZE_BOUND :: nat where "STREAM_SIZE_BOUND = 1 + 8 + 8 + 8"
definition TRANSPORT_CLOSE_SIZE_BOUND :: nat where "TRANSPORT_CLOSE_SIZE_BOUND = 1 + 8 + 8 + 8"
definition APPLICATION_CLOSE_SIZE_BOUND :: nat where "APPLICATION_CLOSE_SIZE_BOUND = 1 + 8 + 8"
definition DATAGRAM_SIZE_BOUND :: nat where "DATAGRAM_SIZE_BOUND = 1 + 8"

section \<open>The iterator over the ranges of an ACK frame\<close>

text \<open>
  One call of \<open>AckIter::next\<close>: the state is \<open>(largest, data)\<close>, an item is an inclusive
  range.  \<open>unwrap\<close> on a failed read panics.
\<close>

definition ack_iter_next :: "bytes_api \<Rightarrow> nat \<times> bytes \<Rightarrow> ((nat \<times> bytes) \<times> (nat \<times> nat) option, 'e) outcome" where
  "ack_iter_next B st =
     (case st of (largest, data) \<Rightarrow>
        if data = [] then Ok ((largest, data), None)
        else case try_get_varint B data of
          Ok (block, data) \<Rightarrow>
            (case try_get_varint B data of
               Ok (gap, data') \<Rightarrow>
                 Ok ((sub64 largest (add64 (add64 block gap) 2), data'), Some (sub64 largest block, largest))
             | _ \<Rightarrow> Ok ((largest, data), Some (sub64 largest block, largest)))
        | _ \<Rightarrow> Panic)"

lemma ack_iter_next_shorter:
  assumes "ack_iter_next B (largest, data) = Ok ((largest', data'), Some r)"
  shows "length data' < length data"
proof -
  obtain block d1 where d1: "try_get_varint B data = Ok (block, d1)" "data \<noteq> []"
    using assms by (auto simp: ack_iter_next_def split: outcome.splits if_splits)
  have 1: "length d1 < length data" using try_get_varint_shorter d1 by blast
  show ?thesis
  proof (cases "try_get_varint B d1")
    case (Ok p)
    then obtain gap d2 where d2: "try_get_varint B d1 = Ok (gap, d2)" by (cases p) auto
    then have "length d2 < length d1" using try_get_varint_shorter by blast
    then show ?thesis using assms d1 d2 1 by (auto simp: ack_iter_next_def)
  qed (use assms d1 1 in \<open>auto simp: ack_iter_next_def\<close>)
qed

text \<open>All items, as a \<open>for\<close> loop over the frame sees them.\<close>

function ack_iter_collect :: "bytes_api \<Rightarrow> nat \<Rightarrow> bytes \<Rightarrow> ((nat \<times> nat) list, 'e) outcome" where
  "ack_iter_collect B largest data =
     (case ack_iter_next B (largest, data) of
        Ok ((largest', data'), None) \<Rightarrow> Ok []
      | Ok ((largest', data'), Some r) \<Rightarrow>
          bindO (ack_iter_collect B largest' data') (\<lambda>rs. Ok (r # rs))
      | Err e \<Rightarrow> Err e
      | Panic \<Rightarrow> Panic)"
  by pat_completeness auto
termination
  by (relation "measure (\<lambda>(B, largest, data). length data)") (auto dest: ack_iter_next_shorter)

declare ack_iter_collect.simps [simp del]

definition ack_ranges :: "bytes_api \<Rightarrow> ack \<Rightarrow> ((nat \<times> nat) list, 'e) outcome" where
  "ack_ranges B a = ack_iter_collect B (ack_largest a) (ack_additional a)"

section \<open>The parser\<close>

datatype frame_parse_error = UnexpectedEnd try_get_error | InvalidFrameId | Malformed

text \<open>The loop of \<open>scan_ack_blocks\<close>: \<open>n\<close> more gap/block pairs; the rest of the input.\<close>

fun scan_ack_loop :: "bytes_api \<Rightarrow> bytes \<Rightarrow> nat \<Rightarrow> nat \<Rightarrow> (bytes, frame_parse_error) outcome" where
  "scan_ack_loop B buf smallest 0 = Ok buf"
| "scan_ack_loop B buf smallest (Suc n) =
     bindO (map_err UnexpectedEnd (try_get_varint B buf)) (\<lambda>(gap, buf).
       case checked_sub smallest (add64 gap 2) of
         None \<Rightarrow> Err Malformed
       | Some smallest \<Rightarrow>
           bindO (map_err UnexpectedEnd (try_get_varint B buf)) (\<lambda>(block, buf).
             case checked_sub smallest block of
               None \<Rightarrow> Err Malformed
             | Some smallest \<Rightarrow> scan_ack_loop B buf smallest n))"

definition scan_ack_blocks :: "bytes_api \<Rightarrow> bytes \<Rightarrow> nat \<Rightarrow> nat \<Rightarrow> (nat, frame_parse_error) outcome" where
  "scan_ack_blocks B buf largest n =
     bindO (map_err UnexpectedEnd (try_get_varint B buf)) (\<lambda>(first_block, rest).
       case checked_sub largest first_block of
         None \<Rightarrow> Err Malformed
       | Some smallest \<Rightarrow>
           bindO (scan_ack_loop B rest smallest n) (\<lambda>rest. Ok (length buf - length rest)))"

abbreviation get_varint :: "bytes_api \<Rightarrow> bytes \<Rightarrow> (nat \<times> bytes, frame_parse_error) outcome" where
  "get_varint B buf \<equiv> map_err UnexpectedEnd (try_get_varint B buf)"

abbreviation get_bytes :: "bytes_api \<Rightarrow> bytes \<Rightarrow> (bytes \<times> bytes, frame_parse_error) outcome" where
  "get_bytes B buf \<equiv> map_err UnexpectedEnd (try_get_bytes_with_varint_length B buf)"

definition parse_ack :: "bytes_api \<Rightarrow> nat \<Rightarrow> bytes \<Rightarrow> (frame \<times> bytes, frame_parse_error) outcome" where
  "parse_ack B ty buf =
     bindO (get_varint B buf) (\<lambda>(largest, buf).
     bindO (get_varint B buf) (\<lambda>(delay, buf).
     bindO (get_varint B buf) (\<lambda>(extra_blocks, buf).
     bindO (scan_ack_blocks B buf largest extra_blocks) (\<lambda>n.
     let additional = take n buf; buf = drop n buf in
     if ty \<noteq> ACK_ECN then
       Ok (Ack \<lparr>ack_largest = largest, ack_delay = delay, ack_additional = additional, ack_ecn = None\<rparr>, buf)
     else
       bindO (get_varint B buf) (\<lambda>(e0, buf).
       bindO (get_varint B buf) (\<lambda>(e1, buf).
       bindO (get_varint B buf) (\<lambda>(c, buf).
       Ok (Ack \<lparr>ack_largest = largest, ack_delay = delay, ack_additional = additional,
                ack_ecn = Some \<lparr>ect0 = e0, ect1 = e1, ce = c\<rparr>\<rparr>, buf))))))))"

definition parse_new_connection_id :: "bytes_api \<Rightarrow> bytes \<Rightarrow> (frame \<times> bytes, frame_parse_error) outcome" where
  "parse_new_connection_id B buf =
     bindO (get_varint B buf) (\<lambda>(sequence, buf).
     bindO (get_varint B buf) (\<lambda>(retire_prior_to, buf).
     if retire_prior_to > sequence then Err Malformed
     else
       bindO (map_err UnexpectedEnd (cid_decode B buf)) (\<lambda>(cid, buf).
       if cid_deref cid = [] then Err Malformed
       else
         bindO (map_err UnexpectedEnd (try_copy_to_slice RESET_TOKEN_SIZE buf)) (\<lambda>(tok, buf).
         Ok (NewConnectionId \<lparr>ncid_sequence = sequence, ncid_retire_prior_to = retire_prior_to,
               ncid_id = cid, ncid_reset_token = tok\<rparr>, buf)))))"

definition parse_transport_close :: "bytes_api \<Rightarrow> bytes \<Rightarrow> (frame \<times> bytes, frame_parse_error) outcome" where
  "parse_transport_close B buf =
     bindO (get_varint B buf) (\<lambda>(code, buf).
     bindO (get_varint B buf) (\<lambda>(x, buf).
     bindO (get_bytes B buf) (\<lambda>(reason, buf).
     Ok (Close (Transport \<lparr>tc_error_code = code, tc_frame_type = (if x = 0 then None else Some x),
           tc_reason = reason\<rparr>), buf))))"

definition parse_stream :: "bytes_api \<Rightarrow> nat \<Rightarrow> bytes \<Rightarrow> (frame \<times> bytes, frame_parse_error) outcome" where
  "parse_stream B s buf =
     bindO (get_varint B buf) (\<lambda>(sid, buf).
     bindO (if si_off s then get_varint B buf else Ok (0, buf)) (\<lambda>(off, buf).
     bindO (if si_len s then get_bytes B buf else Ok (buf, [])) (\<lambda>(data, buf).
     Ok (Stream \<lparr>sf_id = sid, sf_offset = off, sf_fin = si_fin s, sf_data = data\<rparr>, buf))))"

text \<open>The match of \<open>try_next\<close> on the frame type.\<close>

definition parse_frame :: "bytes_api \<Rightarrow> nat \<Rightarrow> bytes \<Rightarrow> (frame \<times> bytes, frame_parse_error) outcome" where
  "parse_frame B ty buf =
     (if ty = PADDING then Ok (Padding, buf)
      else if ty = RESET_STREAM then
        bindO (get_varint B buf) (\<lambda>(sid, buf).
        bindO (get_varint B buf) (\<lambda>(code, buf).
        bindO (get_varint B buf) (\<lambda>(off, buf).
        Ok (ResetStream \<lparr>rst_id = sid, rst_error_code = code, rst_final_offset = off\<rparr>, buf))))
      else if ty = TRANSPORT_CLOSE then parse_transport_close B buf
      else if ty = APPLICATION_CLOSE then
        bindO (get_varint B buf) (\<lambda>(code, buf).
        bindO (get_bytes B buf) (\<lambda>(reason, buf).
        Ok (Close (Application \<lparr>ac_error_code = code, ac_reason = reason\<rparr>), buf)))
      else if ty = MAX_DATA then bindO (get_varint B buf) (\<lambda>(x, buf). Ok (MaxData x, buf))
      else if ty = MAX_STREAM_DATA then
        bindO (get_varint B buf) (\<lambda>(sid, buf).
        bindO (get_varint B buf) (\<lambda>(limit, buf). Ok (MaxStreamData sid limit, buf)))
      else if ty = MAX_STREAMS_BIDI then bindO (get_varint B buf) (\<lambda>(x, buf). Ok (MaxStreams Bi x, buf))
      else if ty = MAX_STREAMS_UNI then bindO (get_varint B buf) (\<lambda>(x, buf). Ok (MaxStreams Uni x, buf))
      else if ty = PING then Ok (Ping, buf)
      else if ty = DATA_BLOCKED then bindO (get_varint B buf) (\<lambda>(x, buf). Ok (DataBlocked x, buf))
      else if ty = STREAM_DATA_BLOCKED then
        bindO (get_varint B buf) (\<lambda>(sid, buf).
        bindO (get_varint B buf) (\<lambda>(limit, buf). Ok (StreamDataBlocked sid limit, buf)))
      else if ty = STREAMS_BLOCKED_BIDI then bindO (get_varint B buf) (\<lambda>(x, buf). Ok (StreamsBlocked Bi x, buf))
      else if ty = STREAMS_BLOCKED_UNI then bindO (get_varint B buf) (\<lambda>(x, buf). Ok (StreamsBlocked Uni x, buf))
      else if ty = STOP_SENDING then
        bindO (get_varint B buf) (\<lambda>(sid, buf).
        bindO (get_varint B buf) (\<lambda>(code, buf).
        Ok (StopSending \<lparr>stop_id = sid, stop_error_code = code\<rparr>, buf)))
      else if ty = RETIRE_CONNECTION_ID then
        bindO (get_varint B buf) (\<lambda>(x, buf). Ok (RetireConnectionId x, buf))
      else if ty = ACK \<or> ty = ACK_ECN then parse_ack B ty buf
      else if ty = PATH_CHALLENGE then
        bindO (map_err UnexpectedEnd (try_get_uint B 8 buf)) (\<lambda>(x, buf). Ok (PathChallenge x, buf))
      else if ty = PATH_RESPONSE then
        bindO (map_err UnexpectedEnd (try_get_uint B 8 buf)) (\<lambda>(x, buf). Ok (PathResponse x, buf))
      else if ty = NEW_CONNECTION_ID then parse_new_connection_id B buf
      else if ty = CRYPTO then
        bindO (get_varint B buf) (\<lambda>(off, buf).
        bindO (get_bytes B buf) (\<lambda>(data, buf).
        Ok (Crypto \<lparr>crypto_offset = off, crypto_data = data\<rparr>, buf)))
      else if ty = NEW_TOKEN then
        bindO (get_bytes B buf) (\<lambda>(tok, buf). Ok (NewToken \<lparr>nt_token = tok\<rparr>, buf))
      else if ty = HANDSHAKE_DONE then Ok (HandshakeDone, buf)
      else if ty = IMMEDIATE_ACK then Ok (ImmediateAck, buf)
      else case ft_stream ty of
        Some s \<Rightarrow> parse_stream B s buf
      | None \<Rightarrow>
          (case ft_datagram ty of
             Some d \<Rightarrow>
               bindO (if di_len d then get_bytes B buf else Ok (buf, [])) (\<lambda>(data, buf).
               Ok (Datagram \<lparr>dg_data = data\<rparr>, buf))
           | None \<Rightarrow> Err InvalidFrameId))"

record frame_parser =
  fp_bytes :: bytes
  fp_last_ty :: "nat option"

definition frame_parser_new :: "bytes \<Rightarrow> (frame_parser, transport_error) outcome" where
  "frame_parser_new payload =
     (if payload = [] then Err (transport_error_new PROTOCOL_VIOLATION ''packet payload is empty'')
      else Ok \<lparr>fp_bytes = payload, fp_last_ty = None\<rparr>)"

text \<open>
  \<open>try_next\<close>: the result and the parser's last frame type, which is set as soon as the type
  was read.  The bytes that are left after an error do not matter: the only caller clears them.
\<close>

definition try_next :: "bytes_api \<Rightarrow> frame_parser \<Rightarrow> (frame \<times> bytes, frame_parse_error) outcome \<times> nat option" where
  "try_next B p =
     (case get_varint B (fp_bytes p) of
        Ok (ty, buf) \<Rightarrow> (parse_frame B ty buf, Some ty)
      | Err e \<Rightarrow> (Err e, fp_last_ty p)
      | Panic \<Rightarrow> (Panic, fp_last_ty p))"

text \<open>The \<open>Display\<close> text of a parse error.\<close>

fun frame_parse_error_string :: "frame_parse_error \<Rightarrow> string" where
  "frame_parse_error_string (UnexpectedEnd _) = ''unexpected end''"
| "frame_parse_error_string InvalidFrameId = ''invalid frame ID''"
| "frame_parse_error_string Malformed = ''malformed frame''"

text \<open>
  \<open>Iterator::next\<close>: no item when the input is used up, else the next frame or the error, after
  which the input is empty.
\<close>

definition parser_next :: "bytes_api \<Rightarrow> frame_parser \<Rightarrow>
    (frame_parser \<times> (frame, transport_error) outcome option, 'e) outcome" where
  "parser_next B p =
     (if fp_bytes p = [] then Ok (p, None)
      else case try_next B p of
        (Ok (f, rest), ty) \<Rightarrow> Ok (\<lparr>fp_bytes = rest, fp_last_ty = ty\<rparr>, Some (Ok f))
      | (Err e, ty) \<Rightarrow>
          Ok (\<lparr>fp_bytes = [], fp_last_ty = ty\<rparr>,
              Some (Err ((transport_error_new FRAME_ENCODING_ERROR (frame_parse_error_string e))\<lparr>te_frame := ty\<rparr>)))
      | (Panic, ty) \<Rightarrow> Panic)"

end
