(* ===== verification/Frame_Codec.thy ===== *)
theory Frame_Codec
  imports Frame
begin

unbundle bit_operations_syntax

text \<open>
  The frame encoders and the frame parser of \<open>Frame\<close> are inverse, the parser only ever consumes
  input, and an ACK frame that the parser accepts can be iterated without a panic or wrap-around.
\<close>

section \<open>Reading is local\<close>

text \<open>\<open>reads f buf x rest\<close>: the reader used a prefix of the input and nothing behind it.\<close>

definition reads :: "(bytes \<Rightarrow> ('a \<times> bytes, 'e) outcome) \<Rightarrow> bytes \<Rightarrow> 'a \<Rightarrow> bytes \<Rightarrow> bool" where
  "reads f buf x rest \<longleftrightarrow> (\<exists>pre. buf = pre @ rest \<and> (\<forall>t. f (pre @ t) = Ok (x, t)))"

lemma try_get_uint_local: "try_get_uint B n buf = Ok (v, rest) \<Longrightarrow> reads (try_get_uint B n) buf v rest"
  unfolding reads_def
  by (rule exI [of _ "take n buf"]) (auto simp: try_get_uint_def split: if_splits)

lemma try_get_varint_eq:
  assumes "buf \<noteq> []" "k = varint_parse_len (hd buf)"
  shows "try_get_varint B buf =
    bindO (try_get_uint B k buf) (\<lambda>(x, buf). Ok (x AND mask (8 * k - 2), buf))"
  using varint_parse_len_cases [of "hd buf"] assms
  by (cases buf) (auto simp: try_get_varint_def varint_max_masks Let_def)

lemma try_get_varint_local:
  assumes "try_get_varint B buf = Ok (v, rest)"
  shows "reads (try_get_varint B) buf v rest"
proof -
  have ne: "buf \<noteq> []" using assms by (auto simp: try_get_varint_def)
  define k where "k = varint_parse_len (hd buf)"
  have pos: "0 < k" using varint_parse_len_cases [of "hd buf"] by (auto simp: k_def)
  have len: "k \<le> length buf" and rest: "rest = drop k buf"
    using assms by (auto simp: try_get_varint_eq [OF ne k_def] try_get_uint_def split: if_splits)
  have ne': "take k buf @ t \<noteq> []" and hd: "k = varint_parse_len (hd (take k buf @ t))" for t
    using pos ne k_def by simp_all
  have "try_get_varint B (take k buf @ t) = Ok (v, t)" for t
    using assms len
    by (auto simp: try_get_varint_eq [OF ne' hd] try_get_varint_eq [OF ne k_def] try_get_uint_def)
  then show ?thesis unfolding reads_def using rest by (intro exI [of _ "take k buf"]) auto
qed

section \<open>The ranges of an ACK frame\<close>

text \<open>The ranges of an ACK, highest first, below \<open>p\<close> and never adjacent.\<close>

fun ranges_below :: "nat \<Rightarrow> range list \<Rightarrow> bool" where
  "ranges_below p [] = True"
| "ranges_below p ((s, e) # rs) = (s < e \<and> e < p \<and> ranges_below s rs)"

lemma ranges_below_snoc:
  "ranges_below p (xs @ [(s, e)]) \<longleftrightarrow>
     ranges_below p xs \<and> s < e \<and> e < (if xs = [] then p else fst (last xs))"
  by (induction p xs rule: ranges_below.induct) auto

lemma ranges_below_rev:
  "wf_from lo rs \<Longrightarrow> (rs \<noteq> [] \<Longrightarrow> snd (last rs) < p) \<Longrightarrow> ranges_below p (rev rs)"
proof (induction lo rs rule: wf_from.induct)
  case (2 lo s e rs)
  have "e < (if rs = [] then p else fst (hd rs))"
    using 2 by (cases rs rule: elems.cases) auto
  then show ?case using 2 by (auto simp: ranges_below_snoc last_rev split: if_splits)
qed simp

lemma ranges_below_length: "ranges_below p rs \<Longrightarrow> length rs \<le> p"
  by (induction p rs rule: ranges_below.induct) auto

definition inclusive :: "range \<Rightarrow> nat \<times> nat" where
  "inclusive r = (fst r, snd r - 1)"

text \<open>Inclusive ranges below \<open>p\<close>, highest first, with a gap between two of them.\<close>

fun acked_wf :: "nat \<Rightarrow> (nat \<times> nat) list \<Rightarrow> bool" where
  "acked_wf p [] = True"
| "acked_wf p ((a, b) # rs) = (a \<le> b \<and> b < p \<and> acked_wf (a - 1) rs)"

primrec ack_rest_bytes :: "bytes_api \<Rightarrow> nat \<Rightarrow> range list \<Rightarrow> bytes" where
  "ack_rest_bytes B p [] = []"
| "ack_rest_bytes B p (r # rs) =
     varint_bytes B (p - snd r - 1) @ varint_bytes B (snd r - fst r - 1) @ ack_rest_bytes B (fst r) rs"

definition ecn_bytes :: "bytes_api \<Rightarrow> ecn_counts option \<Rightarrow> bytes" where
  "ecn_bytes B ecn = (case ecn of None \<Rightarrow> []
     | Some x \<Rightarrow> varint_bytes B (ect0 x) @ varint_bytes B (ect1 x) @ varint_bytes B (ce x))"

definition ecn_small :: "ecn_counts option \<Rightarrow> bool" where
  "ecn_small ecn \<longleftrightarrow> (case ecn of None \<Rightarrow> True
     | Some x \<Rightarrow> ect0 x \<le> VARINT_MAX \<and> ect1 x \<le> VARINT_MAX \<and> ce x \<le> VARINT_MAX)"

text \<open>The bytes of the blocks of an ACK frame, and those before them.\<close>

definition ack_additional_bytes :: "bytes_api \<Rightarrow> nat \<Rightarrow> nat \<Rightarrow> range list \<Rightarrow> bytes" where
  "ack_additional_bytes B s e rest = varint_bytes B (e - s - 1) @ ack_rest_bytes B s rest"

definition ack_head_bytes :: "bytes_api \<Rightarrow> nat \<Rightarrow> nat \<Rightarrow> nat \<Rightarrow> bytes" where
  "ack_head_bytes B largest delay extra =
     varint_bytes B largest @ varint_bytes B delay @ varint_bytes B extra"

text \<open>An accepted block list can be iterated: one range per block, all in order.\<close>

lemma scan_ack_loop_collect:
  assumes "scan_ack_loop B buf (largest - block) n = Ok rest"
    and "\<And>t. try_get_varint B (pf @ t) = Ok (block, t)" and "pf \<noteq> []"
    and "block \<le> largest" "largest < 2 ^ 64"
  shows "\<exists>pre rs. buf = pre @ rest \<and> ack_iter_collect B largest (pf @ pre) = (Ok rs :: ((nat \<times> nat) list, 'e) outcome) \<and>
    length rs = Suc n \<and> acked_wf (Suc largest) rs"
  using assms
proof (induction n arbitrary: buf largest block pf)
  case 0
  have "try_get_varint B [] = Err (TryGetError 1 0)" by (simp add: try_get_varint_def)
  then have "ack_iter_collect B largest (pf @ []) = (Ok [(largest - block, largest)] :: ((nat \<times> nat) list, 'e) outcome)"
    using 0 [unfolded append_Nil2] 0(2) [of "[]"]
    by (simp add: ack_iter_collect.simps ack_iter_next_def wrap_simps)
  then show ?case using 0 by (intro exI [of _ "[]"] exI) auto
next
  case (Suc n)
  obtain gap b1 block' b2 where
    g: "try_get_varint B buf = Ok (gap, b1)" "add64 gap 2 \<le> largest - block"
    and b: "try_get_varint B b1 = Ok (block', b2)" "block' \<le> largest - block - add64 gap 2"
      "scan_ack_loop B b2 (largest - block - add64 gap 2 - block') n = Ok rest"
    using Suc.prems(1) by (auto simp: bindO_eq_Ok split: option.splits prod.splits)
  have gap: "gap \<le> VARINT_MAX" using try_get_varint_Ok g(1) by blast
  then have a: "add64 gap 2 = gap + 2" by (simp add: wrap_simps varint_max_values)
  obtain pg where pg: "buf = pg @ b1" "\<And>t. try_get_varint B (pg @ t) = Ok (gap, t)"
    using try_get_varint_local [OF g(1)] unfolding reads_def by auto
  obtain pb where pb: "b1 = pb @ b2" "\<And>t. try_get_varint B (pb @ t) = Ok (block', t)"
    using try_get_varint_local [OF b(1)] unfolding reads_def by auto
  have "pb \<noteq> []" using try_get_varint_shorter [OF b(1)] pb(1) by auto
  moreover have "largest - block - (gap + 2) < 2 ^ 64" using Suc.prems by linarith
  ultimately obtain pre rs where ih: "b2 = pre @ rest"
    "ack_iter_collect B (largest - block - (gap + 2)) (pb @ pre) = (Ok rs :: ((nat \<times> nat) list, 'e) outcome)"
    "length rs = Suc n" "acked_wf (Suc (largest - block - (gap + 2))) rs"
    using Suc.IH [of b2 "largest - block - (gap + 2)" block' pb] b pb(2) a by auto
  have blk: "block + gap + 2 \<le> largest" using g(2) a Suc.prems(4) by linarith
  then have next_largest: "sub64 largest (add64 (add64 block gap) 2) = largest - block - (gap + 2)"
    using Suc.prems(5) by (simp add: wrap_simps)
  have "ack_iter_next B (largest, pf @ pg @ pb @ pre) =
      (Ok ((largest - block - (gap + 2), pb @ pre), Some (largest - block, largest)) ::
        ((nat \<times> bytes) \<times> (nat \<times> nat) option, 'e) outcome)"
    using Suc.prems(2-5) pg(2) next_largest by (simp add: ack_iter_next_def wrap_simps)
  then have "ack_iter_collect B largest (pf @ pg @ pb @ pre) =
      (Ok ((largest - block, largest) # rs) :: ((nat \<times> nat) list, 'e) outcome)"
    using ih(2) by (subst ack_iter_collect.simps) simp
  moreover have "acked_wf (Suc largest) ((largest - block, largest) # rs)"
  proof -
    have "Suc (largest - block - (gap + 2)) \<le> largest - block - 1" using blk by linarith
    moreover have "acked_wf q rs" if "acked_wf p rs" "p \<le> q" for p q rs
      using that by (cases rs) auto
    ultimately show ?thesis using ih(4) by auto
  qed
  ultimately show ?case
    using ih pg(1) pb(1) by (intro exI [of _ "pg @ pb @ pre"] exI) auto
qed

lemma scan_ack_blocks_collect:
  assumes "scan_ack_blocks B buf largest n = Ok k" "largest < 2 ^ 64"
  shows "k \<le> length buf \<and> (\<exists>rs. ack_iter_collect B largest (take k buf) = (Ok rs :: ((nat \<times> nat) list, 'e) outcome) \<and>
    length rs = Suc n \<and> acked_wf (Suc largest) rs)"
proof -
  obtain block b1 rest where b: "try_get_varint B buf = Ok (block, b1)" "block \<le> largest"
    "scan_ack_loop B b1 (largest - block) n = Ok rest" "k = length buf - length rest"
    using assms(1) by (auto simp: scan_ack_blocks_def bindO_eq_Ok split: option.splits prod.splits)
  obtain pf where pf: "buf = pf @ b1" "\<And>t. try_get_varint B (pf @ t) = Ok (block, t)"
    using try_get_varint_local [OF b(1)] unfolding reads_def by auto
  have "pf \<noteq> []" using try_get_varint_shorter [OF b(1)] pf(1) by auto
  then obtain pre rs where "b1 = pre @ rest" "ack_iter_collect B largest (pf @ pre) = (Ok rs :: ((nat \<times> nat) list, 'e) outcome)"
    "length rs = Suc n" "acked_wf (Suc largest) rs"
    using scan_ack_loop_collect [OF b(3) pf(2)] b(2) assms(2) by blast
  moreover from this have "take k buf = pf @ pre" using pf(1) b(4) by simp
  ultimately show ?thesis using b(4) by auto
qed

text \<open>Which parser the type selects.\<close>

lemma parse_frame_by_type:
  "parse_frame B RESET_STREAM buf =
    bindO (get_varint B buf) (\<lambda>(sid, buf). bindO (get_varint B buf) (\<lambda>(code, buf).
    bindO (get_varint B buf) (\<lambda>(off, buf).
    Ok (ResetStream \<lparr>rst_id = sid, rst_error_code = code, rst_final_offset = off\<rparr>, buf))))"
  "parse_frame B STOP_SENDING buf =
    bindO (get_varint B buf) (\<lambda>(sid, buf). bindO (get_varint B buf) (\<lambda>(code, buf).
    Ok (StopSending \<lparr>stop_id = sid, stop_error_code = code\<rparr>, buf)))"
  "parse_frame B TRANSPORT_CLOSE buf = parse_transport_close B buf"
  "parse_frame B APPLICATION_CLOSE buf =
    bindO (get_varint B buf) (\<lambda>(code, buf). bindO (get_bytes B buf) (\<lambda>(reason, buf).
    Ok (Close (Application \<lparr>ac_error_code = code, ac_reason = reason\<rparr>), buf)))"
  "parse_frame B ACK buf = parse_ack B ACK buf"
  "parse_frame B ACK_ECN buf = parse_ack B ACK_ECN buf"
  "parse_frame B NEW_CONNECTION_ID buf = parse_new_connection_id B buf"
  "parse_frame B CRYPTO buf =
    bindO (get_varint B buf) (\<lambda>(off, buf). bindO (get_bytes B buf) (\<lambda>(data, buf).
    Ok (Crypto \<lparr>crypto_offset = off, crypto_data = data\<rparr>, buf)))"
  "parse_frame B NEW_TOKEN buf =
    bindO (get_bytes B buf) (\<lambda>(tok, buf). Ok (NewToken \<lparr>nt_token = tok\<rparr>, buf))"
  by (simp_all add: parse_frame_def frame_type_defs)

lemma parse_frame_stream:
  assumes "8 \<le> ty" "ty \<le> 15"
  shows "parse_frame B ty buf = parse_stream B ty buf"
proof -
  have "take_bit 8 ty = ty" using assms by (intro take_bit_nat_eq_self) simp
  then show ?thesis
    using assms by (simp add: parse_frame_def frame_type_defs ft_stream_def STREAM_TYS_def)
qed

lemma parse_frame_datagram:
  assumes "ty = 48 \<or> ty = 49"
  shows "parse_frame B ty buf =
    bindO (if di_len ty then get_bytes B buf else Ok (buf, [])) (\<lambda>(data, buf).
      Ok (Datagram \<lparr>dg_data = data\<rparr>, buf))"
proof -
  have "take_bit 8 ty = ty" using assms by (intro take_bit_nat_eq_self) auto
  then show ?thesis
    using assms by (elim disjE) (simp_all add: parse_frame_def frame_type_defs ft_stream_def STREAM_TYS_def
        ft_datagram_def DATAGRAM_TYS_def)
qed

text \<open>
  \<open>parses_as B w w' f\<close>: what was written between \<open>w\<close> and \<open>w'\<close>, followed by any
  bytes, is parsed as \<open>f\<close>, and exactly those following bytes are left.
\<close>

definition parses_as :: "bytes_api \<Rightarrow> writer \<Rightarrow> writer \<Rightarrow> frame \<Rightarrow> bool" where
  "parses_as B w w' f \<longleftrightarrow> (\<exists>bs. w_bytes w' = w_bytes w @ bs \<and>
     (\<forall>rest ty0. fst (try_next B \<lparr>fp_bytes = bs @ rest, fp_last_ty = ty0\<rparr>) = Ok (f, rest)))"

lemma parses_asI:
  assumes "put_slice bs w = Ok w'"
    and "\<And>rest ty0. fst (try_next B \<lparr>fp_bytes = bs @ rest, fp_last_ty = ty0\<rparr>) = Ok (f, rest)"
  shows "parses_as B w w' f"
  using assms by (auto simp: parses_as_def put_slice_eq_Ok)

definition stream_ty :: "bool \<Rightarrow> bool \<Rightarrow> bool \<Rightarrow> nat" where
  "stream_ty off len fin = 8 + (if off then 4 else 0) + (if len then 2 else 0) + (if fin then 1 else 0)"

lemma stream_ty_bits:
  "8 \<le> stream_ty off len fin" "stream_ty off len fin \<le> 15"
  "si_fin (stream_ty off len fin) = fin" "si_len (stream_ty off len fin) = len"
  "si_off (stream_ty off len fin) = off"
  by (simp_all add: stream_ty_def si_fin_def si_len_def si_off_def)

context bytes_crate
begin

lemma try_next_typed:
  "ty \<le> VARINT_MAX \<Longrightarrow>
     fst (try_next B \<lparr>fp_bytes = varint_bytes B ty @ buf, fp_last_ty = ty0\<rparr>) = parse_frame B ty buf"
  by (simp add: try_next_def codec_simps)

lemma frame_types_small [simp]:
  "RESET_STREAM \<le> VARINT_MAX" "STOP_SENDING \<le> VARINT_MAX" "CRYPTO \<le> VARINT_MAX"
  "NEW_TOKEN \<le> VARINT_MAX" "NEW_CONNECTION_ID \<le> VARINT_MAX" "TRANSPORT_CLOSE \<le> VARINT_MAX"
  "APPLICATION_CLOSE \<le> VARINT_MAX" "ACK \<le> VARINT_MAX" "ACK_ECN \<le> VARINT_MAX" "PADDING \<le> VARINT_MAX"
  by (simp_all add: frame_type_defs varint_max_values)

lemma ack_types_differ [simp]: "ACK \<noteq> ACK_ECN"
  by (simp add: frame_type_defs)

lemma reset_stream_parses:
  assumes "reset_stream_encode B f w = Ok w'"
  shows "parses_as B w w' (ResetStream f)"
proof -
  have b: "rst_id f \<le> VARINT_MAX" "rst_error_code f \<le> VARINT_MAX" "rst_final_offset f \<le> VARINT_MAX"
    using assms by (auto simp: reset_stream_encode_def bindO_eq_Ok put_varint_Ok)
  show ?thesis
    using assms b
    by (intro parses_asI) (auto simp: reset_stream_encode_def codec_simps try_next_typed parse_frame_by_type)
qed

lemma stop_sending_parses:
  assumes "stop_sending_encode B f w = Ok w'"
  shows "parses_as B w w' (StopSending f)"
proof -
  have b: "stop_id f \<le> VARINT_MAX" "stop_error_code f \<le> VARINT_MAX"
    using assms by (auto simp: stop_sending_encode_def bindO_eq_Ok put_varint_Ok)
  show ?thesis
    using assms b
    by (intro parses_asI) (auto simp: stop_sending_encode_def codec_simps try_next_typed parse_frame_by_type)
qed

lemma crypto_parses:
  assumes "crypto_encode B f w = Ok w'"
  shows "parses_as B w w' (Crypto f)"
proof -
  have b: "crypto_offset f \<le> VARINT_MAX" "length (crypto_data f) \<le> VARINT_MAX"
    using assms by (auto simp: crypto_encode_def bindO_eq_Ok put_varint_Ok)
  show ?thesis
    using assms b
    by (intro parses_asI) (auto simp: crypto_encode_def codec_simps try_next_typed parse_frame_by_type)
qed

lemma new_token_parses:
  assumes "new_token_encode B f w = Ok w'"
  shows "parses_as B w w' (NewToken f)"
proof -
  have b: "length (nt_token f) \<le> VARINT_MAX"
    using assms by (auto simp: new_token_encode_def bindO_eq_Ok put_varint_Ok)
  show ?thesis
    using assms b
    by (intro parses_asI) (auto simp: new_token_encode_def codec_simps try_next_typed parse_frame_by_type)
qed

lemma new_connection_id_parses:
  assumes "new_connection_id_encode B f w = Ok w'" "cid_wf (ncid_id f)" "cid_len (ncid_id f) \<noteq> 0"
    "length (ncid_reset_token f) = RESET_TOKEN_SIZE" "ncid_retire_prior_to f \<le> ncid_sequence f"
  shows "parses_as B w w' (NewConnectionId f)"
proof -
  have b: "ncid_sequence f \<le> VARINT_MAX" "ncid_retire_prior_to f \<le> VARINT_MAX"
    using assms(1) by (auto simp: new_connection_id_encode_def bindO_eq_Ok put_varint_Ok)
  have "cid_deref (ncid_id f) \<noteq> []" using assms(2,3) by (auto simp: cid_wf_def)
  then show ?thesis
    using assms b
    by (intro parses_asI) (auto simp: new_connection_id_encode_def codec_simps try_next_typed
        parse_frame_by_type parse_new_connection_id_def try_copy_to_slice_def simp del: One_nat_def)
qed

lemma ack_encode_rest_eq:
  "ranges_below p rs \<Longrightarrow> p \<le> VARINT_MAX \<Longrightarrow>
     ack_encode_rest B p rs w = (put_slice (ack_rest_bytes B p rs) w :: (writer, 'e) outcome)"
proof (induction p rs arbitrary: w rule: ranges_below.induct)
  case (2 p s e rs)
  have "s < e" "e < p" "p < 2 ^ 64" using 2(2,3) by (simp_all add: varint_max_values)
  then have "sub64 (sub64 p e) 1 = p - e - 1" "sub64 (sub64 e s) 1 = e - s - 1"
    by (simp_all only: sub64_pred)
  moreover have "p - e - 1 \<le> VARINT_MAX" "e - s - 1 \<le> VARINT_MAX" "s \<le> VARINT_MAX"
    using 2(2,3) by auto
  moreover from this have "ack_encode_rest B s rs =
      (put_slice (ack_rest_bytes B s rs) :: writer \<Rightarrow> (writer, 'e) outcome)"
    using 2 by (intro ext) simp
  ultimately show ?case by (simp add: codec_simps)
qed (simp add: put_slice_Nil)

lemma scan_ack_rest:
  "ranges_below p rs \<Longrightarrow> p \<le> VARINT_MAX \<Longrightarrow>
     scan_ack_loop B (ack_rest_bytes B p rs @ t) p (length rs) = Ok t"
proof (induction p rs rule: ranges_below.induct)
  case (2 p s e rs)
  have "add64 (p - e - 1) 2 = p - e + 1"
    using 2(2,3) by (subst add64_small) (auto simp: varint_max_values)
  moreover have "p - Suc (p - e) = e - 1" "e - 1 - (e - Suc s) = s" using 2(2) by auto
  ultimately show ?case using 2 by (auto simp: codec_simps checked_sub_def)
qed simp

lemma ack_collect_rest:
  "ranges_below (Suc e) ((s, e) # rs) \<Longrightarrow> e - 1 \<le> VARINT_MAX \<Longrightarrow>
     ack_iter_collect B (e - 1) (varint_bytes B (e - s - 1) @ ack_rest_bytes B s rs) =
       (Ok (map inclusive ((s, e) # rs)) :: ((nat \<times> nat) list, 'e) outcome)"
proof (induction rs arbitrary: s e)
  case Nil
  have "sub64 (e - 1) (e - s - 1) = s" using Nil by (simp add: wrap_simps varint_max_values)
  moreover have "try_get_varint B [] = Err (TryGetError 1 0)" by (simp add: try_get_varint_def)
  moreover have "try_get_varint B (varint_bytes B (e - s - 1)) = Ok (e - s - 1, [])"
    using try_get_varint_bytes [of "e - s - 1" "[]"] Nil by simp
  ultimately show ?case
    by (simp add: ack_iter_collect.simps ack_iter_next_def inclusive_def)
next
  case (Cons r rs)
  obtain s' e' where r: "r = (s', e')" by (cases r)
  have lt: "s' < e'" "e' < s" "s < e" using Cons.prems r by auto
  have big: "e < 2 ^ 64" using Cons.prems by (simp add: varint_max_values)
  have "sub64 (e - 1) (e - s - 1) = s" "sub64 (e - 1) (add64 (add64 (e - s - 1) (s - e' - 1)) 2) = e' - 1"
    using lt big by (simp_all add: wrap_simps)
  then have "ack_iter_next B (e - 1, varint_bytes B (e - s - 1) @ ack_rest_bytes B s (r # rs)) =
      (Ok ((e' - 1, varint_bytes B (e' - s' - 1) @ ack_rest_bytes B s' rs), Some (s, e - 1)) ::
        ((nat \<times> bytes) \<times> (nat \<times> nat) option, 'e) outcome)"
    using Cons.prems lt by (simp add: ack_iter_next_def r codec_simps)
  moreover have "ack_iter_collect B (e' - 1) (varint_bytes B (e' - s' - 1) @ ack_rest_bytes B s' rs) =
      (Ok (map inclusive ((s', e') # rs)) :: ((nat \<times> nat) list, 'e) outcome)"
    using Cons.IH [of e' s'] Cons.prems lt r by simp
  ultimately show ?case
    by (subst ack_iter_collect.simps) (simp add: inclusive_def r)
qed

lemma ack_encode_eq:
  assumes "rev ranges = (s, e) # rest" "ranges_below (Suc e) (rev ranges)" "e - 1 \<le> VARINT_MAX"
    "delay \<le> VARINT_MAX" "ecn_small ecn"
  shows "ack_encode B delay ranges ecn w = (put_slice
    (varint_bytes B (if ecn \<noteq> None then ACK_ECN else ACK) @ ack_head_bytes B (e - 1) delay (length rest)
      @ ack_additional_bytes B s e rest @ ecn_bytes B ecn) w :: (writer, 'e) outcome)"
proof -
  have below: "s < e" "ranges_below s rest" using assms(1,2) by auto
  have "length ranges = Suc (length rest)" using assms(1) by (metis length_Cons length_rev)
  moreover have "length rest \<le> s" using below(2) by (rule ranges_below_length)
  moreover have "e < 2 ^ 64" using assms(3) below(1) by (simp add: varint_max_values)
  ultimately have len: "sub64 (ars_len ranges) 1 = length rest" "length rest \<le> VARINT_MAX"
    and ends: "sub64 e 1 = e - 1" "sub64 (sub64 e s) 1 = e - s - 1" "e - s - 1 \<le> VARINT_MAX" "s \<le> VARINT_MAX"
    using below(1) assms(3) by (auto simp: ars_len_def sub64_small sub64_pred [simplified])
  have rest: "ack_encode_rest B s rest = (put_slice (ack_rest_bytes B s rest) :: writer \<Rightarrow> (writer, 'e) outcome)"
    using ack_encode_rest_eq [OF below(2) ends(4)] by blast
  have ty: "(if ecn \<noteq> None then ACK_ECN else ACK) \<le> VARINT_MAX" by (simp add: frame_type_defs varint_max_values)
  show ?thesis
    using assms(3-5) len(2) ends(3)
    by (cases ecn) (simp_all add: ack_encode_def assms(1) Let_def len(1) ends(1,2) rest codec_simps
        ack_head_bytes_def ack_additional_bytes_def ecn_bytes_def ecn_encode_def ecn_small_def
        frame_type_defs varint_max_values bindO_Ok_right del: One_nat_def)
qed

lemma ack_parses:
  assumes "ack_encode B delay ranges ecn w = Ok w'" "rs_wf ranges" "snd (last ranges) < 2 ^ 64"
  shows "ranges \<noteq> [] \<and> (\<exists>a. parses_as B w w' (Ack a) \<and> ack_largest a = Max (elems ranges) \<and>
    ack_delay a = delay \<and> ack_ecn a = ecn \<and>
    ack_ranges B a = (Ok (map inclusive (rev ranges)) :: ((nat \<times> nat) list, 'f) outcome))"
proof -
  obtain s e rest where rev: "rev ranges = (s, e) # rest"
    using assms(1) by (auto simp: ack_encode_def split: list.splits prod.splits)
  then have snoc: "ranges = rev rest @ [(s, e)]" by (simp add: rev_swap)
  have below: "ranges_below (Suc e) (rev ranges)" using ranges_below_rev [OF assms(2), of "Suc e"] snoc by simp
  then have se: "s < e" "ranges_below s rest" using rev by auto
  have mx: "Max (elems ranges) = e - 1" using wf_from_max [OF assms(2)] snoc by simp
  have e1: "sub64 e 1 = e - 1" using se assms(3) snoc by (intro sub64_small) auto
  have enc: "e - 1 \<le> VARINT_MAX" "delay \<le> VARINT_MAX" "ecn_small ecn"
    using assms(1) unfolding ack_encode_def rev list.case prod.case Let_def e1
    by (auto simp: bindO_eq_Ok put_varint_Ok ecn_small_def ecn_encode_def split: option.splits)
  let ?add = "ack_additional_bytes B s e rest"
  let ?a = "\<lparr>ack_largest = e - 1, ack_delay = delay, ack_additional = ?add, ack_ecn = ecn\<rparr>"
  have small: "length rest \<le> VARINT_MAX" "e - s - 1 \<le> VARINT_MAX" "s \<le> VARINT_MAX"
    using ranges_below_length [OF se(2)] se enc(1) by auto
  have scan: "scan_ack_blocks B (?add @ t) (e - 1) (length rest) = Ok (length ?add)" for t
  proof -
    have "e - Suc (e - Suc s) = s" using se by simp
    then show ?thesis
      using small scan_ack_rest [OF se(2) small(3), of t]
      by (simp add: scan_ack_blocks_def ack_additional_bytes_def codec_simps checked_sub_def)
  qed
  have "parse_frame B (if ecn \<noteq> None then ACK_ECN else ACK)
      (ack_head_bytes B (e - 1) delay (length rest) @ ?add @ ecn_bytes B ecn @ t) = Ok (Ack ?a, t)" for t
    using enc small scan
    by (cases ecn) (simp_all add: parse_frame_by_type parse_ack_def ack_head_bytes_def codec_simps
        ecn_bytes_def ecn_small_def)
  then have "parses_as B w w' (Ack ?a)"
    using assms(1) unfolding ack_encode_eq [OF rev below enc]
    by (intro parses_asI) (auto simp: try_next_typed)
  moreover have "ack_ranges B ?a = (Ok (map inclusive (rev ranges)) :: ((nat \<times> nat) list, 'f) outcome)"
    using ack_collect_rest [of e s rest] below rev enc(1)
    by (simp add: ack_ranges_def ack_additional_bytes_def)
  ultimately show ?thesis using mx snoc by (intro conjI exI [of _ ?a]) simp_all
qed

lemma stream_meta_encode_eq:
  assumes "sm_id f \<le> VARINT_MAX" "sm_offsets f = (start, end)" "start \<le> VARINT_MAX" "start \<le> end"
    "end < 2 ^ 64" "len \<Longrightarrow> end - start \<le> VARINT_MAX"
  shows "stream_meta_encode B f len w = (put_slice
    (varint_bytes B (stream_ty (start \<noteq> 0) len (sm_fin f)) @ varint_bytes B (sm_id f) @
     (if start \<noteq> 0 then varint_bytes B start else []) @ (if len then varint_bytes B (end - start) else []))
    w :: (writer, 'e) outcome)"
proof -
  have "sub64 end start = end - start" using assms by (simp add: wrap_simps)
  then show ?thesis
    using assms
    by (cases "start = 0"; cases len; cases "sm_fin f")
      (simp_all add: stream_meta_encode_def codec_simps stream_ty_def STREAM_TYS_def varint_max_values
        put_slice_Nil bindO_Ok_right)
qed

lemma stream_meta_encode_bounds:
  assumes "stream_meta_encode B f len w = Ok w'" "sm_offsets f = (start, end)" "start \<le> end" "end < 2 ^ 64"
  shows "sm_id f \<le> VARINT_MAX" "start \<le> VARINT_MAX" "len \<Longrightarrow> end - start \<le> VARINT_MAX"
proof -
  have "sub64 end start = end - start" using assms by (simp add: wrap_simps)
  then show "sm_id f \<le> VARINT_MAX" "start \<le> VARINT_MAX" "len \<Longrightarrow> end - start \<le> VARINT_MAX"
    using assms(1,2) by (auto simp: stream_meta_encode_def Let_def bindO_eq_Ok put_varint_Ok split: if_splits)
qed

text \<open>A STREAM header followed by the data it announces.\<close>

lemma stream_meta_parses:
  assumes "stream_meta_encode B f True w = (Ok w1 :: (writer, 'e) outcome)"
    "put_slice data w1 = (Ok w' :: (writer, 'e) outcome)"
    "sm_offsets f = (start, start + length data)" "start + length data < 2 ^ 64"
  shows "parses_as B w w' (Stream \<lparr>sf_id = sm_id f, sf_offset = start, sf_fin = sm_fin f, sf_data = data\<rparr>)"
proof -
  note b = stream_meta_encode_bounds [OF assms(1,3) _ assms(4)]
  have small: "sm_id f \<le> VARINT_MAX" "start \<le> VARINT_MAX" "length data \<le> VARINT_MAX"
    using b by simp_all
  let ?ty = "stream_ty (start \<noteq> 0) True (sm_fin f)"
  let ?hd = "varint_bytes B ?ty @ varint_bytes B (sm_id f) @ (if start \<noteq> 0 then varint_bytes B start else []) @
    varint_bytes B (length data)"
  have ty: "?ty \<le> VARINT_MAX" using stream_ty_bits(2) [of "start \<noteq> 0" True "sm_fin f"] by (simp add: varint_max_values)
  have "stream_meta_encode B f True w = (put_slice ?hd w :: (writer, 'e) outcome)"
    using small(3) by (subst stream_meta_encode_eq [OF small(1) assms(3) small(2) _ assms(4)]) simp_all
  then have "put_slice (?hd @ data) w = (Ok w' :: (writer, 'e) outcome)"
    using assms(1,2) by (metis bindO.simps(1) put_slice_append)
  then show ?thesis
  proof (rule parses_asI)
    fix rest ty0
    show "fst (try_next B \<lparr>fp_bytes = (?hd @ data) @ rest, fp_last_ty = ty0\<rparr>) =
        Ok (Stream \<lparr>sf_id = sm_id f, sf_offset = start, sf_fin = sm_fin f, sf_data = data\<rparr>, rest)"
      using small ty
      by (simp add: try_next_typed parse_frame_stream stream_ty_bits parse_stream_def codec_simps)
  qed
qed

text \<open>Without a length the data runs to the end of the packet.\<close>

lemma stream_meta_parses_last:
  assumes "stream_meta_encode B f False w = (Ok w1 :: (writer, 'e) outcome)"
    "put_slice data w1 = (Ok w' :: (writer, 'e) outcome)" "w_bytes w = []"
    "sm_offsets f = (start, end)" "start \<le> end" "end < 2 ^ 64"
  shows "fst (try_next B \<lparr>fp_bytes = w_bytes w', fp_last_ty = ty0\<rparr>) =
    Ok (Stream \<lparr>sf_id = sm_id f, sf_offset = start, sf_fin = sm_fin f, sf_data = data\<rparr>, [])"
proof -
  note small = stream_meta_encode_bounds [OF assms(1,4-6)]
  let ?ty = "stream_ty (start \<noteq> 0) False (sm_fin f)"
  let ?hd = "varint_bytes B ?ty @ varint_bytes B (sm_id f) @ (if start \<noteq> 0 then varint_bytes B start else [])"
  have ty: "?ty \<le> VARINT_MAX" using stream_ty_bits(2) [of "start \<noteq> 0" False "sm_fin f"] by (simp add: varint_max_values)
  have "stream_meta_encode B f False w = (put_slice ?hd w :: (writer, 'e) outcome)"
    by (subst stream_meta_encode_eq [OF small(1) assms(4) small(2) assms(5,6)]) simp_all
  then have "w_bytes w' = ?hd @ data"
    using assms(1-3) by (auto simp: put_slice_eq_Ok eq_commute [of "Ok w1"])
  then show ?thesis
    using small ty by (simp add: try_next_typed parse_frame_stream stream_ty_bits parse_stream_def codec_simps)
qed

lemma take_varint_length_le: "length (varint_bytes B (min n m)) \<le> length (varint_bytes B n)"
  by (simp add: varint_bytes_length min_def varint_max_values)

text \<open>The reason of a close frame is cut; the frame fits when the error code has at most two bytes.\<close>

lemma transport_close_parses:
  assumes "transport_close_encode B f max_len w = (Ok w' :: (writer, 'e) outcome)" "tc_frame_type f \<noteq> Some 0" "max_len < 2 ^ 64"
  shows "\<exists>n \<le> length (tc_reason f).
    parses_as B w w' (Close (Transport (f\<lparr>tc_reason := take n (tc_reason f)\<rparr>))) \<and>
    (25 \<le> max_len \<and> tc_error_code f \<le> VARINT_MAX_2 \<longrightarrow> length (w_bytes w') \<le> length (w_bytes w) + max_len)"
proof -
  let ?ty = "case tc_frame_type f of None \<Rightarrow> PADDING | Some t \<Rightarrow> t"
  have b: "tc_error_code f \<le> VARINT_MAX" "?ty \<le> VARINT_MAX" "length (tc_reason f) \<le> VARINT_MAX"
    using assms(1) by (auto simp: transport_close_encode_def bindO_eq_Ok put_varint_Ok Let_def varint_len_def
        VARINT_MAX_def varint_max_values split: if_splits)
  define m where "m = sub64 (sub64 (sub64 max_len 3) (length (varint_bytes B ?ty)))
    (length (varint_bytes B (length (tc_reason f))))"
  define n where "n = min (length (tc_reason f)) m"
  let ?bs = "varint_bytes B TRANSPORT_CLOSE @ varint_bytes B (tc_error_code f) @ varint_bytes B ?ty @
    varint_bytes B n @ take n (tc_reason f)"
  have n: "length (take n (tc_reason f)) = n" "n \<le> VARINT_MAX" using b(3) by (simp_all add: n_def)
  have enc: "put_slice ?bs w = (Ok w' :: (writer, 'e) outcome)"
    using assms(1) b n put_bytes_eq [of "take n (tc_reason f)" B]
    by (simp add: transport_close_encode_def codec_simps varint_len_length Let_def flip: n_def m_def)
  have "(if ?ty = 0 then None else Some ?ty) = tc_frame_type f"
    using assms(2) by (auto simp: PADDING_def split: option.splits)
  then have "parses_as B w w' (Close (Transport (f\<lparr>tc_reason := take n (tc_reason f)\<rparr>)))"
    using b n try_get_bytes_put [of "take n (tc_reason f)"]
    by (intro parses_asI [OF enc])
      (simp add: try_next_typed parse_frame_by_type parse_transport_close_def codec_simps)
  moreover have "length (w_bytes w') \<le> length (w_bytes w) + max_len"
    if "25 \<le> max_len" "tc_error_code f \<le> VARINT_MAX_2"
  proof -
    note l = varint_bytes_length_le [of ?ty] varint_bytes_length_le [of "length (tc_reason f)"]
    have "m = max_len - 3 - length (varint_bytes B ?ty) - length (varint_bytes B (length (tc_reason f)))"
      using that(1) l assms(3) by (simp add: m_def sub64_small)
    moreover have "length (varint_bytes B TRANSPORT_CLOSE) = 1" "length (varint_bytes B (tc_error_code f)) \<le> 2"
      using that(2) by (simp_all add: varint_bytes_length frame_type_defs varint_max_values)
    moreover have "length (varint_bytes B n) \<le> length (varint_bytes B (length (tc_reason f)))"
      by (simp add: n_def take_varint_length_le)
    moreover have "length (w_bytes w') = length (w_bytes w) + length ?bs"
      using enc by (auto simp: put_slice_eq_Ok)
    ultimately show ?thesis using that(1) l n(1) by (simp add: n_def min_def split: if_splits)
  qed
  ultimately show ?thesis by (intro exI [of _ n]) (simp add: n_def)
qed

lemma application_close_parses:
  assumes "application_close_encode B f max_len w = (Ok w' :: (writer, 'e) outcome)" "max_len < 2 ^ 64"
  shows "\<exists>n \<le> length (ac_reason f).
    parses_as B w w' (Close (Application (f\<lparr>ac_reason := take n (ac_reason f)\<rparr>))) \<and>
    (17 \<le> max_len \<and> ac_error_code f \<le> VARINT_MAX_2 \<longrightarrow> length (w_bytes w') \<le> length (w_bytes w) + max_len)"
proof -
  have b: "ac_error_code f \<le> VARINT_MAX" "length (ac_reason f) \<le> VARINT_MAX"
    using assms(1) by (auto simp: application_close_encode_def bindO_eq_Ok put_varint_Ok Let_def varint_len_def
        VARINT_MAX_def varint_max_values split: if_splits)
  define m where "m = sub64 (sub64 max_len 3) (length (varint_bytes B (length (ac_reason f))))"
  define n where "n = min (length (ac_reason f)) m"
  let ?bs = "varint_bytes B APPLICATION_CLOSE @ varint_bytes B (ac_error_code f) @
    varint_bytes B n @ take n (ac_reason f)"
  have n: "length (take n (ac_reason f)) = n" "n \<le> VARINT_MAX" using b(2) by (simp_all add: n_def)
  have enc: "put_slice ?bs w = (Ok w' :: (writer, 'e) outcome)"
    using assms(1) b n put_bytes_eq [of "take n (ac_reason f)" B]
    by (simp add: application_close_encode_def codec_simps varint_len_length Let_def flip: n_def m_def)
  then have "parses_as B w w' (Close (Application (f\<lparr>ac_reason := take n (ac_reason f)\<rparr>)))"
    using b n try_get_bytes_put [of "take n (ac_reason f)"]
    by (intro parses_asI [OF enc]) (simp add: try_next_typed parse_frame_by_type codec_simps)
  moreover have "length (w_bytes w') \<le> length (w_bytes w) + max_len"
    if "17 \<le> max_len" "ac_error_code f \<le> VARINT_MAX_2"
  proof -
    note l = varint_bytes_length_le [of "length (ac_reason f)"]
    have "m = max_len - 3 - length (varint_bytes B (length (ac_reason f)))"
      using that(1) l assms(2) by (simp add: m_def sub64_small)
    moreover have "length (varint_bytes B APPLICATION_CLOSE) = 1" "length (varint_bytes B (ac_error_code f)) \<le> 2"
      using that(2) by (simp_all add: varint_bytes_length frame_type_defs varint_max_values)
    moreover have "length (varint_bytes B n) \<le> length (varint_bytes B (length (ac_reason f)))"
      by (simp add: n_def take_varint_length_le)
    moreover have "length (w_bytes w') = length (w_bytes w) + length ?bs"
      using enc by (auto simp: put_slice_eq_Ok)
    ultimately show ?thesis using that(1) l n(1) by (simp add: n_def min_def split: if_splits)
  qed
  ultimately show ?thesis by (intro exI [of _ n]) (simp add: n_def)
qed

lemma datagram_parses:
  assumes "datagram_encode B f True w = Ok w'"
  shows "parses_as B w w' (Datagram f)"
proof -
  have b: "length (dg_data f) \<le> VARINT_MAX"
    using assms by (auto simp: datagram_encode_def bindO_eq_Ok put_varint_Ok)
  have "parse_frame B 49 buf = bindO (get_bytes B buf) (\<lambda>(data, buf). Ok (Datagram \<lparr>dg_data = data\<rparr>, buf))" for buf
    by (simp add: parse_frame_datagram di_len_def)
  then show ?thesis
    using assms b
    by (intro parses_asI [of "varint_bytes B 49 @ varint_bytes B (length (dg_data f)) @ dg_data f"])
      (auto simp: datagram_encode_def codec_simps try_next_typed DATAGRAM_TYS_def varint_max_values)
qed

end

section \<open>The parser consumes its input and panics on one frame type only\<close>

definition consumes :: "('a \<times> bytes, 'e) outcome \<Rightarrow> nat \<Rightarrow> bool" where
  "consumes m n \<longleftrightarrow> (\<forall>x rest. m = Ok (x, rest) \<longrightarrow> length rest \<le> n)"

definition safe :: "('a \<times> bytes, 'e) outcome \<Rightarrow> nat \<Rightarrow> bool" where
  "safe m n \<longleftrightarrow> m \<noteq> Panic \<and> consumes m n"

named_theorems reader_intros

lemma safe_bind [reader_intros]:
  "safe m n \<Longrightarrow> (\<And>x b. length b \<le> n \<Longrightarrow> safe (f x b) n) \<Longrightarrow> safe (bindO m (\<lambda>(x, b). f x b)) n"
  by (cases m) (auto simp: safe_def consumes_def)

lemma safe_Ok [reader_intros]: "length b \<le> n \<Longrightarrow> safe (Ok (x, b)) n"
  by (simp add: safe_def consumes_def)

lemma safe_Err [reader_intros]: "safe (Err e) n"
  by (simp add: safe_def consumes_def)

lemma safe_if [reader_intros]: "(c \<Longrightarrow> safe a n) \<Longrightarrow> (\<not> c \<Longrightarrow> safe b n) \<Longrightarrow> safe (if c then a else b) n"
  by simp

lemma safe_option [reader_intros]:
  "(x = None \<Longrightarrow> safe a n) \<Longrightarrow> (\<And>s. x = Some s \<Longrightarrow> safe (f s) n) \<Longrightarrow> safe (case_option a f x) n"
  by (cases x) simp_all

lemma safe_map_err [reader_intros]: "safe m n \<Longrightarrow> safe (map_err g m) n"
  by (cases m) (auto simp: safe_def consumes_def)

lemma safe_readers [reader_intros]:
  "length b \<le> n \<Longrightarrow> safe (try_get_varint B b) n"
  "length b \<le> n \<Longrightarrow> safe (try_get_bytes_with_varint_length B b) n"
  "length b \<le> n \<Longrightarrow> safe (try_get_uint B k b) n"
proof -
  show v: "safe (try_get_varint B b) n" if "length b \<le> n"
    using that by (auto simp: safe_def consumes_def dest: try_get_varint_shorter)
  show "safe (try_get_bytes_with_varint_length B b) n" if "length b \<le> n"
    unfolding try_get_bytes_with_varint_length_def by (intro reader_intros v that) simp
  show "safe (try_get_uint B k b) n" if "length b \<le> n"
    using that by (auto simp: safe_def consumes_def try_get_uint_def)
qed

lemma scan_ack_no_panic:
  "scan_ack_blocks B buf largest n \<noteq> Panic"
proof -
  have loop: "scan_ack_loop B b smallest n \<noteq> Panic" for b smallest n
    by (induction n arbitrary: b smallest) (auto simp: bindO_eq_Panic split: option.splits)
  show ?thesis by (auto simp: scan_ack_blocks_def bindO_eq_Panic loop split: option.splits)
qed

lemma safe_parse_ack [reader_intros]: "length buf \<le> n \<Longrightarrow> safe (parse_ack B ty buf) n"
proof -
  have bind: "safe (bindO m f) n"
    if "m \<noteq> Panic" "\<And>k. safe (f k) n"
    for m :: "(nat, frame_parse_error) outcome"
      and f :: "nat \<Rightarrow> (frame \<times> bytes, frame_parse_error) outcome" and n
    using that by (cases m) (auto simp: safe_def consumes_def)
  assume "length buf \<le> n"
  then show ?thesis
    unfolding parse_ack_def Let_def
    by (intro reader_intros bind scan_ack_no_panic; simp)
qed

lemma safe_parse_others [reader_intros]:
  "length buf \<le> n \<Longrightarrow> safe (parse_transport_close B buf) n"
  "length buf \<le> n \<Longrightarrow> safe (parse_stream B s buf) n"
  unfolding parse_transport_close_def parse_stream_def by (intro reader_intros; simp)+

lemma safe_parse_frame:
  assumes "ty \<noteq> NEW_CONNECTION_ID"
  shows "safe (parse_frame B ty buf) (length buf)"
  unfolding parse_frame_def if_not_P [OF assms] by (intro reader_intros; simp)

lemma consumes_bind:
  "consumes m n \<Longrightarrow> (\<And>x b. length b \<le> n \<Longrightarrow> consumes (f x b) n) \<Longrightarrow> consumes (bindO m (\<lambda>(x, b). f x b)) n"
  by (cases m) (auto simp: consumes_def)

lemma consumes_simple:
  "consumes (Err e) n" "length b \<le> n \<Longrightarrow> consumes (Ok (x, b)) n"
  "(c \<Longrightarrow> consumes m n) \<Longrightarrow> (\<not> c \<Longrightarrow> consumes m' n) \<Longrightarrow> consumes (if c then m else m') n"
  by (auto simp: consumes_def)

lemma parse_new_connection_id_consumes: "consumes (parse_new_connection_id B buf) (length buf)"
proof -
  have cid: "consumes (map_err UnexpectedEnd (cid_decode B b)) n" if "length b \<le> n" for b n
    using that cid_from_buf_Ok
    by (force simp: consumes_def cid_decode_def bindO_eq_Ok try_get_uint_def split: if_splits)
  have varint: "consumes (get_varint B b) n" if "length b \<le> n" for b n
    using safe_readers(1) [OF that] by (simp add: safe_def consumes_def)
  have copy: "consumes (map_err UnexpectedEnd (try_copy_to_slice k b)) n" if "length b \<le> n" for b k n
    using that by (auto simp: consumes_def try_copy_to_slice_def)
  show ?thesis
    unfolding parse_new_connection_id_def
    by (intro consumes_bind consumes_simple cid varint copy; simp)
qed

lemma parse_frame_consumes:
  assumes "parse_frame B ty buf = Ok (f, rest)"
  shows "length rest \<le> length buf"
proof (cases "ty = NEW_CONNECTION_ID")
  case True
  then show ?thesis
    using assms parse_new_connection_id_consumes [of B buf] by (simp add: parse_frame_by_type consumes_def)
next
  case False
  then show ?thesis using assms safe_parse_frame [of ty B buf] by (simp add: safe_def consumes_def)
qed

lemma try_next_shorter:
  assumes "try_next B p = (Ok (f, rest), ty)"
  shows "length rest < length (fp_bytes p)"
proof -
  obtain t buf where "try_get_varint B (fp_bytes p) = Ok (t, buf)" "parse_frame B t buf = Ok (f, rest)"
    using assms by (auto simp: try_next_def map_err_eq_Err split: outcome.splits prod.splits)
  then show ?thesis using try_get_varint_shorter parse_frame_consumes by (metis le_less_trans)
qed

section \<open>Properties\<close>



text \<open>
  C22. STREAM frames round trip: the header of a frame with a length, followed by the data it
  announces, is read back with the same stream, offset, FIN and data; a frame without a length
  is read back as the last of a packet.
\<close>

theorem stream_frame_roundtrip:
  assumes "bytes_crate B" "stream_meta_encode B f len w = (Ok w1 :: (writer, 'e) outcome)"
    "put_slice data w1 = (Ok w' :: (writer, 'e) outcome)"
    "sm_offsets f = (start, start + length data)" "start + length data < 2 ^ 64"
  shows "if len then parses_as B w w' (Stream \<lparr>sf_id = sm_id f, sf_offset = start, sf_fin = sm_fin f, sf_data = data\<rparr>)
    else w_bytes w \<noteq> [] \<or> fst (try_next B \<lparr>fp_bytes = w_bytes w', fp_last_ty = ty0\<rparr>) =
      Ok (Stream \<lparr>sf_id = sm_id f, sf_offset = start, sf_fin = sm_fin f, sf_data = data\<rparr>, [])"
  using bytes_crate.stream_meta_parses [OF assms(1) _ assms(3-5), of w]
    bytes_crate.stream_meta_parses_last [OF assms(1) _ assms(3) _ assms(4) _ assms(5), of w ty0] assms(2)
  by (cases len) auto

theorem stream_frame_roundtrip_witness:
  "parses_as std_bytes \<lparr>w_bytes = [1], w_left = 9\<rparr> \<lparr>w_bytes = [1, 15, 4, 2, 3, 5, 6, 7], w_left = 2\<rparr>
     (Stream \<lparr>sf_id = 4, sf_offset = 2, sf_fin = True, sf_data = [5, 6, 7]\<rparr>)"
proof -
  let ?m = "\<lparr>sm_id = 4, sm_offsets = (2, 2 + length [5, 6, 7 :: u8]), sm_fin = True\<rparr>"
  have a: "stream_meta_encode std_bytes ?m True \<lparr>w_bytes = [1], w_left = 9\<rparr> =
      (Ok \<lparr>w_bytes = [1, 15, 4, 2, 3], w_left = 5\<rparr> :: (writer, unit) outcome)"
    by (simp add: stream_meta_encode_def STREAM_TYS_def varint_eval sub64_def)
  have b: "put_slice [5, 6, 7] \<lparr>w_bytes = [1, 15, 4, 2, 3], w_left = 5\<rparr> =
      (Ok \<lparr>w_bytes = [1, 15, 4, 2, 3, 5, 6, 7], w_left = 2\<rparr> :: (writer, unit) outcome)"
    by (simp add: put_slice_def)
  show ?thesis using stream_frame_roundtrip [OF std.bytes_crate_axioms a b, of 2] by simp
qed

text \<open>
  C18. ACK frames carry their packet numbers: encoding a non-empty set of received numbers and
  parsing the frame gives the largest number, the delay and, read by the iterator of the
  receiver, exactly the ranges of the set from the highest to the lowest.
\<close>

theorem ack_frame_roundtrip:
  assumes "bytes_crate B" "ack_encode B delay ranges ecn w = (Ok w' :: (writer, 'e) outcome)" "rs_wf ranges"
    "snd (last ranges) < 2 ^ 64"
  shows "\<exists>a. parses_as B w w' (Ack a) \<and> ack_largest a = Max (elems ranges) \<and> ack_delay a = delay \<and> ack_ecn a = ecn \<and>
    ack_ranges B a = (Ok (map inclusive (rev ranges)) :: ((nat \<times> nat) list, 'f) outcome)"
  using bytes_crate.ack_parses [OF assms] by blast

theorem ack_frame_roundtrip_witness:
  "\<exists>a. parses_as std_bytes \<lparr>w_bytes = [], w_left = 7\<rparr> \<lparr>w_bytes = [2, 7, 9, 1, 2, 1, 1], w_left = 0\<rparr> (Ack a) \<and>
    ack_largest a = Max (elems [(1, 3), (5, 8)]) \<and> ack_delay a = 9 \<and> ack_ecn a = None \<and>
    ack_ranges std_bytes a = (Ok (map inclusive (rev [(1, 3), (5, 8)])) :: ((nat \<times> nat) list, unit) outcome)"
proof -
  have "ack_encode std_bytes 9 [(1, 3), (5, 8)] None \<lparr>w_bytes = [], w_left = 7\<rparr> =
      (Ok \<lparr>w_bytes = [2, 7, 9, 1, 2, 1, 1], w_left = 0\<rparr> :: (writer, unit) outcome)"
    by (simp add: ack_encode_def ACK_def varint_eval sub64_def ars_len_def)
  then show ?thesis by (rule ack_frame_roundtrip [OF std.bytes_crate_axioms]) simp_all
qed

text \<open>
  CONNECTION_CLOSE frames round trip up to the length of the reason: the frame parses back
  with a prefix of the reason, and with an error code of at most two bytes it keeps to the space
  it was given.
\<close>

lemma close_frames_roundtrip:
  assumes "bytes_crate B" "max_len < 2 ^ 64"
  shows "(transport_close_encode B t max_len w = (Ok w' :: (writer, 'e) outcome) \<longrightarrow> tc_frame_type t \<noteq> Some 0 \<longrightarrow>
      (\<exists>n \<le> length (tc_reason t). parses_as B w w' (Close (Transport (t\<lparr>tc_reason := take n (tc_reason t)\<rparr>))) \<and>
        (25 \<le> max_len \<and> tc_error_code t \<le> VARINT_MAX_2 \<longrightarrow> length (w_bytes w') \<le> length (w_bytes w) + max_len))) \<and>
    (application_close_encode B a max_len w = (Ok w' :: (writer, 'e) outcome) \<longrightarrow>
      (\<exists>n \<le> length (ac_reason a). parses_as B w w' (Close (Application (a\<lparr>ac_reason := take n (ac_reason a)\<rparr>))) \<and>
        (17 \<le> max_len \<and> ac_error_code a \<le> VARINT_MAX_2 \<longrightarrow> length (w_bytes w') \<le> length (w_bytes w) + max_len)))"
  using bytes_crate.transport_close_parses [OF assms(1) _ _ assms(2)] bytes_crate.application_close_parses [OF assms(1) _ assms(2)]
  by blast

text \<open>
  C29. The parser makes progress and is total: a parsed frame consumed at least one byte, bad input
  gives an error, and a panic can only come from a NEW_CONNECTION_ID frame.
\<close>

theorem frame_parser_total:
  "case fst (try_next B p) of
     Ok (f, rest) \<Rightarrow> length rest < length (fp_bytes p)
   | Err e \<Rightarrow> True
   | Panic \<Rightarrow> \<exists>rest. try_get_varint B (fp_bytes p) = Ok (NEW_CONNECTION_ID, rest)"
proof (cases "fst (try_next B p)")
  case (Ok x)
  then obtain f rest ty where "try_next B p = (Ok (f, rest), ty)" by (cases "try_next B p", cases x) auto
  then show ?thesis using try_next_shorter by simp
next
  case Panic
  show ?thesis
  proof (cases "try_get_varint B (fp_bytes p)")
    case (Ok x)
    obtain ty rest where x: "x = (ty, rest)" by (cases x)
    have "parse_frame B ty rest = Panic" using Panic Ok x by (simp add: try_next_def)
    then have "ty = NEW_CONNECTION_ID" using safe_parse_frame [of ty B rest] by (auto simp: safe_def)
    then show ?thesis using Panic Ok x by simp
  qed (use Panic in \<open>simp_all add: try_next_def\<close>)
qed simp

text \<open>
  A NEW_CONNECTION_ID frame whose length byte is over 20 makes the parser panic: \<open>from_buf\<close>
  slices its array of 20 bytes before it checks the length.
\<close>

lemma long_connection_id_panics:
  "fst (try_next std_bytes \<lparr>fp_bytes = [0x18, 1, 0, 21] @ rest, fp_last_ty = None\<rparr>) = Panic"
proof -
  have one: "try_get_varint std_bytes (b # buf) = Ok (unat b, buf)" if "varint_parse_len b = 1" "unat b < 64" for b buf
    using that by (simp add: try_get_varint_def try_get_uint_def std_bytes_def and_varint_max take_bit_eq_mod)
  have cid: "cid_decode std_bytes (21 # rest) = Panic"
    by (simp add: cid_decode_def try_get_uint_def std_bytes_def cid_from_buf_def MAX_CID_SIZE_def)
  have "parse_new_connection_id std_bytes ([1, 0, 21] @ rest) = Panic"
    by (simp add: parse_new_connection_id_def one varint_parse_len_def cid)
  then have "parse_frame std_bytes 24 ([1, 0, 21] @ rest) = Panic"
    using parse_frame_by_type(7) [of std_bytes "[1, 0, 21] @ rest"] by (simp add: NEW_CONNECTION_ID_def)
  moreover have "try_get_varint std_bytes ([24, 1, 0, 21] @ rest) = Ok (24, [1, 0, 21] @ rest)"
    by (simp add: one varint_parse_len_def)
  ultimately show ?thesis by (simp add: try_next_def)
qed

end
