(* ===== verification/Frame_Types.thy ===== *)
theory Frame_Types
  imports Frame_Codec
begin

text \<open>
  What the parser of \<open>proto/src/frame.rs\<close> promises about a frame it returns: every field is in
  the range of its type, so the handlers of frames may calculate with them without overflow, and
  the frame is of the type that was read.
\<close>

section \<open>Frames in range\<close>

text \<open>The fields of a frame from a payload of \<open>n\<close> bytes.\<close>

fun frame_typed :: "bytes_api \<Rightarrow> nat \<Rightarrow> frame \<Rightarrow> bool" where
  "frame_typed B n Padding = True"
| "frame_typed B n Ping = True"
| "frame_typed B n (Ack a) =
     (ack_largest a \<le> VARINT_MAX \<and> ack_delay a \<le> VARINT_MAX \<and> ecn_small (ack_ecn a) \<and> length (ack_additional a) \<le> n \<and>
      (\<exists>rs. ack_ranges B a = (Ok rs :: (_, transport_error) outcome) \<and> rs \<noteq> [] \<and> acked_wf (Suc (ack_largest a)) rs))"
| "frame_typed B n (ResetStream r) = (rst_id r \<le> VARINT_MAX \<and> rst_error_code r \<le> VARINT_MAX \<and> rst_final_offset r \<le> VARINT_MAX)"
| "frame_typed B n (StopSending s) = (stop_id s \<le> VARINT_MAX \<and> stop_error_code s \<le> VARINT_MAX)"
| "frame_typed B n (Crypto c) = (crypto_offset c \<le> VARINT_MAX \<and> length (crypto_data c) \<le> n)"
| "frame_typed B n (NewToken t) = (length (nt_token t) \<le> n)"
| "frame_typed B n (Stream s) = (sf_id s \<le> VARINT_MAX \<and> sf_offset s \<le> VARINT_MAX \<and> length (sf_data s) \<le> n)"
| "frame_typed B n (MaxData v) = (v \<le> VARINT_MAX)"
| "frame_typed B n (MaxStreamData sid v) = (sid \<le> VARINT_MAX \<and> v \<le> VARINT_MAX)"
| "frame_typed B n (MaxStreams d v) = (v \<le> VARINT_MAX)"
| "frame_typed B n (DataBlocked v) = (v \<le> VARINT_MAX)"
| "frame_typed B n (StreamDataBlocked sid v) = (sid \<le> VARINT_MAX \<and> v \<le> VARINT_MAX)"
| "frame_typed B n (StreamsBlocked d v) = (v \<le> VARINT_MAX)"
| "frame_typed B n (NewConnectionId c) =
     (ncid_sequence c \<le> VARINT_MAX \<and> ncid_retire_prior_to c \<le> ncid_sequence c \<and> cid_wf (ncid_id c) \<and> cid_deref (ncid_id c) \<noteq> [] \<and>
      length (ncid_reset_token c) = RESET_TOKEN_SIZE)"
| "frame_typed B n (RetireConnectionId v) = (v \<le> VARINT_MAX)"
| "frame_typed B n (PathChallenge v) = (v < 2 ^ 64)"
| "frame_typed B n (PathResponse v) = (v < 2 ^ 64)"
| "frame_typed B n (Close (Transport c)) =
     (tc_error_code c \<le> VARINT_MAX \<and> (\<forall>t. tc_frame_type c = Some t \<longrightarrow> 0 < t \<and> t \<le> VARINT_MAX) \<and> length (tc_reason c) \<le> n)"
| "frame_typed B n (Close (Application c)) = (ac_error_code c \<le> VARINT_MAX \<and> length (ac_reason c) \<le> n)"
| "frame_typed B n (Datagram d) = (length (dg_data d) \<le> n)"
| "frame_typed B n ImmediateAck = True"
| "frame_typed B n HandshakeDone = True"

text \<open>The frame belongs to the type; \<open>Frame::ty\<close> leaves out the bits for a length and for ECN counts.\<close>

fun type_matches :: "nat \<Rightarrow> frame \<Rightarrow> bool" where
  "type_matches ty (Ack a) = (ty = (if ack_ecn a = None then ACK else ACK_ECN))"
| "type_matches ty (Stream s) = (fst STREAM_TYS \<le> ty \<and> ty \<le> snd STREAM_TYS \<and> sf_fin s = si_fin ty)"
| "type_matches ty (Datagram d) = (fst DATAGRAM_TYS \<le> ty \<and> ty \<le> snd DATAGRAM_TYS)"
| "type_matches ty f = (ty = frame_ty f)"

section \<open>Readers\<close>

lemma typed_varint: "length buf \<le> n \<Longrightarrow> post (get_varint B buf) (\<lambda>(v, b). v \<le> VARINT_MAX \<and> length b \<le> n)"
  by (rule post_map_err) (auto simp: post_def dest: try_get_varint_Ok try_get_varint_shorter)

lemma typed_bytes: "length buf \<le> n \<Longrightarrow> post (get_bytes B buf) (\<lambda>(v, b). length v \<le> n \<and> length b \<le> n)"
proof (rule post_map_err, unfold try_get_bytes_with_varint_length_def)
  assume n: "length buf \<le> n"
  have "post (try_get_varint B buf) (\<lambda>(v, b). length b \<le> n)"
    using n by (auto simp: post_def dest: try_get_varint_shorter)
  then show "post (bindO (try_get_varint B buf) (\<lambda>(len, buf). if length buf < len then Err (TryGetError len (length buf)) else Ok (take len buf, drop len buf)))
     (\<lambda>(v, b). length v \<le> n \<and> length b \<le> n)"
    by (rule post_bind_pair) (auto intro!: post_intros)
qed

lemma typed_uint:
  "bytes_crate B \<Longrightarrow> length buf \<le> n \<Longrightarrow> post (map_err UnexpectedEnd (try_get_uint B 8 buf)) (\<lambda>(v, b). v < 2 ^ 64 \<and> length b \<le> n)"
proof (rule post_map_err, unfold try_get_uint_def, intro post_if post_Err post_Ok)
  assume "bytes_crate B" "\<not> length buf < 8" "length buf \<le> n"
  then show "case (be_get B (take 8 buf), drop 8 buf) of (v, b) \<Rightarrow> v < 2 ^ 64 \<and> length b \<le> n"
    using bytes_crate.get_bound [of B "take 8 buf"] by simp
qed

lemma typed_cid: "post (map_err UnexpectedEnd (cid_decode B buf)) (\<lambda>(cid, b). cid_wf cid)"
  by (rule post_map_err) (auto simp: post_def cid_decode_def bindO_eq_Ok dest: cid_from_buf_Ok)

lemma typed_token: "post (map_err UnexpectedEnd (try_copy_to_slice k buf)) (\<lambda>(tok, b). length tok = k)"
  by (rule post_map_err) (auto simp: post_def try_copy_to_slice_def split: if_splits)

section \<open>The parser\<close>

text \<open>What is shown of every branch of \<open>parse_frame\<close>.\<close>

definition typed_result :: "bytes_api \<Rightarrow> nat \<Rightarrow> nat \<Rightarrow> (frame \<times> bytes, frame_parse_error) outcome \<Rightarrow> bool" where
  "typed_result B n ty m \<longleftrightarrow> post m (\<lambda>(f, rest). frame_typed B n f \<and> type_matches ty f)"

lemma typed_result_Ok: "frame_typed B n f \<Longrightarrow> type_matches ty f \<Longrightarrow> typed_result B n ty (Ok (f, rest))"
  by (simp add: typed_result_def post_def)

lemma typed_result_bind:
  assumes "post m (\<lambda>(v, b). Q v b)" "\<And>v b. Q v b \<Longrightarrow> typed_result B n ty (f v b)"
  shows "typed_result B n ty (bindO m (\<lambda>(v, b). f v b))"
  using assms unfolding typed_result_def by (rule post_bind_pair)

lemma typed_result_Err: "typed_result B n ty (Err e)"
  by (simp add: typed_result_def post_def)

lemmas typed_binds =
  typed_result_bind [OF typed_varint] typed_result_bind [OF typed_bytes] typed_result_bind [OF typed_uint]
  typed_result_bind [OF typed_cid] typed_result_bind [OF typed_token]

lemma typed_parse_ack:
  assumes "length buf \<le> n" "ty = ACK \<or> ty = ACK_ECN"
  shows "typed_result B n ty (parse_ack B ty buf)"
proof -
  have "typed_result B n ty (bindO (scan_ack_blocks B b largest extra) (\<lambda>k.
       let additional = take k b; b = drop k b in
       if ty \<noteq> ACK_ECN then
         Ok (Ack \<lparr>ack_largest = largest, ack_delay = delay, ack_additional = additional, ack_ecn = None\<rparr>, b)
       else
         bindO (get_varint B b) (\<lambda>(e0, b).
         bindO (get_varint B b) (\<lambda>(e1, b).
         bindO (get_varint B b) (\<lambda>(c, b).
         Ok (Ack \<lparr>ack_largest = largest, ack_delay = delay, ack_additional = additional,
                  ack_ecn = Some \<lparr>ect0 = e0, ect1 = e1, ce = c\<rparr>\<rparr>, b))))))"
    if b: "length b \<le> n" and v: "largest \<le> VARINT_MAX" "delay \<le> VARINT_MAX" for b largest delay extra
  proof (cases "scan_ack_blocks B b largest extra")
    case (Ok k)
    obtain rs where rs: "ack_iter_collect B largest (take k b) = (Ok rs :: (_, transport_error) outcome)" "length rs = Suc extra"
      "acked_wf (Suc largest) rs"
      using scan_ack_blocks_collect [OF Ok] v(1) by (auto simp: varint_max_values)
    have "rs \<noteq> []" using rs(2) by auto
    then have typed: "frame_typed B n (Ack \<lparr>ack_largest = largest, ack_delay = delay, ack_additional = take k b, ack_ecn = ecn\<rparr>)"
      if "ecn_small ecn" for ecn
      using that b v rs by (simp add: ack_ranges_def)
    show ?thesis
      unfolding Ok bindO.simps Let_def
      by (cases "ty = ACK_ECN")
        (use assms(2) typed b in \<open>auto intro!: typed_result_Ok typed_binds(1) [where n = n] simp: ecn_small_def simp del: frame_typed.simps\<close>)
  qed (simp_all add: typed_result_def post_def)
  then show ?thesis
    unfolding parse_ack_def using assms(1) by (intro typed_binds(1) [where n = n]) auto
qed

lemma typed_result_if: "(b \<Longrightarrow> typed_result B n ty m) \<Longrightarrow> (\<not> b \<Longrightarrow> typed_result B n ty m') \<Longrightarrow> typed_result B n ty (if b then m else m')"
  by simp

lemma typed_parse_stream:
  assumes "length buf \<le> n" "ft_stream ty = Some s"
  shows "typed_result B n ty (parse_stream B s buf)"
proof -
  have ty: "fst STREAM_TYS \<le> ty" "ty \<le> snd STREAM_TYS" "s = ty"
    using assms(2) by (auto simp: ft_stream_def STREAM_TYS_def take_bit_eq_mod split: if_splits)
  show ?thesis
    unfolding parse_stream_def using assms(1) ty by (auto intro!: typed_binds(1,2) [where n = n] typed_result_Ok)
qed

lemma typed_parse_others:
  assumes "length buf \<le> n"
  shows "typed_result B n TRANSPORT_CLOSE (parse_transport_close B buf)"
    "typed_result B n NEW_CONNECTION_ID (parse_new_connection_id B buf)"
  unfolding parse_transport_close_def parse_new_connection_id_def using assms
  by (auto intro!: typed_binds(1,2) [where n = n] typed_binds(4) typed_binds(5) typed_result_Ok typed_result_Err typed_result_if)

lemma typed_parse_datagram:
  assumes "length buf \<le> n" "ft_datagram ty = Some d"
  shows "typed_result B n ty (bindO (if di_len d then get_bytes B buf else Ok (buf, [])) (\<lambda>(data, buf). Ok (Datagram \<lparr>dg_data = data\<rparr>, buf)))"
proof (rule typed_result_bind [where Q = "\<lambda>v b. length v \<le> n"])
  show "post (if di_len d then get_bytes B buf else Ok (buf, [])) (\<lambda>(v, b). length v \<le> n)"
    using assms(1) by (auto intro!: post_if post_Ok intro: post_weaken [OF typed_bytes])
qed (use assms(2) in \<open>auto intro!: typed_result_Ok simp: ft_datagram_def split: if_splits\<close>)

lemma typed_parse_frame:
  assumes "bytes_crate B" "length buf \<le> n"
  shows "typed_result B n ty (parse_frame B ty buf)"
  unfolding parse_frame_def
  using assms typed_parse_others [OF assms(2)] typed_parse_ack [OF assms(2)] typed_parse_stream [OF assms(2)] typed_parse_datagram [OF assms(2)]
  by (intro typed_result_if) (auto intro!: typed_binds(1,2) [where n = n] typed_binds(3) [where n = n] typed_result_Ok typed_result_Err
      split: option.split)

section \<open>Properties\<close>

text \<open>
  C28. Parsed frames are well typed: every integer field of a frame that the parser returns is within the range of a
  variable-length integer (a path token within 64 bits), every byte string fits into the payload it was read from, a connection
  identifier has between 1 and 20 bytes and retires only numbers up to its own, the ranges of an acknowledgement can be
  iterated and lie in order below the largest number, and the frame is of the type that was read.
\<close>

theorem parsed_frame_typed:
  assumes "bytes_crate B" "try_next B p = (Ok (f, rest), ty)"
  shows "frame_typed B (length (fp_bytes p)) f \<and> (\<exists>t. ty = Some t \<and> type_matches t f)"
proof -
  obtain t buf where t: "try_get_varint B (fp_bytes p) = Ok (t, buf)" "parse_frame B t buf = Ok (f, rest)" "ty = Some t"
    using assms(2) by (auto simp: try_next_def split: outcome.splits prod.splits)
  have "length buf \<le> length (fp_bytes p)" using try_get_varint_shorter [OF t(1)] by simp
  from typed_parse_frame [OF assms(1) this, of t] show ?thesis using t(2,3) by (simp add: typed_result_def post_def)
qed

text \<open>A STREAM frame on stream 4 at offset 2 with FIN and three bytes.\<close>

theorem parsed_frame_typed_witness:
  "frame_typed std_bytes (length ([15, 4, 2, 3, 5, 6, 7] :: bytes)) (Stream \<lparr>sf_id = 4, sf_offset = 2, sf_fin = True, sf_data = [5, 6, 7]\<rparr>) \<and>
    (\<exists>t. Some 15 = Some t \<and> type_matches t (Stream \<lparr>sf_id = 4, sf_offset = 2, sf_fin = True, sf_data = [5, 6, 7]\<rparr>))"
proof -
  have "try_next std_bytes \<lparr>fp_bytes = [15, 4, 2, 3, 5, 6, 7], fp_last_ty = None\<rparr> =
      (Ok (Stream \<lparr>sf_id = 4, sf_offset = 2, sf_fin = True, sf_data = [5, 6, 7]\<rparr>, []), Some 15)"
    by code_simp
  from parsed_frame_typed [OF std.bytes_crate_axioms this] show ?thesis by simp
qed

end
