(* ===== verification/Text.thy ===== *)
theory Text
  imports Frame
begin

text \<open>
  The texts of identifiers, error codes and frames: the \<open>Display\<close> and \<open>Debug\<close> impls of
  \<open>proto/src/common.rs\<close>, \<open>error.rs\<close> and \<open>frame.rs\<close>, with the formats of the standard library they use.
\<close>

section \<open>Numbers\<close>

text \<open>\<open>{}\<close>, \<open>{:x}\<close> and \<open>{:02x}\<close> of an unsigned number.\<close>

definition digit :: "nat \<Rightarrow> char" where
  "digit n = (if n < 10 then char_of (48 + n) else char_of (87 + n))"

fun digits :: "nat \<Rightarrow> nat \<Rightarrow> string" where
  "digits base n = (if base < 2 \<or> n < base then [digit n] else digits base (n div base) @ [digit (n mod base)])"

declare digits.simps [simp del]

definition dec :: "nat \<Rightarrow> string" where "dec n = digits 10 n"
definition hex :: "nat \<Rightarrow> string" where "hex n = digits 16 n"

definition hex2 :: "nat \<Rightarrow> string" where
  "hex2 n = (let s = hex n in if length s < 2 then ''0'' @ s else s)"

section \<open>Identifiers\<close>

fun side_display :: "side \<Rightarrow> string" where
  "side_display Client = ''client''"
| "side_display Server = ''server''"

fun dir_display :: "dir \<Rightarrow> string" where
  "dir_display Bi = ''bidirectional''"
| "dir_display Uni = ''unidirectional''"

definition stream_id_display :: "stream_id \<Rightarrow> string" where
  "stream_id_display sid =
     side_display (initiator sid) @ '' '' @ dir_display (stream_dir sid) @ '' stream '' @ dec (stream_index sid)"

definition cid_display :: "connection_id \<Rightarrow> string" where
  "cid_display cid = concat (map (\<lambda>byte. hex2 (unat byte)) (cid_deref cid))"

definition reset_token_display :: "reset_token \<Rightarrow> string" where
  "reset_token_display tok = concat (map (\<lambda>byte. hex2 (unat byte)) tok)"

section \<open>Errors\<close>

definition error_code_debug :: "transport_error_code \<Rightarrow> string" where
  "error_code_debug x =
     (if x = NO_ERROR then ''NO_ERROR''
      else if x = INTERNAL_ERROR then ''INTERNAL_ERROR''
      else if x = CONNECTION_REFUSED then ''CONNECTION_REFUSED''
      else if x = FLOW_CONTROL_ERROR then ''FLOW_CONTROL_ERROR''
      else if x = STREAM_LIMIT_ERROR then ''STREAM_LIMIT_ERROR''
      else if x = STREAM_STATE_ERROR then ''STREAM_STATE_ERROR''
      else if x = FINAL_SIZE_ERROR then ''FINAL_SIZE_ERROR''
      else if x = FRAME_ENCODING_ERROR then ''FRAME_ENCODING_ERROR''
      else if x = TRANSPORT_PARAMETER_ERROR then ''TRANSPORT_PARAMETER_ERROR''
      else if x = CONNECTION_ID_LIMIT_ERROR then ''CONNECTION_ID_LIMIT_ERROR''
      else if x = PROTOCOL_VIOLATION then ''PROTOCOL_VIOLATION''
      else if x = INVALID_TOKEN then ''INVALID_TOKEN''
      else if x = APPLICATION_ERROR then ''APPLICATION_ERROR''
      else if x = CRYPTO_BUFFER_EXCEEDED then ''CRYPTO_BUFFER_EXCEEDED''
      else if x = KEY_UPDATE_ERROR then ''KEY_UPDATE_ERROR''
      else if x = AEAD_LIMIT_REACHED then ''AEAD_LIMIT_REACHED''
      else if x = NO_VIABLE_PATH then ''NO_VIABLE_PATH''
      else if 0x100 \<le> x \<and> x < 0x200 then ''Code::crypto('' @ hex2 (x mod 256) @ '')''
      else ''Code('' @ hex x @ '')'')"

definition error_code_display :: "transport_error_code \<Rightarrow> string" where
  "error_code_display x =
     (if x = NO_ERROR then ''the connection is being closed abruptly in the absence of any error''
      else if x = INTERNAL_ERROR then ''the endpoint encountered an internal error and cannot continue with the connection''
      else if x = CONNECTION_REFUSED then ''the server refused to accept a new connection''
      else if x = FLOW_CONTROL_ERROR then ''received more data than permitted in advertised data limits''
      else if x = STREAM_LIMIT_ERROR then ''received a frame for a stream identifier that exceeded advertised the stream limit for the corresponding stream type''
      else if x = STREAM_STATE_ERROR then ''received a frame for a stream that was not in a state that permitted that frame''
      else if x = FINAL_SIZE_ERROR then ''received a STREAM frame or a RESET_STREAM frame containing a different final size to the one already established''
      else if x = FRAME_ENCODING_ERROR then ''received a frame that was badly formatted''
      else if x = TRANSPORT_PARAMETER_ERROR then ''received transport parameters that were badly formatted, included an invalid value, was absent even though it is mandatory, was present though it is forbidden, or is otherwise in error''
      else if x = CONNECTION_ID_LIMIT_ERROR then ''the number of connection IDs provided by the peer exceeds the advertised active_connection_id_limit''
      else if x = PROTOCOL_VIOLATION then ''detected an error with protocol compliance that was not covered by more specific error codes''
      else if x = INVALID_TOKEN then ''received an invalid Retry Token in a client Initial''
      else if x = APPLICATION_ERROR then ''the application or application protocol caused the connection to be closed during the handshake''
      else if x = CRYPTO_BUFFER_EXCEEDED then ''received more data in CRYPTO frames than can be buffered''
      else if x = KEY_UPDATE_ERROR then ''key update error''
      else if x = AEAD_LIMIT_REACHED then ''the endpoint has reached the confidentiality or integrity limit for the AEAD algorithm''
      else if x = NO_VIABLE_PATH then ''no viable network path exists''
      else if 0x100 \<le> x \<and> x < 0x200 then ''the cryptographic handshake failed: error '' @ dec (x AND 0xFF)
      else ''unknown error'')"

section \<open>Frame types\<close>

definition frame_type_name :: "nat \<Rightarrow> string option" where
  "frame_type_name x =
     map_of [(PADDING, ''PADDING''),
       (PING, ''PING''),
       (ACK, ''ACK''),
       (ACK_ECN, ''ACK_ECN''),
       (RESET_STREAM, ''RESET_STREAM''),
       (STOP_SENDING, ''STOP_SENDING''),
       (CRYPTO, ''CRYPTO''),
       (NEW_TOKEN, ''NEW_TOKEN''),
       (MAX_DATA, ''MAX_DATA''),
       (MAX_STREAM_DATA, ''MAX_STREAM_DATA''),
       (MAX_STREAMS_BIDI, ''MAX_STREAMS_BIDI''),
       (MAX_STREAMS_UNI, ''MAX_STREAMS_UNI''),
       (DATA_BLOCKED, ''DATA_BLOCKED''),
       (STREAM_DATA_BLOCKED, ''STREAM_DATA_BLOCKED''),
       (STREAMS_BLOCKED_BIDI, ''STREAMS_BLOCKED_BIDI''),
       (STREAMS_BLOCKED_UNI, ''STREAMS_BLOCKED_UNI''),
       (NEW_CONNECTION_ID, ''NEW_CONNECTION_ID''),
       (RETIRE_CONNECTION_ID, ''RETIRE_CONNECTION_ID''),
       (PATH_CHALLENGE, ''PATH_CHALLENGE''),
       (PATH_RESPONSE, ''PATH_RESPONSE''),
       (TRANSPORT_CLOSE, ''TRANSPORT_CLOSE''),
       (APPLICATION_CLOSE, ''APPLICATION_CLOSE''),
       (HANDSHAKE_DONE, ''HANDSHAKE_DONE''),
       (ACK_FREQUENCY, ''ACK_FREQUENCY''),
       (IMMEDIATE_ACK, ''IMMEDIATE_ACK'')] x"

definition frame_type_debug :: "nat \<Rightarrow> string" where
  "frame_type_debug x = (case frame_type_name x of Some s \<Rightarrow> s | None \<Rightarrow> ''Type('' @ hex2 x @ '')'')"

definition frame_type_display :: "nat \<Rightarrow> string" where
  "frame_type_display x =
     (case frame_type_name x of
        Some s \<Rightarrow> s
      | None \<Rightarrow>
          if fst STREAM_TYS \<le> x \<and> x \<le> snd STREAM_TYS then ''STREAM''
          else if fst DATAGRAM_TYS \<le> x \<and> x \<le> snd DATAGRAM_TYS then ''DATAGRAM''
          else ''<unknown '' @ hex2 x @ ''>'')"

definition transport_error_display :: "transport_error \<Rightarrow> string" where
  "transport_error_display e =
     error_code_display (te_code e) @
     (case te_frame e of Some frame \<Rightarrow> '' in '' @ frame_type_display frame | None \<Rightarrow> []) @
     (if te_reason e \<noteq> [] then '': '' @ te_reason e else [])"

section \<open>Acknowledgements\<close>

text \<open>The derived \<open>Debug\<close> of \<open>Option<EcnCounts>\<close>.\<close>

definition ecn_debug :: "ecn_counts option \<Rightarrow> string" where
  "ecn_debug ecn =
     (case ecn of
        None \<Rightarrow> ''None''
      | Some x \<Rightarrow> ''Some(EcnCounts { ect0: '' @ dec (ect0 x) @ '', ect1: '' @ dec (ect1 x) @ '', ce: '' @ dec (ce x) @ '' })'')"

text \<open>The loop over the ranges, with its flag for the first one.\<close>

fun ranges_debug :: "bool \<Rightarrow> (nat \<times> nat) list \<Rightarrow> string" where
  "ranges_debug first [] = []"
| "ranges_debug first ((a, b) # rs) =
     (if \<not> first then '','' else []) @ dec a @ ''..='' @ dec b @ ranges_debug False rs"

definition ack_debug :: "bytes_api \<Rightarrow> ack \<Rightarrow> (string, 'e) outcome" where
  "ack_debug B a =
     bindO (ack_ranges B a) (\<lambda>rs.
     Ok (''Ack { largest: '' @ dec (ack_largest a) @ '', delay: '' @ dec (ack_delay a) @ '', ecn: '' @ ecn_debug (ack_ecn a) @
         '', ranges: '' @ [CHR 0x22] @ ''['' @ ranges_debug True rs @ '']'' @ [CHR 0x22] @ '' }''))"

section \<open>Reading the texts back\<close>

definition undigit :: "char \<Rightarrow> nat" where
  "undigit c = (let n = of_char c in if n < 58 then n - 48 else n - 87)"

definition undigits :: "nat \<Rightarrow> string \<Rightarrow> nat" where
  "undigits base s = foldl (\<lambda>acc c. base * acc + undigit c) 0 s"

fun unhex :: "string \<Rightarrow> bytes option" where
  "unhex [] = Some []"
| "unhex [c] = None"
| "unhex (c # d # s) = map_option (\<lambda>bs. word_of_nat (16 * undigit c + undigit d) # bs) (unhex s)"

lemma undigit_digit: "n < 16 \<Longrightarrow> undigit (digit n) = n"
  by (auto simp: undigit_def digit_def Let_def)

lemma undigits_digits:
  assumes "2 \<le> base" "base \<le> 16"
  shows "undigits base (digits base n) = n"
proof (induction n rule: less_induct)
  case (less n)
  show ?case
  proof (cases "n < base")
    case True
    then show ?thesis using assms undigit_digit [of n] by (simp add: digits.simps undigits_def)
  next
    case False
    then have "n div base < n" using assms by simp
    moreover have "n mod base < 16" using assms mod_less_divisor [of base n] by linarith
    ultimately show ?thesis
      using less.IH [of "n div base"] False assms by (simp add: digits.simps [of base n] undigits_def undigit_digit)
  qed
qed

lemma digit_0: "digit 0 = CHR ''0''"
  by code_simp

lemma hex2_byte: "n < 256 \<Longrightarrow> hex2 n = [digit (n div 16), digit (n mod 16)]"
  by (cases "n < 16") (simp_all add: hex2_def hex_def digits.simps [of 16] digit_0 Let_def)

lemma unhex_hex2: "unhex (concat (map (\<lambda>byte. hex2 (unat byte)) bs)) = Some (bs :: bytes)"
proof (induction bs)
  case (Cons b bs)
  have b: "unat b < 256" using unsigned_less [of b] by simp
  then have "16 * undigit (digit (unat b div 16)) + undigit (digit (unat b mod 16)) = unat b"
    by (simp add: undigit_digit)
  then show ?case using Cons b by (simp add: hex2_byte)
qed simp

lemma undigits_dec: "undigits 10 (dec n) = n"
  unfolding dec_def by (rule undigits_digits) simp_all

lemma dec_inject: "dec m = dec n \<longleftrightarrow> m = n"
  by (metis undigits_dec)

lemma stream_id_display_inject:
  assumes "a < 2 ^ 64" "b < 2 ^ 64" "stream_id_display a = stream_id_display b"
  shows "a = b"
proof -
  have "initiator a = initiator b \<and> stream_dir a = stream_dir b \<and> stream_index a = stream_index b"
    using assms(3)
    by (cases "initiator a"; cases "initiator b"; cases "stream_dir a"; cases "stream_dir b")
      (simp_all add: stream_id_display_def dec_inject)
  then show ?thesis using stream_id_rebuild assms(1,2) by metis
qed

section \<open>Properties\<close>

text \<open>
  C39. Identifiers print without loss: the bytes of a connection identifier and of a reset token can be read back from their
  texts, two digits for each byte, and two streams with the same text are the same stream.
\<close>

theorem identifiers_print_uniquely:
  "unhex (cid_display cid) = Some (cid_deref cid) \<and> unhex (reset_token_display tok) = Some tok \<and>
    (a < 2 ^ 64 \<longrightarrow> b < 2 ^ 64 \<longrightarrow> stream_id_display a = stream_id_display b \<longrightarrow> a = b)"
  using stream_id_display_inject [of a b] by (simp add: cid_display_def reset_token_display_def unhex_hex2)

theorem identifiers_print_uniquely_witness:
  "unhex (cid_display \<lparr>cid_len = 2, cid_bytes = [10, 255]\<rparr>) = Some [10, 255] \<and>
    cid_display \<lparr>cid_len = 2, cid_bytes = [10, 255]\<rparr> = ''0aff'' \<and>
    stream_id_display 6 = ''client unidirectional stream 1'' \<and> stream_id_display 6 \<noteq> stream_id_display 4"
proof -
  have "cid_display \<lparr>cid_len = 2, cid_bytes = [10, 255]\<rparr> = ''0aff''" "stream_id_display 6 = ''client unidirectional stream 1''" by code_simp+
  then show ?thesis
    using identifiers_print_uniquely [of "\<lparr>cid_len = 2, cid_bytes = [10, 255]\<rparr>" "[]" 6 4] by (simp add: cid_deref_def)
qed

end
