(* ===== verification/Packet.thy ===== *)
theory Packet
  imports Common
begin

unbundle bit_operations_syntax

text \<open>
  Packet numbers and packet headers (\<open>proto/src/packet.rs\<close>).  The lemmas show that a truncated
  packet number expands to the number it was made from, that decoding inverts encoding for the
  headers, which packet number space a header belongs to, and on which inputs the decoder fails.
\<close>

section \<open>Long header types and spaces\<close>

definition LONG_HEADER_FORM :: u8 where "LONG_HEADER_FORM = 0x80"
definition FIXED_BIT :: u8 where "FIXED_BIT = 0x40"
definition SPIN_BIT :: u8 where "SPIN_BIT = 0x20"
definition SHORT_RESERVED_BITS :: u8 where "SHORT_RESERVED_BITS = 0x18"
definition LONG_RESERVED_BITS :: u8 where "LONG_RESERVED_BITS = 0x0c"
definition KEY_PHASE_BIT :: u8 where "KEY_PHASE_BIT = 0x04"

lemmas header_bits = LONG_HEADER_FORM_def FIXED_BIT_def SPIN_BIT_def SHORT_RESERVED_BITS_def
  LONG_RESERVED_BITS_def KEY_PHASE_BIT_def

datatype long_type = Handshake | ZeroRtt

datatype long_header_type = LInitial | LRetry | LStandard long_type

definition long_header_type_from :: "u8 \<Rightarrow> (long_header_type, 'e) outcome" where
  "long_header_type_from b =
     (let t = drop_bit 4 (b AND 0x30) in
      if t = 0x0 then Ok LInitial
      else if t = 0x1 then Ok (LStandard ZeroRtt)
      else if t = 0x2 then Ok (LStandard Handshake)
      else if t = 0x3 then Ok LRetry
      else Panic)"

fun long_header_type_byte :: "long_header_type \<Rightarrow> u8" where
  "long_header_type_byte LInitial = LONG_HEADER_FORM OR FIXED_BIT"
| "long_header_type_byte (LStandard ZeroRtt) = LONG_HEADER_FORM OR FIXED_BIT OR push_bit 4 0x1"
| "long_header_type_byte (LStandard Handshake) = LONG_HEADER_FORM OR FIXED_BIT OR push_bit 4 0x2"
| "long_header_type_byte LRetry = LONG_HEADER_FORM OR FIXED_BIT OR push_bit 4 0x3"

datatype space_id = SInitial | SHandshake | SData

section \<open>Packet numbers\<close>

datatype packet_number = U8 "8 word" | U16 "16 word" | U24 "32 word" | U32 "32 word"

definition pn_new :: "nat \<Rightarrow> nat \<Rightarrow> (packet_number, 'e) outcome" where
  "pn_new n largest_acked =
     (let range = mul64 (sub64 n largest_acked) 2 in
      if range < 2 ^ 8 then Ok (U8 (word_of_nat n))
      else if range < 2 ^ 16 then Ok (U16 (word_of_nat n))
      else if range < 2 ^ 24 then Ok (U24 (word_of_nat n))
      else if range < 2 ^ 32 then Ok (U32 (word_of_nat n))
      else Panic)"

fun pn_len :: "packet_number \<Rightarrow> nat" where
  "pn_len (U8 _) = 1"
| "pn_len (U16 _) = 2"
| "pn_len (U24 _) = 3"
| "pn_len (U32 _) = 4"

text \<open>The number held by the constructor, \<open>u64::from(x)\<close>.\<close>

fun pn_val :: "packet_number \<Rightarrow> nat" where
  "pn_val (U8 x) = unat x"
| "pn_val (U16 x) = unat x"
| "pn_val (U24 x) = unat x"
| "pn_val (U32 x) = unat x"

fun pn_encode :: "bytes_api \<Rightarrow> packet_number \<Rightarrow> writer \<Rightarrow> (writer, 'e) outcome" where
  "pn_encode B (U8 x) w = put_uint B 1 (unat x) w"
| "pn_encode B (U16 x) w = put_uint B 2 (unat x) w"
| "pn_encode B (U24 x) w = put_uint B 3 (unat x) w"
| "pn_encode B (U32 x) w = put_uint B 4 (unat x) w"

datatype packet_decode_error =
    UnsupportedVersion connection_id connection_id nat
  | UnexpectedEndOfHeader try_get_error
  | ReservedBitsSet
  | FixedBitUnset

definition pn_decode :: "bytes_api \<Rightarrow> nat \<Rightarrow> bytes \<Rightarrow> (packet_number \<times> bytes, packet_decode_error) outcome" where
  "pn_decode B len r =
     (let get = (\<lambda>n. map_err UnexpectedEndOfHeader (try_get_uint B n r)) in
      if len = 1 then bindO (get 1) (\<lambda>(x, r). Ok (U8 (word_of_nat x), r))
      else if len = 2 then bindO (get 2) (\<lambda>(x, r). Ok (U16 (word_of_nat x), r))
      else if len = 3 then bindO (get 3) (\<lambda>(x, r). Ok (U24 (word_of_nat x), r))
      else if len = 4 then bindO (get 4) (\<lambda>(x, r). Ok (U32 (word_of_nat x), r))
      else Panic)"

definition pn_decode_len :: "u8 \<Rightarrow> nat" where
  "pn_decode_len t = 1 + unat (t AND 0x03)"

fun pn_tag :: "packet_number \<Rightarrow> u8" where
  "pn_tag (U8 _) = 0"
| "pn_tag (U16 _) = 1"
| "pn_tag (U24 _) = 2"
| "pn_tag (U32 _) = 3"

definition pn_expand :: "packet_number \<Rightarrow> nat \<Rightarrow> nat" where
  "pn_expand pn expected =
     (let truncated = pn_val pn;
          nbits = pn_len pn * 8;
          win = push_bit nbits 1;
          hwin = win div 2;
          msk = win - 1;
          candidate = (expected AND (u64_max - msk)) OR truncated in
      if (case checked_sub expected hwin of None \<Rightarrow> False | Some x \<Rightarrow> candidate \<le> x)
      then add64 candidate win
      else if candidate > add64 expected hwin \<and> candidate > win then sub64 candidate win
      else candidate)"

section \<open>Headers\<close>

record initial_header =
  ih_dst_cid :: connection_id
  ih_src_cid :: connection_id
  ih_token :: bytes
  ih_number :: packet_number
  ih_version :: nat

datatype header =
    HInitial initial_header
  | HLong long_type connection_id connection_id packet_number nat
  | HRetry connection_id connection_id nat
  | HShort bool bool connection_id packet_number
  | HVersionNegotiate u8 connection_id connection_id

text \<open>
  Argument order: \<open>HLong ty dst src number version\<close>, \<open>HRetry dst src version\<close>,
  \<open>HShort spin key_phase dst number\<close>, \<open>HVersionNegotiate random src dst\<close>.
\<close>

fun is_protected :: "header \<Rightarrow> bool" where
  "is_protected (HRetry _ _ _) = False"
| "is_protected (HVersionNegotiate _ _ _) = False"
| "is_protected _ = True"

fun header_number :: "header \<Rightarrow> packet_number option" where
  "header_number (HInitial h) = Some (ih_number h)"
| "header_number (HLong _ _ _ n _) = Some n"
| "header_number (HShort _ _ _ n) = Some n"
| "header_number _ = None"

fun header_space :: "header \<Rightarrow> space_id" where
  "header_space (HShort _ _ _ _) = SData"
| "header_space (HLong ZeroRtt _ _ _ _) = SData"
| "header_space (HLong Handshake _ _ _ _) = SHandshake"
| "header_space _ = SInitial"

fun header_key_phase :: "header \<Rightarrow> bool" where
  "header_key_phase (HShort _ k _ _) = k"
| "header_key_phase _ = False"

fun is_1rtt :: "header \<Rightarrow> bool" where
  "is_1rtt (HShort _ _ _ _) = True"
| "is_1rtt _ = False"

fun is_0rtt :: "header \<Rightarrow> bool" where
  "is_0rtt (HLong ZeroRtt _ _ _ _) = True"
| "is_0rtt _ = False"

fun header_dst_cid :: "header \<Rightarrow> connection_id" where
  "header_dst_cid (HInitial h) = ih_dst_cid h"
| "header_dst_cid (HLong _ d _ _ _) = d"
| "header_dst_cid (HRetry d _ _) = d"
| "header_dst_cid (HShort _ _ d _) = d"
| "header_dst_cid (HVersionNegotiate _ _ d) = d"

fun has_frames :: "header \<Rightarrow> bool" where
  "has_frames (HInitial _) = True"
| "has_frames (HLong _ _ _ _ _) = True"
| "has_frames (HShort _ _ _ _) = True"
| "has_frames (HRetry _ _ _) = False"
| "has_frames (HVersionNegotiate _ _ _) = False"

fun header_encode :: "bytes_api \<Rightarrow> header \<Rightarrow> writer \<Rightarrow> (writer, 'e) outcome" where
  "header_encode B (HInitial h) w =
     bindO (put_uint B 1 (unat (long_header_type_byte LInitial OR pn_tag (ih_number h))) w) (\<lambda>w.
     bindO (put_uint B 4 (ih_version h) w) (\<lambda>w.
     bindO (cid_encode B (ih_dst_cid h) w) (\<lambda>w.
     bindO (cid_encode B (ih_src_cid h) w) (\<lambda>w.
     bindO (put_bytes_with_varint_length B (ih_token h) w) (\<lambda>w.
     bindO (put_varint B (pn_len (ih_number h)) w) (\<lambda>w.
     pn_encode B (ih_number h) w))))))"
| "header_encode B (HLong ty dst src number version) w =
     bindO (put_uint B 1 (unat (long_header_type_byte (LStandard ty) OR pn_tag number)) w) (\<lambda>w.
     bindO (put_uint B 4 version w) (\<lambda>w.
     bindO (cid_encode B dst w) (\<lambda>w.
     bindO (cid_encode B src w) (\<lambda>w.
     bindO (put_varint B (pn_len number) w) (\<lambda>w.
     pn_encode B number w)))))"
| "header_encode B (HRetry dst src version) w =
     bindO (put_uint B 1 (unat (long_header_type_byte LRetry)) w) (\<lambda>w.
     bindO (put_uint B 4 version w) (\<lambda>w.
     bindO (cid_encode B dst w) (\<lambda>w. cid_encode B src w)))"
| "header_encode B (HShort spin key_phase dst number) w =
     bindO (put_uint B 1 (unat (FIXED_BIT OR (if key_phase then KEY_PHASE_BIT else 0)
        OR (if spin then SPIN_BIT else 0) OR pn_tag number)) w) (\<lambda>w.
     bindO (put_slice (cid_deref dst) w) (\<lambda>w. pn_encode B number w))"
| "header_encode B (HVersionNegotiate random src dst) w =
     bindO (put_uint B 1 (unat (0x80 OR random)) w) (\<lambda>w.
     bindO (put_uint B 4 0 w) (\<lambda>w.
     bindO (cid_encode B dst w) (\<lambda>w. cid_encode B src w)))"

abbreviation hdr :: "('a, try_get_error) outcome \<Rightarrow> ('a, packet_decode_error) outcome" where
  "hdr m \<equiv> map_err UnexpectedEndOfHeader m"

definition decode_short :: "bytes_api \<Rightarrow> u8 \<Rightarrow> nat \<Rightarrow> bytes \<Rightarrow> (header \<times> bytes, packet_decode_error) outcome" where
  "decode_short B first len buf =
     (if first AND SHORT_RESERVED_BITS \<noteq> 0 then Err ReservedBitsSet
      else
        let spin = (first AND SPIN_BIT \<noteq> 0); key_phase = (first AND KEY_PHASE_BIT \<noteq> 0) in
        bindO (hdr (cid_from_buf buf len)) (\<lambda>(dst, buf).
        bindO (pn_decode B (pn_decode_len first) buf) (\<lambda>(number, buf).
        Ok (HShort spin key_phase dst number, buf))))"

definition decode_long :: "bytes_api \<Rightarrow> u8 \<Rightarrow> nat list \<Rightarrow> bytes \<Rightarrow> (header \<times> bytes, packet_decode_error) outcome" where
  "decode_long B first supported buf =
     (if first AND LONG_RESERVED_BITS \<noteq> 0 then Err ReservedBitsSet
      else
        bindO (long_header_type_from first) (\<lambda>ty.
        bindO (hdr (try_get_uint B 4 buf)) (\<lambda>(version, buf).
        bindO (hdr (cid_decode B buf)) (\<lambda>(dst, buf).
        bindO (hdr (cid_decode B buf)) (\<lambda>(src, buf).
        if version = 0 then Ok (HVersionNegotiate (first AND NOT LONG_HEADER_FORM) src dst, buf)
        else if version \<notin> set supported then Err (UnsupportedVersion src dst version)
        else case ty of
          LInitial \<Rightarrow>
            bindO (hdr (try_get_bytes_with_varint_length B buf)) (\<lambda>(tok, buf).
            bindO (hdr (try_get_varint B buf)) (\<lambda>(_, buf).
            bindO (pn_decode B (pn_decode_len first) buf) (\<lambda>(number, buf).
            Ok (HInitial \<lparr>ih_dst_cid = dst, ih_src_cid = src, ih_token = tok, ih_number = number,
                  ih_version = version\<rparr>, buf))))
        | LRetry \<Rightarrow> Ok (HRetry dst src version, buf)
        | LStandard t \<Rightarrow>
            bindO (hdr (try_get_varint B buf)) (\<lambda>(_, buf).
            bindO (pn_decode B (pn_decode_len first) buf) (\<lambda>(number, buf).
            Ok (HLong t dst src number version, buf))))))))"

definition header_decode :: "bytes_api \<Rightarrow> bytes \<Rightarrow> nat \<Rightarrow> nat list \<Rightarrow> (header \<times> bytes, packet_decode_error) outcome" where
  "header_decode B buf len supported =
     bindO (hdr (try_get_uint B 1 buf)) (\<lambda>(first, buf).
       let first = (word_of_nat first :: u8) in
       if first AND FIXED_BIT = 0 then Err FixedBitUnset
       else if first AND LONG_HEADER_FORM = 0 then decode_short B first len buf
       else decode_long B first supported buf)"

section \<open>Packet numbers expand to what was truncated\<close>

lemma and_high_mask:
  fixes x :: nat
  assumes "x < 2 ^ 64" "k \<le> 64"
  shows "x AND (u64_max - (2 ^ k - 1)) = x - x mod 2 ^ k"
proof -
  have "u64_max - (2 ^ k - 1) = push_bit k (mask (64 - k))"
    using assms(2) by (simp add: u64_max_def push_bit_eq_mult mask_eq_exp_minus_1 diff_mult_distrib
        flip: power_add)
  moreover have "x AND push_bit k (mask (64 - k)) = push_bit k (drop_bit k x)"
  proof (rule bit_eqI)
    fix i
    have "bit x i \<Longrightarrow> i < 64" using assms(1) by (metis bit_take_bit_iff take_bit_nat_eq_self)
    then show "bit (x AND push_bit k (mask (64 - k))) i \<longleftrightarrow> bit (push_bit k (drop_bit k x)) i"
      by (auto simp: bit_and_iff bit_push_bit_iff bit_mask_iff bit_drop_bit_eq)
  qed
  ultimately show ?thesis
    by (simp add: push_bit_eq_mult drop_bit_eq_div minus_mod_eq_div_mult)
qed

text \<open>The three cases of \<open>expand\<close>, for a window of size \<open>2 h\<close>.\<close>

lemma window_cases:
  fixes n expected h :: nat
  defines "c \<equiv> expected - expected mod (2 * h) + n mod (2 * h)"
  assumes "expected < n + h" "n \<le> expected + h" "0 < h"
  shows "if h \<le> expected \<and> c \<le> expected - h then n = c + 2 * h
    else if expected + h < c \<and> 2 * h < c then n = c - 2 * h else n = c"
proof -
  define w q m r a where "w = 2 * h" and "q = expected div w" and "m = n div w"
    and "r = expected mod w" and "a = n mod w"
  have r: "r < w" "a < w" using assms(4) by (simp_all add: r_def a_def w_def)
  have e: "expected = w * q + r" and n: "n = w * m + a" by (simp_all add: q_def r_def m_def a_def)
  have c: "c = w * q + a" using e unfolding c_def w_def [symmetric] a_def [symmetric] r_def [symmetric] by simp
  have "w * m < w * (q + 2)" using assms(3) e n r unfolding distrib_left w_def by linarith
  moreover have "w * q < w * (m + 2)" using assms(2) e n r unfolding distrib_left w_def by linarith
  ultimately have "m < q + 2" "q < m + 2" by (simp_all only: nat_mult_less_cancel1 mult_less_cancel1)
  then consider "m = Suc q" | "m = q" | "q = Suc m" by linarith
  then show ?thesis
  proof cases
    case 1
    then have "n = c + w" using n c by simp
    then show ?thesis using assms(2,3) by (auto simp: w_def)
  next
    case 2
    then have "n = c" using n c by simp
    then show ?thesis using assms(2,3) by auto
  next
    case 3
    then have "c = n + w" "w \<le> expected" using n c e by simp_all
    then show ?thesis using assms(2,3) by (auto simp: w_def)
  qed
qed

text \<open>\<open>expand\<close> finds the number in the window around the expected one.\<close>

lemma pn_expand_window:
  assumes val: "pn_val pn = n mod 2 ^ (pn_len pn * 8)"
    and low: "expected < n + 2 ^ (pn_len pn * 8) div 2"
    and high: "n \<le> expected + 2 ^ (pn_len pn * 8) div 2" and big: "expected < 2 ^ 63"
  shows "pn_expand pn expected = n"
proof -
  define k where "k = pn_len pn * 8"
  define h :: nat where "h = 2 ^ k div 2"
  have k: "8 \<le> k" "k \<le> 32" by (cases pn; simp add: k_def)+
  have win: "2 ^ k = 2 * h" "0 < h" "h \<le> 2 ^ 32"
    using power_increasing [OF k(1), of "2::nat"] power_increasing [OF k(2), of "2::nat"] k(1)
    by (simp_all add: h_def)
  define c where "c = expected - expected mod (2 * h) + n mod (2 * h)"
  have "expected AND (u64_max - (2 * h - 1)) = expected - expected mod (2 * h)"
    using and_high_mask [of expected k] big k by (simp add: win(1))
  moreover have "(expected - expected mod (2 * h)) OR n mod (2 * h) = c"
    using push_or_eq_add [of "n mod (2 * h)" k "expected div (2 * h)"] win(2)
    by (simp add: c_def win(1) push_bit_eq_mult minus_mod_eq_div_mult)
  ultimately have cand: "(expected AND (u64_max - (2 * h - 1))) OR pn_val pn = c"
    using val by (simp add: win k_def [symmetric])
  have "n mod (2 * h) < 2 * h" "expected - expected mod (2 * h) \<le> expected" using win(2) by simp_all
  then have small: "c + 2 * h < 2 ^ 64" using big win(3) unfolding c_def by simp
  have pb: "push_bit k 1 = 2 * h" "2 * h div 2 = h" by (simp_all add: push_bit_eq_mult win(1))
  have "pn_expand pn expected =
      (if h \<le> expected \<and> c \<le> expected - h then c + 2 * h
       else if expected + h < c \<and> 2 * h < c then c - 2 * h else c)"
    unfolding pn_expand_def Let_def k_def [symmetric] pb cand
    using small big win(3) by (auto simp: wrap_simps checked_sub_def)
  then show ?thesis
    using window_cases [of expected n h] low high win
    by (simp add: c_def k_def [symmetric] win split: if_splits)
qed

section \<open>Round trips\<close>

text \<open>A \<open>U24\<close> is written with its low three bytes.\<close>

fun pn_norm :: "packet_number \<Rightarrow> packet_number" where
  "pn_norm (U24 x) = U24 (take_bit 24 x)"
| "pn_norm pn = pn"

lemma pn_len_norm [simp]: "pn_len (pn_norm pn) = pn_len pn"
  by (cases pn) simp_all

lemma pn_decode_len_tag: "pn_decode_len (x OR pn_tag pn) = pn_len pn" if "x AND 3 = 0"
proof -
  have "(x OR pn_tag pn) AND 3 = pn_tag pn"
    using that by (cases pn) (simp_all add: and.commute [of _ 3] bit.conj_disj_distrib)
  then show ?thesis by (cases pn) (simp_all add: pn_decode_len_def)
qed

definition pn_bytes :: "bytes_api \<Rightarrow> packet_number \<Rightarrow> bytes" where
  "pn_bytes B pn = be_put B (pn_len pn) (pn_val pn)"

lemma pn_encode_eq [codec_simps]: "pn_encode B pn = put_slice (pn_bytes B pn)"
  by (rule ext, cases pn) (simp_all add: put_uint_def pn_bytes_def)

context bytes_crate
begin

lemma pn_decode_encode [codec_simps]:
  "pn_decode B (pn_len pn) (pn_bytes B pn @ rest) = Ok (pn_norm pn, rest)"
proof -
  have get: "try_get_uint B n (be_put B n v @ rest) = Ok (v mod 256 ^ n, rest)" for n v
    by (simp add: try_get_uint_def put_length get_put)
  have lt: "unat (x :: 8 word) < 2 ^ 8" "unat (y :: 16 word) < 2 ^ 16" "unat (z :: 32 word) < 2 ^ 32" for x y z
    using unsigned_less [of x] unsigned_less [of y] unsigned_less [of z] by simp_all
  have "(word_of_nat (unat x mod 2 ^ 24) :: 32 word) = take_bit 24 x" for x :: "32 word"
    by (simp only: take_bit_eq_mod [symmetric] unsigned_take_bit_eq [symmetric] of_nat_unat ucast_id)
  then show ?thesis
    using lt by (cases pn) (simp_all add: pn_decode_def pn_bytes_def get)
qed

end

lemma pn_new_val:
  assumes "pn_new n largest = Ok pn" "largest \<le> n" "n < 2 ^ 62"
  shows "pn_val (pn_norm pn) = n mod 2 ^ (pn_len pn * 8) \<and> n - largest < 2 ^ (pn_len pn * 8) div 2"
proof -
  have range: "mul64 (sub64 n largest) 2 = (n - largest) * 2"
    using assms(2,3) by (simp add: wrap_simps)
  have "unat (take_bit 24 (word_of_nat n :: 32 word)) = take_bit 24 n"
    by (simp add: unsigned_take_bit_eq unsigned_of_nat)
  then have "unat (take_bit 24 (word_of_nat n :: 32 word)) = n mod 2 ^ 24" by (simp only: take_bit_eq_mod)
  then show ?thesis
    using assms(1) unfolding pn_new_def range Let_def
    by (auto simp: unat_of_nat split: if_splits)
qed

lemma pn_new_Ok: "largest \<le> n \<Longrightarrow> n < 2 ^ 62 \<Longrightarrow> n - largest < 2 ^ 31 \<Longrightarrow> \<exists>pn. pn_new n largest = Ok pn"
  by (auto simp: pn_new_def Let_def wrap_simps)

lemma pn_new_expand:
  assumes "pn_new n largest = Ok pn" "largest \<le> n" "n < 2 ^ 62" "largest \<le> expected" "expected < n + 128"
  shows "pn_expand (pn_norm pn) expected = n"
proof -
  note v = pn_new_val [OF assms(1-3)]
  have "pn_len pn = 1 \<or> pn_len pn = 2 \<or> pn_len pn = 3 \<or> pn_len pn = 4" by (cases pn) simp_all
  then have "(128 :: nat) \<le> 2 ^ (pn_len pn * 8) div 2" by auto
  then show ?thesis using v assms(3-5) by (intro pn_expand_window) (simp_all, linarith+)
qed

text \<open>Sender truncates, receiver decodes and expands.\<close>

context bytes_crate
begin

lemma pn_transmitted:
  assumes "pn_new n largest = Ok pn" "largest \<le> n" "n < 2 ^ 62"
    "largest \<le> expected" "expected < n + 128"
  shows "\<exists>pn'. pn_decode B (pn_len pn) (pn_bytes B pn @ rest) = Ok (pn', rest) \<and> pn_expand pn' expected = n"
  using pn_new_expand [OF assms] by (simp add: pn_decode_encode)

end

lemma or_clear_mask:
  fixes r :: "'a::len word"
  assumes "r AND m = 0"
  shows "(m OR r) AND NOT m = r"
proof -
  have "r = (r AND m) OR (r AND NOT m)" by (simp flip: bit.conj_disj_distrib)
  then show ?thesis using assms by (simp add: bit.conj_disj_distrib2)
qed

text \<open>What the first byte of a header tells the decoder.\<close>

lemma long_first_byte:
  fixes ty :: long_header_type and pn :: packet_number
  defines "b \<equiv> long_header_type_byte ty OR pn_tag pn"
  shows "b AND FIXED_BIT \<noteq> 0" "b AND LONG_HEADER_FORM \<noteq> 0" "b AND LONG_RESERVED_BITS = 0"
    "long_header_type_from b = Ok ty" "pn_decode_len b = pn_len pn"
  unfolding b_def
  by (cases ty rule: long_header_type_byte.cases; cases pn;
      simp add: header_bits long_header_type_from_def pn_decode_len_def)+

lemma short_first_byte:
  fixes spin key_phase :: bool and pn :: packet_number
  defines "b \<equiv> FIXED_BIT OR (if key_phase then KEY_PHASE_BIT else 0) OR (if spin then SPIN_BIT else 0) OR pn_tag pn"
  shows "b AND FIXED_BIT \<noteq> 0" "b AND LONG_HEADER_FORM = 0" "b AND SHORT_RESERVED_BITS = 0"
    "(b AND SPIN_BIT \<noteq> 0) = spin" "(b AND KEY_PHASE_BIT \<noteq> 0) = key_phase" "pn_decode_len b = pn_len pn"
  unfolding b_def
  by (cases pn; simp add: header_bits pn_decode_len_def)+

text \<open>Headers a decoder accepts: versions supported, connection identifiers well formed.\<close>

fun header_ok :: "nat \<Rightarrow> nat list \<Rightarrow> header \<Rightarrow> bool" where
  "header_ok len versions (HInitial h) \<longleftrightarrow>
     cid_wf (ih_dst_cid h) \<and> cid_wf (ih_src_cid h) \<and> length (ih_token h) \<le> VARINT_MAX \<and>
     ih_version h \<in> set versions \<and> 0 < ih_version h \<and> ih_version h < 2 ^ 32"
| "header_ok len versions (HLong ty dst src number version) \<longleftrightarrow>
     cid_wf dst \<and> cid_wf src \<and> version \<in> set versions \<and> 0 < version \<and> version < 2 ^ 32"
| "header_ok len versions (HRetry dst src version) \<longleftrightarrow>
     cid_wf dst \<and> cid_wf src \<and> version \<in> set versions \<and> 0 < version \<and> version < 2 ^ 32"
| "header_ok len versions (HShort spin key_phase dst number) \<longleftrightarrow> cid_wf dst \<and> cid_len dst = len"
| "header_ok len versions (HVersionNegotiate random src dst) \<longleftrightarrow>
     cid_wf dst \<and> cid_wf src \<and> random AND FIXED_BIT \<noteq> 0 \<and> random AND LONG_RESERVED_BITS = 0 \<and>
     random AND LONG_HEADER_FORM = 0"

fun header_norm :: "header \<Rightarrow> header" where
  "header_norm (HInitial h) = HInitial (h\<lparr>ih_number := pn_norm (ih_number h)\<rparr>)"
| "header_norm (HLong ty dst src number version) = HLong ty dst src (pn_norm number) version"
| "header_norm (HShort spin key_phase dst number) = HShort spin key_phase dst (pn_norm number)"
| "header_norm h = h"

lemma pn_len_small: "pn_len pn \<le> VARINT_MAX"
  by (cases pn) (simp_all add: varint_max_values)

lemma long_header_type_from_Ok: "\<exists>ty. long_header_type_from b = Ok ty"
proof -
  define t where "t = drop_bit 4 (b AND 0x30)"
  have "t = take_bit 2 (drop_bit 4 b)"
    by (simp add: t_def drop_bit_and take_bit_eq_mask mask_eq_exp_minus_1)
  then have "unat t < 4"
    using take_bit_nat_less_exp [of 2 "unat (drop_bit 4 b)"] by (simp add: unsigned_take_bit_eq)
  then have "unat t = 0 \<or> unat t = 1 \<or> unat t = 2 \<or> unat t = 3" by arith
  moreover have "t = word_of_nat k" if "unat t = k" for k using that by auto
  ultimately have "t = word_of_nat 0 \<or> t = word_of_nat 1 \<or> t = word_of_nat 2 \<or> t = word_of_nat 3"
    by blast
  then show ?thesis unfolding long_header_type_from_def t_def [symmetric] Let_def by auto
qed

context bytes_crate
begin

lemma u8_round: "unat (b :: u8) < 256 ^ 1"
  using unat_u8_lt [of b] by simp

lemma header_decode_first:
  "header_decode B (be_put B 1 (unat b) @ buf) len versions =
     (if b AND FIXED_BIT = 0 then Err FixedBitUnset
      else if b AND LONG_HEADER_FORM = 0 then decode_short B b len buf
      else decode_long B b versions buf)"
  by (simp add: header_decode_def try_get_uint_put [OF u8_round] Let_def del: One_nat_def)

lemma decode_long_prefix:
  assumes "b AND LONG_RESERVED_BITS = 0" "long_header_type_from b = (Ok ty :: (_, packet_decode_error) outcome)"
    "version < 2 ^ 32" "cid_wf dst" "cid_wf src"
  shows "decode_long B b versions
      (be_put B 4 version @ be_put B 1 (cid_len dst) @ cid_deref dst @ be_put B 1 (cid_len src) @ cid_deref src @ buf) =
    (if version = 0 then Ok (HVersionNegotiate (b AND NOT LONG_HEADER_FORM) src dst, buf)
     else if version \<notin> set versions then Err (UnsupportedVersion src dst version)
     else case ty of
          LInitial \<Rightarrow>
            bindO (hdr (try_get_bytes_with_varint_length B buf)) (\<lambda>(tok, buf).
            bindO (hdr (try_get_varint B buf)) (\<lambda>(_, buf).
            bindO (pn_decode B (pn_decode_len b) buf) (\<lambda>(number, buf).
            Ok (HInitial \<lparr>ih_dst_cid = dst, ih_src_cid = src, ih_token = tok, ih_number = number,
                  ih_version = version\<rparr>, buf))))
        | LRetry \<Rightarrow> Ok (HRetry dst src version, buf)
        | LStandard t \<Rightarrow>
            bindO (hdr (try_get_varint B buf)) (\<lambda>(_, buf).
            bindO (pn_decode B (pn_decode_len b) buf) (\<lambda>(number, buf).
            Ok (HLong t dst src number version, buf))))"
  using assms try_get_uint_put [of version 4]
  by (simp add: decode_long_def cid_decode_encode del: One_nat_def)

lemma header_decode_encode:
  assumes "header_ok len versions h" "header_encode B h w = (Ok w' :: (writer, 'e) outcome)"
  shows "\<exists>bs. w_bytes w' = w_bytes w @ bs \<and>
    (\<forall>rest. header_decode B (bs @ rest) len versions = Ok (header_norm h, rest))"
proof -
  have I: ?thesis if "header_encode B h w = (put_slice bs w :: (writer, 'e) outcome)"
    "\<And>rest. header_decode B (bs @ rest) len versions = Ok (header_norm h, rest)" for bs
    using that assms(2) by (auto simp: put_slice_eq_Ok eq_commute [of "Ok w'"])
  show ?thesis
  proof (cases h)
    case (HInitial i)
    let ?b = "long_header_type_byte LInitial OR pn_tag (ih_number i)"
    show ?thesis
      using assms(1)
      by (intro I [of "be_put B 1 (unat ?b) @ be_put B 4 (ih_version i) @ be_put B 1 (cid_len (ih_dst_cid i)) @
          cid_deref (ih_dst_cid i) @ be_put B 1 (cid_len (ih_src_cid i)) @ cid_deref (ih_src_cid i) @
          varint_bytes B (length (ih_token i)) @ ih_token i @ varint_bytes B (pn_len (ih_number i)) @
          pn_bytes B (ih_number i)"])
        (simp_all add: HInitial put_uint_def codec_simps pn_len_small header_decode_first long_first_byte
          decode_long_prefix del: One_nat_def long_header_type_byte.simps)
  next
    case (HLong ty dst src number version)
    let ?b = "long_header_type_byte (LStandard ty) OR pn_tag number"
    show ?thesis
      using assms(1)
      by (intro I [of "be_put B 1 (unat ?b) @ be_put B 4 version @ be_put B 1 (cid_len dst) @
          cid_deref dst @ be_put B 1 (cid_len src) @ cid_deref src @
          varint_bytes B (pn_len number) @ pn_bytes B number"])
        (simp_all add: HLong put_uint_def codec_simps pn_len_small header_decode_first long_first_byte
          decode_long_prefix del: One_nat_def long_header_type_byte.simps)
  next
    case (HRetry dst src version)
    let ?b = "long_header_type_byte LRetry"
    have bits: "?b AND FIXED_BIT \<noteq> 0" "?b AND LONG_HEADER_FORM \<noteq> 0" "?b AND LONG_RESERVED_BITS = 0"
      "long_header_type_from ?b = (Ok LRetry :: (_, packet_decode_error) outcome)"
      by (simp_all add: header_bits long_header_type_from_def)
    show ?thesis
      using assms(1)
      by (intro I [of "be_put B 1 (unat ?b) @ be_put B 4 version @ be_put B 1 (cid_len dst) @
          cid_deref dst @ be_put B 1 (cid_len src) @ cid_deref src"])
        (simp_all add: HRetry put_uint_def codec_simps header_decode_first bits
          decode_long_prefix del: One_nat_def long_header_type_byte.simps)
  next
    case (HShort spin key_phase dst number)
    let ?b = "FIXED_BIT OR (if key_phase then KEY_PHASE_BIT else 0) OR (if spin then SPIN_BIT else 0) OR pn_tag number"
    have "cid_from_buf (cid_deref dst @ t) len = Ok (dst, t)" for t
      using assms(1) HShort cid_from_buf_deref by auto
    then have dec: "decode_short B ?b len (cid_deref dst @ pn_bytes B number @ rest) =
        Ok (HShort spin key_phase dst (pn_norm number), rest)" for rest
      unfolding decode_short_def short_first_byte Let_def by (simp add: pn_decode_encode)
    show ?thesis
      by (intro I [of "be_put B 1 (unat ?b) @ cid_deref dst @ pn_bytes B number"])
        (simp_all only: HShort header_encode.simps put_uint_def codec_simps append_assoc header_decode_first
          short_first_byte dec header_norm.simps if_False if_True refl)
  next
    case (HVersionNegotiate random src dst)
    let ?b = "0x80 OR random"
    have form: "?b AND NOT LONG_HEADER_FORM = random"
      using assms(1) or_clear_mask [of random LONG_HEADER_FORM] unfolding HVersionNegotiate
      by (simp add: LONG_HEADER_FORM_def)
    have bits: "?b AND FIXED_BIT \<noteq> 0" "?b AND LONG_HEADER_FORM \<noteq> 0" "?b AND LONG_RESERVED_BITS = 0"
      using assms(1) unfolding HVersionNegotiate by (simp_all add: header_bits bit.conj_disj_distrib2)
    obtain ty where ty: "long_header_type_from ?b = (Ok ty :: (_, packet_decode_error) outcome)"
      using long_header_type_from_Ok by blast
    show ?thesis
      using assms(1)
      by (intro I [of "be_put B 1 (unat ?b) @ be_put B 4 0 @ be_put B 1 (cid_len dst) @
          cid_deref dst @ be_put B 1 (cid_len src) @ cid_deref src"])
        (simp_all add: HVersionNegotiate put_uint_def codec_simps header_decode_first bits ty
          decode_long_prefix form del: One_nat_def)
  qed
qed

end

section \<open>Properties\<close>

text \<open>
  C23. Headers round trip: a header with well-formed connection identifiers and a supported
  version is read back from its encoding (a 24-bit packet number loses the bits it does not
  transmit), and the payload is left.
\<close>

theorem header_roundtrip:
  assumes "bytes_crate B" "header_ok len versions h" "header_encode B h w = (Ok w' :: (writer, 'e) outcome)"
  shows "\<exists>bs. w_bytes w' = w_bytes w @ bs \<and>
    (\<forall>payload. header_decode B (bs @ payload) len versions = Ok (header_norm h, payload))"
  using bytes_crate.header_decode_encode [OF assms] .

theorem header_roundtrip_witness:
  "\<exists>bs. w_bytes \<lparr>w_bytes = [64, 9, 8, 77], w_left = 16\<rparr> = w_bytes \<lparr>w_bytes = [], w_left = 20\<rparr> @ bs \<and>
    (\<forall>payload. header_decode std_bytes (bs @ payload) 2 [1] =
      Ok (header_norm (HShort False False \<lparr>cid_len = 2, cid_bytes = [9, 8] @ replicate 18 0\<rparr> (U8 77)), payload))"
proof -
  let ?h = "HShort False False \<lparr>cid_len = 2, cid_bytes = [9, 8] @ replicate 18 0\<rparr> (U8 77)"
  have "header_encode std_bytes ?h \<lparr>w_bytes = [], w_left = 20\<rparr> =
      (Ok \<lparr>w_bytes = [64, 9, 8, 77], w_left = 16\<rparr> :: (writer, unit) outcome)"
    by (simp add: put_uint_def put_slice_def std_bytes_def to_be_bytes_1 FIXED_BIT_def cid_deref_def)
  moreover have "header_ok 2 [1] ?h" by (simp add: cid_wf_def MAX_CID_SIZE_def cid_deref_def)
  ultimately show ?thesis by (intro header_roundtrip [OF std.bytes_crate_axioms]) simp_all
qed

text \<open>
  Packet numbers survive truncation: the number a sender encodes against the largest number
  acknowledged to it is recovered by a receiver that expects any number from there on up to half
  the smallest window above it.
\<close>

lemma packet_number_transmitted:
  assumes "bytes_crate B" "pn_new n largest = (Ok pn :: (_, 'e) outcome)" "largest \<le> n" "n < 2 ^ 62"
    "largest \<le> expected" "expected < n + 128"
  shows "\<exists>pn'. pn_decode B (pn_len pn) (pn_bytes B pn @ rest) = Ok (pn', rest) \<and> pn_expand pn' expected = n"
  using bytes_crate.pn_transmitted [OF assms(1) _ assms(3-6)] assms(2) pn_new_Ok by blast

text \<open>
  A long header whose connection identifier claims more than 20 bytes makes the decoder panic,
  so that one datagram ends the task that decodes it.
\<close>

lemma long_header_cid_panics:
  "header_decode std_bytes ([0xC0, 0, 0, 0, 1, 21] @ rest) 20 [1] = Panic"
proof -
  have "\<exists>ty. long_header_type_from 192 = (Ok ty :: (_, packet_decode_error) outcome)" by (rule long_header_type_from_Ok)
  then show ?thesis
    by (auto simp: header_decode_def try_get_uint_def std_bytes_def decode_long_def cid_decode_def cid_from_buf_def
        FIXED_BIT_def LONG_HEADER_FORM_def LONG_RESERVED_BITS_def MAX_CID_SIZE_def)
qed

end
