(* ===== verification/Space.thy ===== *)
theory Space
  imports Frame Packet Btree_Map
begin

unbundle bit_operations_syntax

text \<open>
  Packet number spaces (\<open>core/src/connection/space.rs\<close>): the record of sent packets, the
  duplicate filter, the acknowledgements that are due, and the data to retransmit.  Points in
  time (\<open>Instant\<close>) and durations are numbers of nanoseconds.  The duplicate filter is related
  to the set of packet numbers it has seen; the number of bytes in flight is related to the
  packets that are tracked; the ranges to acknowledge are related to the packets received.
\<close>

type_synonym instant = nat
type_synonym duration = nat

section \<open>Retransmittable data\<close>

record retransmits =
  hello :: bool
  rt_reset_stream :: "(stream_id \<times> nat) list"
  rt_stop_sending :: "stop_sending list"
  rt_ack_frequency :: bool
  rt_handshake_done :: bool

definition retransmits_default :: retransmits where
  "retransmits_default = \<lparr>hello = False, rt_reset_stream = [], rt_stop_sending = [],
     rt_ack_frequency = False, rt_handshake_done = False\<rparr>"

definition retransmits_is_empty :: "retransmits \<Rightarrow> bool" where
  "retransmits_is_empty r \<longleftrightarrow>
     \<not> hello r \<and> rt_reset_stream r = [] \<and> rt_stop_sending r = [] \<and>
     \<not> rt_ack_frequency r \<and> \<not> rt_handshake_done r"

definition retransmits_or :: "retransmits \<Rightarrow> retransmits \<Rightarrow> retransmits" where
  "retransmits_or a b =
     \<lparr>hello = (hello a \<or> hello b),
      rt_reset_stream = rt_reset_stream a @ rt_reset_stream b,
      rt_stop_sending = rt_stop_sending a @ rt_stop_sending b,
      rt_ack_frequency = (rt_ack_frequency a \<or> rt_ack_frequency b),
      rt_handshake_done = (rt_handshake_done a \<or> rt_handshake_done b)\<rparr>"

definition retransmits_from_iter :: "retransmits list \<Rightarrow> retransmits" where
  "retransmits_from_iter rs = foldl retransmits_or retransmits_default rs"

text \<open>\<open>ThinRetransmits\<close>: nothing until something is stored.\<close>

type_synonym thin_retransmits = "retransmits option"

definition thin_is_empty :: "thin_retransmits \<Rightarrow> bool" where
  "thin_is_empty t = (case t of Some r \<Rightarrow> retransmits_is_empty r | None \<Rightarrow> True)"

text \<open>\<open>get_or_create\<close>, followed by an update of what it points to.\<close>

definition thin_update :: "(retransmits \<Rightarrow> retransmits) \<Rightarrow> thin_retransmits \<Rightarrow> thin_retransmits" where
  "thin_update f t = Some (f (case t of Some r \<Rightarrow> r | None \<Rightarrow> retransmits_default))"

definition retransmits_or_thin :: "retransmits \<Rightarrow> thin_retransmits \<Rightarrow> retransmits" where
  "retransmits_or_thin a t = (case t of Some r \<Rightarrow> retransmits_or a r | None \<Rightarrow> a)"

section \<open>Duplicate detection\<close>

record dedup =
  dd_window :: "128 word"
  dd_next :: nat

definition WINDOW_SIZE :: nat where
  "WINDOW_SIZE = 1 + 16 * 8"

definition dedup_new :: dedup where
  "dedup_new = \<lparr>dd_window = 0, dd_next = 0\<rparr>"

definition dedup_highest :: "dedup \<Rightarrow> nat" where
  "dedup_highest d = sub64 (dd_next d) 1"

text \<open>\<open>u128::checked_shl\<close>: no result when the shift is 128 or more.\<close>

definition checked_shl128 :: "128 word \<Rightarrow> nat \<Rightarrow> 128 word option" where
  "checked_shl128 x n = (if n < 128 then Some (push_bit n x) else None)"

definition dedup_insert :: "dedup \<Rightarrow> nat \<Rightarrow> dedup \<times> bool" where
  "dedup_insert d packet =
     (case checked_sub packet (dd_next d) of
        Some diff \<Rightarrow>
          (\<lparr>dd_window = (case checked_shl128 (push_bit 1 (dd_window d) OR 1) (min diff (2 ^ 32 - 1)) of
                           Some w \<Rightarrow> w | None \<Rightarrow> 0),
            dd_next = add64 packet 1\<rparr>, False)
      | None \<Rightarrow>
          if sub64 (dedup_highest d) packet < WINDOW_SIZE then
            case checked_sub (sub64 (dedup_highest d) packet) 1 of
              Some i \<Rightarrow>
                let msk = push_bit i (1 :: 128 word); duplicate = (dd_window d AND msk \<noteq> 0) in
                (d\<lparr>dd_window := dd_window d OR msk\<rparr>, duplicate)
            | None \<Rightarrow> (d, True)
          else (d, True))"

definition dedup_is_received :: "dedup \<Rightarrow> nat \<Rightarrow> bool" where
  "dedup_is_received d pn =
     (if pn \<ge> dd_next d then False
      else if dedup_highest d = pn then True
      else
        let i = sub64 (sub64 (dedup_highest d) pn) 1 in
        if i \<ge> WINDOW_SIZE - 1 then True
        else dd_window d AND push_bit i 1 \<noteq> 0)"

definition smallest_missing_in_interval :: "dedup \<Rightarrow> nat \<Rightarrow> nat \<Rightarrow> nat option" where
  "smallest_missing_in_interval d lower_bound upper_bound =
     find (\<lambda>pn. \<not> dedup_is_received d pn) [lower_bound..<upper_bound]"

definition missing_in_interval :: "dedup \<Rightarrow> nat \<Rightarrow> nat \<Rightarrow> bool" where
  "missing_in_interval d lower_bound upper_bound \<longleftrightarrow>
     smallest_missing_in_interval d lower_bound upper_bound \<noteq> None"

section \<open>Acknowledgements that are due\<close>

definition MAX_ACK_BLOCKS :: nat where
  "MAX_ACK_BLOCKS = 64"

definition LAZY_ACK_THRESHOLD :: nat where
  "LAZY_ACK_THRESHOLD = 10"

record pending_acks =
  immediate_ack_required :: bool
  ack_eliciting_since_last_ack_sent :: nat
  non_ack_eliciting_since_last_ack_sent :: nat
  ack_eliciting_threshold :: nat
  reordering_threshold :: nat
  earliest_ack_eliciting_since_last_ack_sent :: "instant option"
  pa_ranges :: array_range_set
  largest_packet :: "(nat \<times> instant) option"
  largest_ack_eliciting_packet :: "nat option"
  pa_largest_acked :: "nat option"

definition pending_acks_new :: pending_acks where
  "pending_acks_new =
     \<lparr>immediate_ack_required = False, ack_eliciting_since_last_ack_sent = 0,
      non_ack_eliciting_since_last_ack_sent = 0, ack_eliciting_threshold = 1,
      reordering_threshold = 1, earliest_ack_eliciting_since_last_ack_sent = None,
      pa_ranges = [], largest_packet = None, largest_ack_eliciting_packet = None,
      pa_largest_acked = None\<rparr>"

definition set_immediate_ack_required :: "pending_acks \<Rightarrow> pending_acks" where
  "set_immediate_ack_required p = p\<lparr>immediate_ack_required := True\<rparr>"

definition on_ack_delay_timeout :: "pending_acks \<Rightarrow> pending_acks" where
  "on_ack_delay_timeout p = p\<lparr>immediate_ack_required := ack_eliciting_since_last_ack_sent p > 0\<rparr>"

definition acks_can_send :: "pending_acks \<Rightarrow> bool" where
  "acks_can_send p \<longleftrightarrow> immediate_ack_required p \<and> \<not> ars_is_empty (pa_ranges p)"

definition pa_ack_delay :: "pending_acks \<Rightarrow> instant \<Rightarrow> duration" where
  "pa_ack_delay p now = (case largest_packet p of None \<Rightarrow> 0 | Some (_, received) \<Rightarrow> now - received)"

definition pa_insert_one :: "pending_acks \<Rightarrow> nat \<Rightarrow> instant \<Rightarrow> pending_acks" where
  "pa_insert_one p packet now =
     (let p = p\<lparr>pa_ranges := fst (ars_insert_one (pa_ranges p) packet)\<rparr>;
          p = (if (case largest_packet p of None \<Rightarrow> True | Some (pn, _) \<Rightarrow> packet > pn)
               then p\<lparr>largest_packet := Some (packet, now)\<rparr> else p) in
      if ars_len (pa_ranges p) > MAX_ACK_BLOCKS
      then p\<lparr>pa_ranges := fst (ars_pop_min (pa_ranges p))\<rparr> else p)"

definition is_out_of_order :: "pending_acks \<Rightarrow> nat \<Rightarrow> nat \<Rightarrow> dedup \<Rightarrow> bool" where
  "is_out_of_order p packet_number prev_largest_ack_eliciting d =
     (if packet_number < prev_largest_ack_eliciting then True
      else
        let lower = (case pa_largest_acked p of None \<Rightarrow> 0 | Some a \<Rightarrow> add64 a 1) in
        if reordering_threshold p = 0 then False
        else if reordering_threshold p = 1 then missing_in_interval d lower packet_number
        else case smallest_missing_in_interval d lower packet_number of
          Some missing \<Rightarrow> saturating_sub packet_number missing \<ge> reordering_threshold p
        | None \<Rightarrow> False)"

definition packet_received :: "pending_acks \<Rightarrow> instant \<Rightarrow> nat \<Rightarrow> bool \<Rightarrow> dedup \<Rightarrow> pending_acks \<times> bool" where
  "packet_received p now packet_number ack_eliciting d =
     (let prev_largest_ack_eliciting = (case largest_ack_eliciting_packet p of None \<Rightarrow> 0 | Some n \<Rightarrow> n);
          p = pa_insert_one p packet_number now;
          p = (if ack_eliciting then
                 let p = p\<lparr>ack_eliciting_since_last_ack_sent := add64 (ack_eliciting_since_last_ack_sent p) 1\<rparr>;
                     p = (if (case largest_ack_eliciting_packet p of None \<Rightarrow> True | Some l \<Rightarrow> packet_number > l)
                          then p\<lparr>largest_ack_eliciting_packet := Some packet_number\<rparr> else p) in
                 if earliest_ack_eliciting_since_last_ack_sent p = None
                 then p\<lparr>earliest_ack_eliciting_since_last_ack_sent := Some now\<rparr> else p
               else p\<lparr>non_ack_eliciting_since_last_ack_sent := add64 (non_ack_eliciting_since_last_ack_sent p) 1\<rparr>) in
      if ack_eliciting_since_last_ack_sent p > ack_eliciting_threshold p \<or>
         ack_eliciting \<and> is_out_of_order p packet_number prev_largest_ack_eliciting d
      then (p\<lparr>immediate_ack_required := True\<rparr>, False)
      else (p, ack_eliciting \<and> \<not> immediate_ack_required p))"

definition acks_sent :: "pending_acks \<Rightarrow> pending_acks" where
  "acks_sent p =
     p\<lparr>immediate_ack_required := False, ack_eliciting_since_last_ack_sent := 0,
       non_ack_eliciting_since_last_ack_sent := 0,
       earliest_ack_eliciting_since_last_ack_sent := None,
       pa_largest_acked := largest_ack_eliciting_packet p\<rparr>"

definition subtract_below :: "pending_acks \<Rightarrow> nat \<Rightarrow> pending_acks" where
  "subtract_below p m = p\<lparr>pa_ranges := fst (ars_remove (pa_ranges p) (0, add64 m 1))\<rparr>"

definition maybe_ack_non_eliciting :: "pending_acks \<Rightarrow> pending_acks" where
  "maybe_ack_non_eliciting p =
     (if non_ack_eliciting_since_last_ack_sent p > LAZY_ACK_THRESHOLD
      then p\<lparr>immediate_ack_required := True\<rparr> else p)"

section \<open>The space\<close>

record sent_packet =
  time_sent :: instant
  sp_size :: nat
  sp_ack_eliciting :: bool
  sp_largest_acked :: "nat option"
  sp_retransmits :: thin_retransmits
  sp_stream_frames :: "stream_meta list"
  sp_number :: nat
  sp_space_id :: space_id

record packet_space =
  hi :: bool
  ps_dedup :: dedup
  rx_packet :: nat
  ps_pending :: retransmits
  ps_pending_acks :: pending_acks
  next_packet_number :: nat
  largest_acked_packet :: "nat option"
  largest_acked_packet_sent :: instant
  largest_ack_eliciting_sent :: nat
  unacked_non_ack_eliciting_tail :: nat
  sent_packets :: "sent_packet btree"
  loss_time :: "instant option"
  ping_pending :: bool
  immediate_ack_pending :: bool
  ps_in_flight :: nat

definition packet_space_new :: "instant \<Rightarrow> packet_space" where
  "packet_space_new now =
     \<lparr>hi = False, ps_dedup = dedup_new, rx_packet = 0,
      ps_pending = retransmits_default, ps_pending_acks = pending_acks_new,
      next_packet_number = 0, largest_acked_packet = None, largest_acked_packet_sent = now,
      largest_ack_eliciting_sent = 0, unacked_non_ack_eliciting_tail = 0, sent_packets = [],
      loss_time = None, ping_pending = False, immediate_ack_pending = False, ps_in_flight = 0\<rparr>"

definition get_tx_number :: "packet_space \<Rightarrow> (packet_space \<times> nat, 'e) outcome" where
  "get_tx_number s =
     (if next_packet_number s < 2 ^ 62
      then Ok (s\<lparr>next_packet_number := add64 (next_packet_number s) 1\<rparr>, next_packet_number s)
      else Panic)"

record sendable_frames =
  sd_acks :: bool
  sd_other :: bool

definition sendable_is_empty :: "sendable_frames \<Rightarrow> bool" where
  "sendable_is_empty s \<longleftrightarrow> \<not> sd_acks s \<and> \<not> sd_other s"

definition ps_can_send :: "packet_space \<Rightarrow> sendable_frames" where
  "ps_can_send s =
     \<lparr>sd_acks = acks_can_send (ps_pending_acks s),
      sd_other = (\<not> retransmits_is_empty (ps_pending s) \<or> ping_pending s \<or> immediate_ack_pending s)\<rparr>"

definition ps_take :: "packet_space \<Rightarrow> nat \<Rightarrow> packet_space \<times> sent_packet option" where
  "ps_take s number =
     (case map_of (sent_packets s) number of
        None \<Rightarrow> (s, None)
      | Some packet \<Rightarrow>
          (s\<lparr>sent_packets := bt_remove number (sent_packets s),
             ps_in_flight := sub64 (ps_in_flight s) (sp_size packet)\<rparr>, Some packet))"

definition ps_sent :: "packet_space \<Rightarrow> sent_packet \<Rightarrow> packet_space \<times> nat" where
  "ps_sent s packet =
     (let number = sp_number packet;
          size = sp_size packet;
          s = (if sp_ack_eliciting packet then
                 s\<lparr>largest_ack_eliciting_sent := number, unacked_non_ack_eliciting_tail := 0\<rparr>
               else if number > largest_ack_eliciting_sent s then
                 s\<lparr>unacked_non_ack_eliciting_tail := add64 (unacked_non_ack_eliciting_tail s) 1\<rparr>
               else s) in
      (s\<lparr>ps_in_flight := add64 (ps_in_flight s) size,
         sent_packets := bt_insert number packet (sent_packets s)\<rparr>, 0))"

section \<open>The duplicate filter\<close>

text \<open>
  The filter \<open>d\<close> has seen the packet numbers \<open>S\<close>: \<open>next\<close> is one above the largest of
  them, and bit \<open>i\<close> of the window stands for \<open>next - 2 - i\<close>.
\<close>

definition dedup_inv :: "dedup \<Rightarrow> nat set \<Rightarrow> bool" where
  "dedup_inv d S \<longleftrightarrow> S \<subseteq> {..<dd_next d} \<and> (dd_next d = 0 \<or> dd_next d - 1 \<in> S) \<and> dd_next d < 2 ^ 64 \<and>
     (\<forall>i<128. i + 2 \<le> dd_next d \<longrightarrow> (bit (dd_window d) i \<longleftrightarrow> dd_next d - 2 - i \<in> S))"

lemma dedup_new_inv: "dedup_inv dedup_new {}"
  by (simp add: dedup_inv_def dedup_new_def)

lemma and_push_1: "(w :: 'a::len word) AND push_bit i 1 \<noteq> 0 \<longleftrightarrow> bit w i"
  by (simp add: push_bit_of_1 and_exp_eq_0_iff_not_bit)

lemma dedup_highest_eq: "0 < dd_next d \<Longrightarrow> dd_next d < 2 ^ 64 \<Longrightarrow> dedup_highest d = dd_next d - 1"
  by (simp add: dedup_highest_def sub64_small)

lemma dedup_insert_right:
  assumes "dedup_inv d S" "dd_next d \<le> p" "p < u64_max"
  shows "snd (dedup_insert d p) = False \<and> dedup_inv (fst (dedup_insert d p)) (insert p S)"
proof -
  define n where "n = p - dd_next d"
  define w where "w = (if n < 128 then push_bit n (push_bit 1 (dd_window d) OR 1) else 0)"
  have next': "add64 p (Suc 0) = Suc p" using assms(3) by (simp add: add64_small u64_max_def)
  have shl: "(case checked_shl128 x (min n (2 ^ 32 - 1)) of Some w \<Rightarrow> w | None \<Rightarrow> 0) =
      (if n < 128 then push_bit n x else 0)" for x
    by (auto simp: checked_shl128_def min_def)
  have cs: "checked_sub p (dd_next d) = Some n" using assms(2) by (simp add: n_def)
  have ins: "dedup_insert d p = (\<lparr>dd_window = w, dd_next = Suc p\<rparr>, False)"
    unfolding dedup_insert_def cs option.case shl w_def using next' by simp
  have S: "S \<subseteq> {..<dd_next d}" "dd_next d = 0 \<or> dd_next d - 1 \<in> S"
    "\<And>i. i < 128 \<Longrightarrow> i + 2 \<le> dd_next d \<Longrightarrow> bit (dd_window d) i \<longleftrightarrow> dd_next d - 2 - i \<in> S"
    using assms(1) by (auto simp: dedup_inv_def)
  have "bit w i \<longleftrightarrow> p - 1 - i \<in> insert p S" if i: "i < 128" "i + 1 \<le> p" for i
  proof -
    have ne: "p - 1 - i \<noteq> p" using i by linarith
    consider "i < n" | "i = n" | "n < i" by linarith
    then show ?thesis
    proof cases
      case 1
      then have "\<not> p - 1 - i < dd_next d" using assms(2) i by (simp add: n_def)
      then show ?thesis using S(1) ne 1 by (auto simp: w_def bit_simps)
    next
      case 2
      then have "p - 1 - i = dd_next d - 1" "dd_next d \<noteq> 0" using assms(2) i by (simp_all add: n_def)
      then show ?thesis using S(2) i 2 by (auto simp: w_def bit_simps)
    next
      case 3
      define j where "j = i - n - 1"
      have "j < 128" "j + 2 \<le> dd_next d" "dd_next d - 2 - j = p - 1 - i"
        using 3 i assms(2) by (auto simp: n_def j_def)
      then have old: "bit (dd_window d) j \<longleftrightarrow> p - 1 - i \<in> S" using S(3) by metis
      have dbl: "bit (dd_window d * 2) (i - n) \<longleftrightarrow> bit (dd_window d) (i - Suc n)"
        using bit_double_iff [of "dd_window d" "i - n"] 3 i less_imp_diff_less [OF i(1), of n]
        by (simp add: mult.commute)
      moreover have "bit w i \<longleftrightarrow> bit (dd_window d) j"  using 3 i dbl by (auto simp: w_def j_def bit_simps)
      ultimately show ?thesis using ne old by simp
    qed
  qed
  moreover have "Suc p < 2 ^ 64" using assms(3) by (simp add: u64_max_def)
  ultimately show ?thesis
    using S(1) assms(2) by (auto simp: ins dedup_inv_def)
qed

lemma dedup_insert_left:
  assumes "dedup_inv d S" "p < dd_next d"
  shows "(snd (dedup_insert d p) \<longleftrightarrow> p \<in> S \<or> p + WINDOW_SIZE < dd_next d) \<and>
    dedup_inv (fst (dedup_insert d p)) (insert p S)"
proof -
  have S: "S \<subseteq> {..<dd_next d}" "dd_next d - 1 \<in> S" "dd_next d < 2 ^ 64"
    "\<And>i. i < 128 \<Longrightarrow> i + 2 \<le> dd_next d \<Longrightarrow> bit (dd_window d) i \<longleftrightarrow> dd_next d - 2 - i \<in> S"
    using assms by (auto simp: dedup_inv_def)
  have dist: "sub64 (dedup_highest d) p = dd_next d - 1 - p"
    using assms(2) S(3) by (simp add: dedup_highest_eq sub64_small)
  consider "p = dd_next d - 1" | "p < dd_next d - 1" "dd_next d - 1 - p < WINDOW_SIZE"
    | "WINDOW_SIZE \<le> dd_next d - 1 - p" using assms(2) by linarith
  then show ?thesis
  proof cases
    case 1
    then have "dd_next d - 1 - p = 0" by simp
    then have "dedup_insert d p = (d, True)"
      using assms(2) unfolding dedup_insert_def dist by (simp add: checked_sub_def WINDOW_SIZE_def)
    then show ?thesis using assms(1) S(2) 1 by (simp add: insert_absorb)
  next
    case 2
    define i where "i = dd_next d - 2 - p"
    have i: "i < 128" "i + 2 \<le> dd_next d" "dd_next d - 2 - i = p" "dd_next d - 1 - p - 1 = i"
      using 2 by (auto simp: i_def WINDOW_SIZE_def)
    have ins: "dedup_insert d p = (d\<lparr>dd_window := dd_window d OR push_bit i 1\<rparr>, bit (dd_window d) i)"
      using assms(2) 2 i(4) unfolding dedup_insert_def dist
      by (auto simp: checked_sub_def Let_def and_exp_eq_0_iff_not_bit)
    have "bit (dd_window d OR push_bit i 1) j \<longleftrightarrow> dd_next d - 2 - j \<in> insert p S"
      if "j < 128" "j + 2 \<le> dd_next d" for j
      using that i S(4) [of j] by (auto simp: bit_simps)
    then show ?thesis
      using S i assms(2) 2(2) by (auto simp: ins dedup_inv_def WINDOW_SIZE_def)
  next
    case 3
    then have "dedup_insert d p = (d, True)"
      using assms(2) by (simp add: dedup_insert_def dist checked_sub_def)
    then show ?thesis
      using assms 3 S by (auto simp: dedup_inv_def WINDOW_SIZE_def)
  qed
qed

lemma dedup_insert_spec:
  assumes "dedup_inv d S" "p < u64_max"
  shows "(snd (dedup_insert d p) \<longleftrightarrow> p \<in> S \<or> p + WINDOW_SIZE < dd_next d) \<and>
    dedup_inv (fst (dedup_insert d p)) (insert p S)"
proof (cases "p < dd_next d")
  case True
  then show ?thesis using dedup_insert_left [OF assms(1)] by blast
next
  case False
  then have "p \<notin> S" using assms(1) by (auto simp: dedup_inv_def)
  then show ?thesis using dedup_insert_right [OF assms(1) _ assms(2)] False by simp
qed

text \<open>Filtering a sequence of arrivals: the packets let through.\<close>

fun dedup_run :: "dedup \<Rightarrow> nat list \<Rightarrow> dedup \<times> nat list" where
  "dedup_run d [] = (d, [])"
| "dedup_run d (p # ps) =
     (let (d', duplicate) = dedup_insert d p; (d'', rest) = dedup_run d' ps in
      (d'', if duplicate then rest else p # rest))"

lemma dedup_run_spec:
  assumes "dedup_inv d S" "\<forall>p\<in>set ps. p < u64_max"
  shows "distinct (snd (dedup_run d ps)) \<and> set (snd (dedup_run d ps)) \<inter> S = {} \<and>
    set (snd (dedup_run d ps)) \<subseteq> set ps \<and> dedup_inv (fst (dedup_run d ps)) (set ps \<union> S)"
  using assms
proof (induction ps arbitrary: d S)
  case (Cons p ps)
  define d' where "d' = fst (dedup_insert d p)"
  have step: "snd (dedup_insert d p) \<longleftrightarrow> p \<in> S \<or> p + WINDOW_SIZE < dd_next d" "dedup_inv d' (insert p S)"
    using dedup_insert_spec [OF Cons.prems(1), of p] Cons.prems(2) by (simp_all add: d'_def)
  have run: "dedup_run d (p # ps) = (fst (dedup_run d' ps),
      if snd (dedup_insert d p) then snd (dedup_run d' ps) else p # snd (dedup_run d' ps))"
    by (simp add: d'_def split: prod.splits)
  have "distinct (snd (dedup_run d' ps)) \<and> set (snd (dedup_run d' ps)) \<inter> insert p S = {} \<and>
    set (snd (dedup_run d' ps)) \<subseteq> set ps \<and> dedup_inv (fst (dedup_run d' ps)) (set ps \<union> insert p S)"
    using Cons.IH [OF step(2)] Cons.prems(2) by simp
  moreover have "set ps \<union> insert p S = set (p # ps) \<union> S" by auto
  ultimately show ?case using step(1) unfolding run by auto
qed simp

lemma dedup_is_received_iff:
  assumes "dedup_inv d S"
  shows "dedup_is_received d p \<longleftrightarrow> p \<in> S \<or> p + WINDOW_SIZE < dd_next d"
proof (cases "p < dd_next d")
  case False
  then show ?thesis using assms by (auto simp: dedup_is_received_def dedup_inv_def)
next
  case True
  have S: "dd_next d - 1 \<in> S" "dd_next d < 2 ^ 64"
    "\<And>i. i < 128 \<Longrightarrow> i + 2 \<le> dd_next d \<Longrightarrow> bit (dd_window d) i \<longleftrightarrow> dd_next d - 2 - i \<in> S"
    using assms True by (auto simp: dedup_inv_def)
  have hi: "dedup_highest d = dd_next d - 1" using True S(2) by (simp add: dedup_highest_eq)
  show ?thesis
  proof (cases "p = dd_next d - 1")
    case True
    then show ?thesis using S(1) \<open>p < dd_next d\<close> hi by (simp add: dedup_is_received_def)
  next
    case False
    define i where "i = dd_next d - 2 - p"
    have i: "i + 2 \<le> dd_next d" "dd_next d - 2 - i = p" using False True by (auto simp: i_def)
    have "sub64 (sub64 (dedup_highest d) p) 1 = dd_next d - 1 - p - 1"
      unfolding hi using False True S(2) by (intro sub64_pred) auto
    then have "sub64 (sub64 (dedup_highest d) p) 1 = i" by (simp add: i_def)
    then have "dedup_is_received d p \<longleftrightarrow> 128 \<le> i \<or> bit (dd_window d) i"
      using True False hi by (simp add: dedup_is_received_def WINDOW_SIZE_def and_exp_eq_0_iff_not_bit)
    moreover have "128 \<le> i \<longleftrightarrow> p + WINDOW_SIZE < dd_next d" using True False by (auto simp: i_def WINDOW_SIZE_def)
    ultimately show ?thesis using S(3) [of i] i by auto
  qed
qed

lemma find_upt:
  "find P [lo..<up] = Some m \<longleftrightarrow> lo \<le> m \<and> m < up \<and> P m \<and> (\<forall>p. lo \<le> p \<and> p < m \<longrightarrow> \<not> P p)"
proof (induction "up - lo" arbitrary: lo)
  case (Suc n)
  then have "[lo..<up] = lo # [Suc lo..<up]" by (simp add: upt_rec)
  moreover have "(\<forall>p. lo \<le> p \<and> p < m \<longrightarrow> \<not> P p) \<longleftrightarrow>
      (lo < m \<longrightarrow> \<not> P lo) \<and> (\<forall>p. Suc lo \<le> p \<and> p < m \<longrightarrow> \<not> P p)"
    by (metis Suc_leD Suc_leI le_neq_implies_less order_refl)
  ultimately show ?case using Suc.hyps(1) [of "Suc lo"] Suc.hyps(2)
    by (auto simp: Suc_le_eq dest: le_neq_implies_less)
qed simp

lemma smallest_missing_spec:
  assumes "dedup_inv d S"
  shows "smallest_missing_in_interval d lo up = Some m \<longleftrightarrow>
    lo \<le> m \<and> m < up \<and> m \<notin> S \<and> dd_next d \<le> m + WINDOW_SIZE \<and>
    (\<forall>p. lo \<le> p \<and> p < m \<longrightarrow> p \<in> S \<or> p + WINDOW_SIZE < dd_next d)"
  by (auto simp: smallest_missing_in_interval_def find_upt dedup_is_received_iff [OF assms])

section \<open>Acknowledgements\<close>

text \<open>At most 64 well-formed ranges; the largest packet on record bounds them.\<close>

definition acks_inv :: "pending_acks \<Rightarrow> bool" where
  "acks_inv p \<longleftrightarrow> rs_wf (pa_ranges p) \<and> length (pa_ranges p) \<le> MAX_ACK_BLOCKS \<and>
     (\<forall>x\<in>elems (pa_ranges p). case largest_packet p of None \<Rightarrow> False | Some (n, t) \<Rightarrow> x \<le> n)"

lemma pending_acks_new_inv: "acks_inv pending_acks_new"
  by (simp add: acks_inv_def pending_acks_new_def)

lemma ars_merge_length: "length (ars_merge x rs) \<le> Suc (length rs)"
  by (induction x rs rule: ars_merge.induct) auto

lemma ars_insert_loop_length: "length (fst (ars_insert_loop x b rs)) \<le> Suc (length rs)"
  by (induction x b rs rule: ars_insert_loop.induct)
    (auto simp: Let_def ars_merge_length le_SucI split: prod.splits if_splits)

lemma ars_remove_prefix:
  "rs_wf rs \<Longrightarrow> length (fst (ars_remove rs (0, m))) \<le> length rs"
proof -
  have "length (fst (ars_remove_loop (0, m) b rs)) \<le> length rs" if "wf_from lo rs" for lo b rs
    using that
  proof (induction "(0::nat, m)" b rs arbitrary: lo rule: ars_remove_loop.induct)
    case (2 b s e rs)
    then show ?case by (auto simp: Let_def le_SucI split: prod.splits if_splits)
  qed simp
  then show "rs_wf rs \<Longrightarrow> length (fst (ars_remove rs (0, m))) \<le> length rs"
    by (auto simp: ars_remove_def)
qed

text \<open>What one received packet does to the ranges: it is in them, unless it was dropped with the lowest.\<close>

lemma pa_insert_one_ranges:
  assumes "acks_inv p" "n < u64_max"
  shows "acks_inv (pa_insert_one p n now) \<and>
    elems (pa_ranges (pa_insert_one p n now)) \<subseteq> insert n (elems (pa_ranges p)) \<and>
    (length (pa_ranges p) < MAX_ACK_BLOCKS \<longrightarrow>
       elems (pa_ranges (pa_insert_one p n now)) = insert n (elems (pa_ranges p)))"
proof -
  define rs where "rs = fst (ars_insert_one (pa_ranges p) n)"
  have n1: "add64 n 1 = Suc n" using assms(2) by (simp add: add64_small u64_max_def)
  have wf: "rs_wf (pa_ranges p)" "length (pa_ranges p) \<le> MAX_ACK_BLOCKS" using assms(1) by (auto simp: acks_inv_def)
  have ins: "rs = fst (ars_insert (pa_ranges p) (n, Suc n))" using n1 by (simp add: rs_def ars_insert_one_def)
  have rs: "rs_wf rs" "elems rs = insert n (elems (pa_ranges p))"
    unfolding ins ars.set_insert [OF wf(1)] using ars.invar_insert [OF wf(1)] by auto
  have len: "length rs \<le> Suc (length (pa_ranges p))"
    using ars_insert_loop_length [of "(n, Suc n)" False "pa_ranges p"] by (simp add: ins ars_insert_def)
  have pop: "rs_wf (fst (ars_pop_min rs))" "elems (fst (ars_pop_min rs)) \<subseteq> elems rs"
    "length (fst (ars_pop_min rs)) = length rs - 1"
    using rs(1) by (auto simp: ars_pop_min_def split: list.splits intro: wf_from_mono)
  define big where "big \<longleftrightarrow> (case largest_packet p of None \<Rightarrow> True | Some (pn, _) \<Rightarrow> n > pn)"
  have ranges: "pa_ranges (pa_insert_one p n now) = (if length rs > MAX_ACK_BLOCKS then fst (ars_pop_min rs) else rs)"
    by (simp add: pa_insert_one_def Let_def rs_def ars_len_def)
  have largest: "largest_packet (pa_insert_one p n now) = (if big then Some (n, now) else largest_packet p)"
    by (simp add: pa_insert_one_def Let_def big_def)
  have bound: "case largest_packet (pa_insert_one p n now) of None \<Rightarrow> False | Some (m, t) \<Rightarrow> x \<le> m"
    if "x \<in> insert n (elems (pa_ranges p))" for x
    using that assms(1) unfolding largest acks_inv_def big_def by (fastforce split: option.splits)
  have sub: "elems (pa_ranges (pa_insert_one p n now)) \<subseteq> insert n (elems (pa_ranges p))"
    unfolding ranges using pop(2) rs(2) by simp
  have "length (pa_ranges (pa_insert_one p n now)) \<le> MAX_ACK_BLOCKS"
    unfolding ranges using len wf(2) pop(3) by auto
  moreover have "rs_wf (pa_ranges (pa_insert_one p n now))" unfolding ranges using rs(1) pop(1) by simp
  ultimately have "acks_inv (pa_insert_one p n now)" using sub bound unfolding acks_inv_def by blast
  moreover have "elems (pa_ranges (pa_insert_one p n now)) = insert n (elems (pa_ranges p))"
    if "length (pa_ranges p) < MAX_ACK_BLOCKS"
    unfolding ranges using that len rs(2) by simp
  ultimately show ?thesis using sub by blast
qed

lemma acks_inv_cong:
  "pa_ranges p = pa_ranges q \<Longrightarrow> largest_packet p = largest_packet q \<Longrightarrow> acks_inv p = acks_inv q"
  by (simp add: acks_inv_def)

lemma packet_received_ranges:
  "pa_ranges (fst (packet_received p now n e d)) = pa_ranges (pa_insert_one p n now)"
  "largest_packet (fst (packet_received p now n e d)) = largest_packet (pa_insert_one p n now)"
  by (simp_all add: packet_received_def Let_def)

lemma subtract_below_spec:
  assumes "acks_inv p" "m < u64_max"
  shows "acks_inv (subtract_below p m)" "elems (pa_ranges (subtract_below p m)) = elems (pa_ranges p) - {..m}"
proof -
  have m1: "add64 m 1 = Suc m" using assms(2) by (simp add: add64_small u64_max_def)
  have eq: "pa_ranges (subtract_below p m) = fst (ars_remove (pa_ranges p) (0, Suc m))"
    using m1 by (simp add: subtract_below_def)
  have wf: "rs_wf (pa_ranges p)" using assms(1) by (simp add: acks_inv_def)
  show sub: "elems (pa_ranges (subtract_below p m)) = elems (pa_ranges p) - {..m}"
    unfolding eq ars.set_remove [OF wf] by auto
  show "acks_inv (subtract_below p m)"
    using assms(1) sub ars.invar_remove [OF wf, of "(0, Suc m)"] ars_remove_prefix [OF wf, of "Suc m"]
    unfolding acks_inv_def eq by (auto simp: subtract_below_def)
qed

text \<open>After an ACK frame was sent nothing is due until another packet arrives.\<close>

lemma acks_sent_idle: "\<not> acks_can_send (acks_sent p)"
  by (simp add: acks_can_send_def acks_sent_def)

section \<open>Bytes in flight\<close>

text \<open>
  The packets that are tracked are keyed by their number, below the next number to use; the
  counter is the sum of their sizes.
\<close>

definition space_inv :: "packet_space \<Rightarrow> bool" where
  "space_inv s \<longleftrightarrow> bt_ok (sent_packets s) \<and>
     ps_in_flight s = bt.total sp_size (sent_packets s) \<and>
     (\<forall>n p. map_of (sent_packets s) n = Some p \<longrightarrow> sp_number p = n \<and> n < next_packet_number s)"

lemma packet_space_new_inv: "space_inv (packet_space_new now)"
  by (simp add: space_inv_def packet_space_new_def bt_ok_def bt.total_def)

lemma get_tx_number_inv:
  assumes "space_inv s" "get_tx_number s = Ok (s', n)"
  shows "space_inv s' \<and> n = next_packet_number s \<and> next_packet_number s' = Suc n \<and>
    map_of (sent_packets s') n = None"
proof -
  have s': "s' = s\<lparr>next_packet_number := Suc n\<rparr>" "n = next_packet_number s"
    using assms(2) by (auto simp: get_tx_number_def add64_small split: if_splits)
  moreover have "map_of (sent_packets s) n = None"
    using assms(1) s'(2) by (cases "map_of (sent_packets s) n") (auto simp: space_inv_def)
  ultimately show ?thesis using assms(1) by (auto simp: space_inv_def less_Suc_eq)
qed

lemma ps_sent_inv:
  assumes "space_inv s" "map_of (sent_packets s) (sp_number p) = None"
    "sp_number p < next_packet_number s" "ps_in_flight s + sp_size p < 2 ^ 64"
  shows "space_inv (fst (ps_sent s p))" "ps_in_flight (fst (ps_sent s p)) = ps_in_flight s + sp_size p"
    "map_of (sent_packets (fst (ps_sent s p))) = (map_of (sent_packets s))(sp_number p \<mapsto> p)"
proof -
  have ok: "bt_ok (sent_packets s)" using assms(1) by (simp add: space_inv_def)
  have new: "sent_packets (fst (ps_sent s p)) = bt_insert (sp_number p) p (sent_packets s)"
    "next_packet_number (fst (ps_sent s p)) = next_packet_number s"
    by (simp_all add: ps_sent_def Let_def)
  show sum: "ps_in_flight (fst (ps_sent s p)) = ps_in_flight s + sp_size p"
    using assms(4) by (simp add: ps_sent_def Let_def add64_small)
  show lookup: "map_of (sent_packets (fst (ps_sent s p))) = (map_of (sent_packets s))(sp_number p \<mapsto> p)"
    by (simp add: new map_of_bt_insert)
  show "space_inv (fst (ps_sent s p))"
    unfolding space_inv_def lookup sum new(2)
    using assms(1,3) ok bt.total_insert_new [OF ok assms(2), of sp_size p]
    by (simp add: new(1) space_inv_def)
qed

lemma ps_take_inv:
  assumes "space_inv s" "ps_in_flight s < 2 ^ 64"
  shows "space_inv (fst (ps_take s n)) \<and> snd (ps_take s n) = map_of (sent_packets s) n \<and>
    map_of (sent_packets (fst (ps_take s n))) = (map_of (sent_packets s))(n := None) \<and>
    ps_in_flight s = ps_in_flight (fst (ps_take s n)) +
      (case map_of (sent_packets s) n of None \<Rightarrow> 0 | Some p \<Rightarrow> sp_size p)"
proof (cases "map_of (sent_packets s) n")
  case None
  then show ?thesis using assms(1) by (auto simp: ps_take_def)
next
  case (Some p)
  have ok: "bt_ok (sent_packets s)" using assms(1) by (simp add: space_inv_def)
  have total: "ps_in_flight s = bt.total sp_size (bt_remove n (sent_packets s)) + sp_size p"
    using bt.total_remove [OF ok Some, of sp_size] assms(1) by (simp add: space_inv_def)
  then have "sub64 (ps_in_flight s) (sp_size p) = bt.total sp_size (bt_remove n (sent_packets s))"
    using assms(2) by (simp add: sub64_small)
  then show ?thesis
    using assms(1) Some ok total by (auto simp: space_inv_def ps_take_def map_of_bt_remove)
qed

section \<open>Properties\<close>

text \<open>
  C19. Packets are let through once: over any sequence of arrivals the filter passes no packet
  number twice, and it refuses the next packet exactly when it has seen it or when the packet is
  older than the window of 129 numbers.
\<close>

theorem packets_processed_once:
  assumes "\<forall>p\<in>set ps. p < u64_max" "q < u64_max"
  shows "distinct (snd (dedup_run dedup_new ps)) \<and> set (snd (dedup_run dedup_new ps)) \<subseteq> set ps \<and>
    (snd (dedup_insert (fst (dedup_run dedup_new ps)) q) \<longleftrightarrow> q \<in> set ps \<or> ps \<noteq> [] \<and> q + WINDOW_SIZE \<le> Max (set ps))"
proof -
  let ?d = "fst (dedup_run dedup_new ps)"
  note run = dedup_run_spec [OF dedup_new_inv assms(1)]
  then have inv: "dedup_inv ?d (set ps)" by simp
  have "dd_next ?d = (if ps = [] then 0 else Suc (Max (set ps)))"
  proof (cases "ps = []")
    case False
    then have "dd_next ?d \<noteq> 0" using inv by (fastforce simp: dedup_inv_def neq_Nil_conv)
    then have "Max (set ps) = dd_next ?d - 1"
      using inv by (intro Max_eqI) (auto simp: dedup_inv_def)
    then show ?thesis using False \<open>dd_next ?d \<noteq> 0\<close> by simp
  qed (simp add: dedup_new_def)
  then show ?thesis using run dedup_insert_spec [OF inv assms(2)] by (auto simp: less_Suc_eq_le)
qed

theorem packets_processed_once_witness:
  "distinct (snd (dedup_run dedup_new [4, 2, 4, 300])) \<and> set (snd (dedup_run dedup_new [4, 2, 4, 300])) \<subseteq> set [4, 2, 4, 300] \<and>
    (snd (dedup_insert (fst (dedup_run dedup_new [4, 2, 4, 300])) 7) \<longleftrightarrow>
      7 \<in> set [4, 2, 4, 300 :: nat] \<or> [4, 2, 4, 300 :: nat] \<noteq> [] \<and> 7 + WINDOW_SIZE \<le> Max (set [4, 2, 4, 300]))"
  by (rule packets_processed_once) (simp_all add: u64_max_def)

text \<open>
  The scan for a gap finds the smallest packet number of the interval that was never received
  and that the window still tracks.
\<close>

lemma smallest_gap_found:
  assumes "\<forall>p\<in>set ps. p < u64_max"
  shows "smallest_missing_in_interval (fst (dedup_run dedup_new ps)) lo up = Some m \<longleftrightarrow>
    lo \<le> m \<and> m < up \<and> m \<notin> set ps \<and> dd_next (fst (dedup_run dedup_new ps)) \<le> m + WINDOW_SIZE \<and>
    (\<forall>p. lo \<le> p \<and> p < m \<longrightarrow> p \<in> set ps \<or> p + WINDOW_SIZE < dd_next (fst (dedup_run dedup_new ps)))"
  using smallest_missing_spec [of "fst (dedup_run dedup_new ps)" "set ps"] dedup_run_spec [OF dedup_new_inv assms] by simp

text \<open>A sequence of received packets, each with its time.\<close>

fun receive_all :: "pending_acks \<Rightarrow> dedup \<Rightarrow> (nat \<times> instant) list \<Rightarrow> pending_acks" where
  "receive_all p d [] = p"
| "receive_all p d ((n, now) # rest) = receive_all (fst (packet_received p now n True d)) d rest"

lemma receive_all_inv:
  assumes "acks_inv p" "\<forall>(n, t)\<in>set ns. n < u64_max"
  shows "acks_inv (receive_all p d ns) \<and> elems (pa_ranges (receive_all p d ns)) \<subseteq> fst ` set ns \<union> elems (pa_ranges p)"
  using assms
proof (induction ns arbitrary: p)
  case (Cons nt ns)
  obtain n t where nt: "nt = (n, t)" by (cases nt)
  let ?p = "fst (packet_received p t n True d)"
  have ins: "acks_inv (pa_insert_one p n t)" "elems (pa_ranges (pa_insert_one p n t)) \<subseteq> insert n (elems (pa_ranges p))"
    using pa_insert_one_ranges [OF Cons.prems(1), of n t] Cons.prems(2) nt by auto
  have "acks_inv ?p" using ins(1) by (subst acks_inv_cong) (simp_all add: packet_received_ranges)
  then have "acks_inv (receive_all ?p d ns) \<and> elems (pa_ranges (receive_all ?p d ns)) \<subseteq> fst ` set ns \<union> elems (pa_ranges ?p)"
    using Cons.IH Cons.prems(2) by simp
  then show ?case using ins(2) nt by (auto simp: packet_received_ranges)
qed simp

text \<open>
  C33. Pending acknowledgements stay bounded and truthful: after any sequence of received packets
  there are at most 64 disjoint ranges, and every number in them is one of a received packet.
\<close>

theorem pending_acks_truthful:
  assumes "\<forall>(n, t)\<in>set ns. n < u64_max"
  shows "let p = receive_all pending_acks_new d ns in
    rs_wf (pa_ranges p) \<and> length (pa_ranges p) \<le> MAX_ACK_BLOCKS \<and> elems (pa_ranges p) \<subseteq> fst ` set ns"
proof -
  have "elems (pa_ranges pending_acks_new) = {}" by (simp add: pending_acks_new_def)
  then show ?thesis using receive_all_inv [OF pending_acks_new_inv assms, of d] by (auto simp: acks_inv_def Let_def)
qed

theorem pending_acks_truthful_witness:
  "let p = receive_all pending_acks_new dedup_new [(3, 1), (7, 2)] in
    rs_wf (pa_ranges p) \<and> length (pa_ranges p) \<le> MAX_ACK_BLOCKS \<and> elems (pa_ranges p) \<subseteq> fst ` set [(3, 1), (7, 2 :: nat)]"
  by (rule pending_acks_truthful) (simp add: u64_max_def)

end
