(* ===== verification/Send_Stream.thy ===== *)
theory Send_Stream
  imports Frame Btree_Range_Set
begin

text \<open>
  The sending half of a stream (\<open>core/src/connection/stream/send.rs\<close>): the buffer of data that
  was written and not yet acknowledged, and the state machine around it.  The buffer is related
  to the list \<open>D\<close> of all bytes the application ever wrote: \<open>get\<close> returns bytes of \<open>D\<close>,
  \<open>poll_transmit\<close> takes a range out of the set of offsets that are still to be sent, and
  \<open>ack\<close> forgets a prefix.  \<open>VecDeque<Bytes>\<close> is a list of byte lists.
\<close>

section \<open>The send buffer\<close>

record send_buffer =
  unacked_segments :: "bytes list"
  unacked_len :: nat
  sb_offset :: nat
  unsent :: nat
  sb_acks :: range_set
  sb_retransmits :: range_set

definition send_buffer_default :: send_buffer where
  "send_buffer_default = \<lparr>unacked_segments = [], unacked_len = 0, sb_offset = 0, unsent = 0,
     sb_acks = [], sb_retransmits = []\<rparr>"

definition sb_write :: "send_buffer \<Rightarrow> bytes \<Rightarrow> send_buffer" where
  "sb_write sb data =
     sb\<lparr>unacked_len := add64 (unacked_len sb) (length data),
        sb_offset := add64 (sb_offset sb) (length data),
        unacked_segments := unacked_segments sb @ [data]\<rparr>"

text \<open>The loop of \<open>ack\<close>: the bytes freed and the segments that stay.\<close>

fun ack_free :: "range_set \<Rightarrow> nat \<Rightarrow> nat \<Rightarrow> bytes list \<Rightarrow> nat \<times> bytes list" where
  "ack_free acks base freed [] = (freed, [])"
| "ack_free acks base freed (seg # segs) =
     (let seg_start = add64 base freed; seg_end = add64 seg_start (length seg) in
      if rs_contains acks seg_start \<and> rs_contains acks (sub64 seg_end 1)
      then ack_free acks base (add64 freed (length seg)) segs
      else (freed, seg # segs))"

definition sb_base :: "send_buffer \<Rightarrow> nat" where
  "sb_base sb = sub64 (sb_offset sb) (unacked_len sb)"

definition sb_ack :: "send_buffer \<Rightarrow> range \<Rightarrow> send_buffer" where
  "sb_ack sb r =
     (let acks = fst (rs_insert (sb_acks sb) r);
          base = sb_base sb;
          (freed, segs) = ack_free acks base 0 (unacked_segments sb) in
      sb\<lparr>sb_acks := (if freed > 0 then fst (rs_remove acks (base, add64 base freed)) else acks),
         unacked_segments := segs,
         unacked_len := sub64 (unacked_len sb) freed\<rparr>)"

definition sb_poll_transmit :: "send_buffer \<Rightarrow> nat \<Rightarrow> (send_buffer \<times> range \<times> bool, 'e) outcome" where
  "sb_poll_transmit sb max_len =
     (case rs_pop_min (sb_retransmits sb) of
        (rts, Some (rstart, rend)) \<Rightarrow>
          bindO (if rstart \<noteq> 0 then bindO (varint_len rstart) (\<lambda>l. Ok (sub64 max_len l)) else Ok max_len) (\<lambda>max_len.
          let data_len = sub64 rend rstart;
              encode_length = (data_len < max_len);
              max_len = (if encode_length then sub64 max_len 8 else max_len);
              end' = min rend (add64 rstart max_len) in
          Ok (sb\<lparr>sb_retransmits := (if end' < rend then fst (rs_insert rts (end', rend)) else rts)\<rparr>,
              (rstart, end'), encode_length))
      | (rts, None) \<Rightarrow>
          bindO (if unsent sb \<noteq> 0 then bindO (varint_len (unsent sb)) (\<lambda>l. Ok (sub64 max_len l)) else Ok max_len) (\<lambda>max_len.
          let encode_length = (sub64 (sb_offset sb) (unsent sb) < max_len);
              max_len = (if encode_length then sub64 max_len 8 else max_len);
              end' = min (sb_offset sb) (min u64_max (max_len + unsent sb)) in
          Ok (sb\<lparr>unsent := end', sb_retransmits := rts\<rparr>, (unsent sb, end'), encode_length)))"

text \<open>
  The walk of \<open>get\<close> over the segments; slicing \<open>seg[a..a + n]\<close> stays inside the segment by
  the choice of \<open>n\<close>.
\<close>

fun get_walk :: "nat \<Rightarrow> nat \<Rightarrow> nat \<Rightarrow> bytes list \<Rightarrow> bytes" where
  "get_walk start end' pos [] = []"
| "get_walk start end' pos (seg # segs) =
     (let seg_end = add64 pos (length seg) in
      if start < seg_end then
        let seg_start = sub64 start pos;
            seg_len = min (sub64 end' start) (sub64 (length seg) seg_start) in
        take seg_len (drop seg_start seg)
      else get_walk start end' seg_end segs)"

definition sb_get :: "send_buffer \<Rightarrow> range \<Rightarrow> bytes" where
  "sb_get sb offsets =
     (let base = sb_base sb in
      get_walk (sub64 (fst offsets) base) (sub64 (snd offsets) base) 0 (unacked_segments sb))"

definition sb_retransmit :: "send_buffer \<Rightarrow> range \<Rightarrow> send_buffer" where
  "sb_retransmit sb r = sb\<lparr>sb_retransmits := fst (rs_insert (sb_retransmits sb) r)\<rparr>"

definition is_fully_acked :: "send_buffer \<Rightarrow> bool" where
  "is_fully_acked sb \<longleftrightarrow> unacked_len sb = 0"

definition has_unsent_data :: "send_buffer \<Rightarrow> bool" where
  "has_unsent_data sb \<longleftrightarrow> unsent sb \<noteq> sb_offset sb \<or> \<not> rs_is_empty (sb_retransmits sb)"

section \<open>The sending state machine\<close>

datatype send_state = Ready | DataSent bool | ResetSent

record send =
  snd_state :: send_state
  snd_pending :: send_buffer
  snd_priority :: int
  fin_pending :: bool
  stop_reason :: "nat option"

definition send_default :: send where
  "send_default = \<lparr>snd_state = Ready, snd_pending = send_buffer_default, snd_priority = 0,
     fin_pending = False, stop_reason = None\<rparr>"

datatype write_error = WBlocked | WStopped nat | WClosedStream
datatype finish_error = FStopped nat | FClosedStream

definition send_is_reset :: "send \<Rightarrow> bool" where
  "send_is_reset s \<longleftrightarrow> snd_state s = ResetSent"

definition is_writable :: "send \<Rightarrow> bool" where
  "is_writable s \<longleftrightarrow> snd_state s = Ready"

definition send_is_pending :: "send \<Rightarrow> bool" where
  "send_is_pending s \<longleftrightarrow> has_unsent_data (snd_pending s) \<or> fin_pending s"

definition send_finish :: "send \<Rightarrow> (send, finish_error) outcome" where
  "send_finish s =
     (case stop_reason s of
        Some code \<Rightarrow> Err (FStopped code)
      | None \<Rightarrow>
          if snd_state s = Ready then Ok (s\<lparr>snd_state := DataSent False, fin_pending := True\<rparr>)
          else Err FClosedStream)"

definition send_write :: "send \<Rightarrow> bytes \<Rightarrow> (send, write_error) outcome" where
  "send_write s data =
     (if \<not> is_writable s then Err WClosedStream
      else case stop_reason s of
        Some code \<Rightarrow> Err (WStopped code)
      | None \<Rightarrow> Ok (s\<lparr>snd_pending := sb_write (snd_pending s) data\<rparr>))"

definition send_reset :: "send \<Rightarrow> send" where
  "send_reset s =
     (case snd_state s of
        DataSent _ \<Rightarrow> s\<lparr>snd_state := ResetSent\<rparr>
      | Ready \<Rightarrow> s\<lparr>snd_state := ResetSent\<rparr>
      | ResetSent \<Rightarrow> s)"

definition try_stop :: "send \<Rightarrow> nat \<Rightarrow> send \<times> bool" where
  "try_stop s code = (if stop_reason s = None then (s\<lparr>stop_reason := Some code\<rparr>, True) else (s, False))"

definition send_ack :: "send \<Rightarrow> stream_meta \<Rightarrow> send \<times> bool" where
  "send_ack s frame =
     (let s = s\<lparr>snd_pending := sb_ack (snd_pending s) (sm_offsets frame)\<rparr> in
      case snd_state s of
        DataSent finish_acked \<Rightarrow>
          let finish_acked = (finish_acked \<or> sm_fin frame) in
          (s\<lparr>snd_state := DataSent finish_acked\<rparr>, finish_acked \<and> is_fully_acked (snd_pending s))
      | _ \<Rightarrow> (s, False))"

section \<open>The buffer holds a suffix of what was written\<close>

definition sb_inv :: "send_buffer \<Rightarrow> bytes \<Rightarrow> bool" where
  "sb_inv sb D \<longleftrightarrow>
     sb_offset sb = length D \<and> length D < 2 ^ 62 \<and> unacked_len sb \<le> length D \<and>
     concat (unacked_segments sb) = drop (length D - unacked_len sb) D \<and>
     unsent sb \<le> length D \<and> rs_wf (sb_acks sb) \<and> rs_wf (sb_retransmits sb) \<and>
     elems (sb_acks sb) \<subseteq> {..<unsent sb} \<and> elems (sb_retransmits sb) \<subseteq> {..<unsent sb}"

lemma sb_inv_default: "sb_inv send_buffer_default []"
  by (simp add: sb_inv_def send_buffer_default_def)

lemma sb_base_eq: "sb_inv sb D \<Longrightarrow> sb_base sb = length D - unacked_len sb"
  by (simp add: sb_inv_def sb_base_def sub64_small)

lemma sb_write_inv:
  assumes "sb_inv sb D" "length D + length data < 2 ^ 62"
  shows "sb_inv (sb_write sb data) (D @ data)"
proof -
  have "add64 (unacked_len sb) (length data) = unacked_len sb + length data"
    "add64 (sb_offset sb) (length data) = length D + length data"
    using assms by (simp_all add: sb_inv_def add64_small)
  then show ?thesis
    using assms unfolding sb_inv_def by (auto simp: sb_write_def)
qed

text \<open>\<open>get\<close> returns a non-empty prefix of the bytes asked for.\<close>

lemma get_walk_prefix:
  assumes "pos \<le> start" "start < end'" "end' \<le> pos + length (concat segs)" "pos + length (concat segs) < 2 ^ 64"
  shows "\<exists>n. 0 < n \<and> n \<le> end' - start \<and> get_walk start end' pos segs = take n (drop (start - pos) (concat segs))"
  using assms
proof (induction segs arbitrary: pos)
  case (Cons seg segs)
  have pos': "add64 pos (length seg) = pos + length seg" using Cons.prems(4) by (simp add: add64_small)
  show ?case
  proof (cases "start < pos + length seg")
    case True
    define k where "k = start - pos"
    define n where "n = min (end' - start) (length seg - k)"
    have k: "k < length seg" "sub64 start pos = k" "sub64 (length seg) k = length seg - k" "sub64 end' start = end' - start"
      using True Cons.prems by (simp_all add: k_def sub64_small)
    have "get_walk start end' pos (seg # segs) = take n (drop k seg)"
      using True pos' k by (simp add: Let_def n_def)
    moreover have "take n (drop k seg) = take n (drop (start - pos) (concat (seg # segs)))"
      using k(1) by (simp add: n_def k_def)
    moreover have "0 < n" "n \<le> end' - start" using k(1) Cons.prems(2) by (simp_all add: n_def)
    ultimately show ?thesis by metis
  next
    case False
    then have "\<exists>n. 0 < n \<and> n \<le> end' - start \<and>
        get_walk start end' (pos + length seg) segs = take n (drop (start - (pos + length seg)) (concat segs))"
      using Cons.IH [of "pos + length seg"] Cons.prems by (simp add: add.assoc)
    then show ?thesis using False pos' by (simp add: diff_diff_left)
  qed
qed simp

lemma sb_get_prefix:
  assumes "sb_inv sb D" "sb_base sb \<le> start" "start < end'" "end' \<le> length D"
  shows "\<exists>n. 0 < n \<and> n \<le> end' - start \<and> sb_get sb (start, end') = take n (drop start D)"
proof -
  define b where "b = sb_base sb"
  have b: "b = length D - unacked_len sb" using sb_base_eq [OF assms(1)] by (simp add: b_def)
  have segs: "concat (unacked_segments sb) = drop b D" "length D < 2 ^ 62" using assms(1) by (simp_all add: sb_inv_def b)
  have "sub64 start b = start - b" "sub64 end' b = end' - b"
    using assms(2-4) segs(2) by (simp_all add: b_def sub64_small)
  then have "sb_get sb (start, end') = get_walk (start - b) (end' - b) 0 (unacked_segments sb)"
    by (simp add: sb_get_def b_def Let_def)
  moreover have "\<exists>n. 0 < n \<and> n \<le> end' - b - (start - b) \<and>
      get_walk (start - b) (end' - b) 0 (unacked_segments sb) = take n (drop (start - b - 0) (concat (unacked_segments sb)))"
    using assms(2-4) segs by (intro get_walk_prefix) (simp_all add: b_def)
  moreover have "drop (start - b - 0) (drop b D) = drop start D" "end' - b - (start - b) = end' - start"
    using assms(2) by (simp_all add: b_def)
  ultimately show ?thesis using segs(1) by metis
qed

section \<open>What is to be sent\<close>

definition to_send :: "send_buffer \<Rightarrow> nat set" where
  "to_send sb = elems (sb_retransmits sb) \<union> {unsent sb..<sb_offset sb}"

lemma has_unsent_data_iff: "sb_inv sb D \<Longrightarrow> has_unsent_data sb \<longleftrightarrow> to_send sb \<noteq> {}"
  using rs.is_empty_iff [of "sb_retransmits sb"]
  by (auto simp: sb_inv_def has_unsent_data_def to_send_def)

lemma sb_retransmit_inv:
  assumes "sb_inv sb D" "e \<le> unsent sb"
  shows "sb_inv (sb_retransmit sb (s, e)) D" "to_send (sb_retransmit sb (s, e)) = to_send sb \<union> {s..<e}"
  using assms rs.invar_insert [of "sb_retransmits sb" "(s, e)"] rs.set_insert [of "sb_retransmits sb" "(s, e)"]
  by (auto simp: sb_inv_def sb_retransmit_def to_send_def)

text \<open>The end of a frame that starts at \<open>start\<close> and may carry data up to \<open>stop\<close>.\<close>

definition frame_end :: "nat \<Rightarrow> nat \<Rightarrow> nat \<Rightarrow> nat" where
  "frame_end start stop budget = (if stop - start < budget then min stop (start + (budget - 8)) else min stop (start + budget))"

lemma frame_end_bounds:
  assumes "start \<le> stop" "9 \<le> budget"
  shows "start \<le> frame_end start stop budget" "frame_end start stop budget \<le> stop"
    "start < stop \<Longrightarrow> start < frame_end start stop budget"
    "(if stop - start < budget then 8 else 0) + (frame_end start stop budget - start) \<le> budget"
  using assms by (auto simp: frame_end_def min_def)

definition offset_cost :: "nat \<Rightarrow> nat" where
  "offset_cost start = (if start = 0 then 0 else if start \<le> VARINT_MAX_1 then 1
     else if start \<le> VARINT_MAX_2 then 2 else if start \<le> VARINT_MAX_4 then 4 else 8)"

lemma offset_cost_le: "offset_cost start \<le> 8"
  by (simp add: offset_cost_def)

lemma offset_budget:
  assumes "start \<le> VARINT_MAX" "17 \<le> max_len" "max_len < 2 ^ 63"
  shows "(if start \<noteq> 0 then bindO (varint_len start) (\<lambda>l. Ok (sub64 max_len l)) else Ok max_len) =
    (Ok (max_len - offset_cost start) :: (nat, 'e) outcome)"
  using assms by (simp add: varint_len_def offset_cost_def sub64_small VARINT_MAX_def)

text \<open>One call of \<open>poll_transmit\<close> as the removal of a range from the offsets to send.\<close>

definition poll_ok :: "send_buffer \<Rightarrow> nat \<Rightarrow> send_buffer \<Rightarrow> range \<Rightarrow> bool \<Rightarrow> bool" where
  "poll_ok sb max_len sb' r enc \<longleftrightarrow>
     (case r of (s, e) \<Rightarrow>
        s \<le> e \<and> e \<le> unsent sb' \<and> {s..<e} \<subseteq> to_send sb \<and> to_send sb' = to_send sb - {s..<e} \<and>
        (to_send sb \<noteq> {} \<longrightarrow> s = Min (to_send sb) \<and> s < e) \<and>
        offset_cost s + (if enc then 8 else 0) + (e - s) \<le> max_len \<and>
        unacked_segments sb' = unacked_segments sb \<and> unacked_len sb' = unacked_len sb \<and>
        sb_offset sb' = sb_offset sb \<and> sb_acks sb' = sb_acks sb)"

lemma poll_transmit_new:
  assumes "sb_inv sb D" "elems (sb_retransmits sb) = {}" "17 \<le> max_len" "max_len < 2 ^ 63"
  shows "\<exists>sb' r enc. sb_poll_transmit sb max_len = (Ok (sb', r, enc) :: (_, 'e) outcome) \<and>
    sb_inv sb' D \<and> poll_ok sb max_len sb' r enc"
proof -
  have inv: "unsent sb \<le> length D" "length D < 2 ^ 62" "sb_offset sb = length D" "rs_wf (sb_retransmits sb)"
    using assms(1) by (simp_all add: sb_inv_def)
  have pop: "rs_pop_min (sb_retransmits sb) = (sb_retransmits sb, None)"
    using rs.pop_min_None [OF inv(4) assms(2)] .
  define budget where "budget = max_len - offset_cost (unsent sb)"
  define e where "e = frame_end (unsent sb) (length D) budget"
  have budget: "9 \<le> budget" "budget < 2 ^ 63" "offset_cost (unsent sb) + budget = max_len"
    using assms(3,4) offset_cost_le [of "unsent sb"] by (simp_all add: budget_def)
  note e = frame_end_bounds [OF inv(1) budget(1), folded e_def]
  have small: "unsent sb \<le> VARINT_MAX" using inv by (simp add: varint_max_values)
  have sub: "sub64 (length D) (unsent sb) = length D - unsent sb" "sub64 budget 8 = budget - 8"
    using inv budget by (simp_all add: sub64_small)
  have sat: "min u64_max (x + unsent sb) = unsent sb + x" if "x \<le> budget" for x
    using that budget(2) inv by (simp add: u64_max_def min_def)
  have "sb_poll_transmit sb max_len =
      (Ok (sb\<lparr>unsent := e, sb_retransmits := sb_retransmits sb\<rparr>, (unsent sb, e), length D - unsent sb < budget) :: (_, 'e) outcome)"
    unfolding sb_poll_transmit_def pop prod.case option.case offset_budget [OF small assms(3,4)] bindO.simps
      Let_def budget_def [symmetric] inv(3) sub e_def frame_end_def
    by (simp add: sat)
  moreover have "sb_inv (sb\<lparr>unsent := e, sb_retransmits := sb_retransmits sb\<rparr>) D"
    using assms(1) e(1,2) by (auto simp: sb_inv_def)
  moreover have "poll_ok sb max_len (sb\<lparr>unsent := e, sb_retransmits := sb_retransmits sb\<rparr>) (unsent sb, e)
      (length D - unsent sb < budget)"
  proof -
    have "to_send sb = {unsent sb..<length D}" using assms(2) inv(3) by (simp add: to_send_def)
    moreover have "unsent sb = Min {unsent sb..<length D}" if "unsent sb < length D"
      using that by (intro Min_eqI [symmetric]) auto
    ultimately show ?thesis
      using e assms(2) inv(3) budget(3) by (auto simp: poll_ok_def to_send_def split: if_splits)
  qed
  ultimately show ?thesis by blast
qed

lemma poll_transmit_again:
  assumes "sb_inv sb D" "elems (sb_retransmits sb) \<noteq> {}" "17 \<le> max_len" "max_len < 2 ^ 63"
  shows "\<exists>sb' r enc. sb_poll_transmit sb max_len = (Ok (sb', r, enc) :: (_, 'e) outcome) \<and>
    sb_inv sb' D \<and> poll_ok sb max_len sb' r enc"
proof -
  have inv: "unsent sb \<le> length D" "length D < 2 ^ 62" "rs_wf (sb_retransmits sb)"
    "elems (sb_retransmits sb) \<subseteq> {..<unsent sb}" "sb_offset sb = length D"
    using assms(1) by (simp_all add: sb_inv_def)
  obtain rts s t where pop: "rs_pop_min (sb_retransmits sb) = (rts, Some (s, t))"
    and rts: "rs_wf rts" "s < t" "elems (sb_retransmits sb) = {s..<t} \<union> elems rts" "\<forall>y\<in>elems rts. t < y"
    using rs.pop_min_Some [OF inv(3) assms(2)] by (metis prod.collapse)
  have "t - 1 \<in> elems (sb_retransmits sb)" using rts(2,3) by auto
  then have t: "t \<le> unsent sb" using inv(4) rts(2) by fastforce
  define budget where "budget = max_len - offset_cost s"
  define e where "e = frame_end s t budget"
  have budget: "9 \<le> budget" "budget < 2 ^ 63" "offset_cost s + budget = max_len"
    using assms(3,4) offset_cost_le [of s] by (simp_all add: budget_def)
  note e = frame_end_bounds [OF less_imp_le [OF rts(2)] budget(1), folded e_def]
  have small: "s \<le> VARINT_MAX" using inv t rts(2) by (simp add: varint_max_values)
  have sub: "sub64 t s = t - s" "sub64 budget 8 = budget - 8"
    using inv budget t rts(2) by (simp_all add: sub64_small)
  have add: "add64 s x = s + x" if "x \<le> budget" for x
    using that budget(2) inv t rts(2) by (simp add: add64_small)
  define rts' where "rts' = (if e < t then fst (rs_insert rts (e, t)) else rts)"
  have "sb_poll_transmit sb max_len =
      (Ok (sb\<lparr>sb_retransmits := rts'\<rparr>, (s, e), t - s < budget) :: (_, 'e) outcome)"
    unfolding sb_poll_transmit_def pop prod.case option.case offset_budget [OF small assms(3,4)] bindO.simps
      Let_def budget_def [symmetric] sub
    by (simp add: add e_def frame_end_def rts'_def)
  moreover have wf': "rs_wf rts'" "elems rts' = elems rts \<union> {e..<t}"
    using rs.invar_insert [OF rts(1), of "(e, t)"] rs.set_insert [OF rts(1), of "(e, t)"] rts(1)
    by (auto simp: rts'_def)
  moreover have "sb_inv (sb\<lparr>sb_retransmits := rts'\<rparr>) D"
    using assms(1) wf' rts(3) e(1) t by (auto simp: sb_inv_def)
  moreover have "poll_ok sb max_len (sb\<lparr>sb_retransmits := rts'\<rparr>) (s, e) (t - s < budget)"
  proof -
    have "Min (to_send sb) = s" using rts t by (intro Min_eqI) (auto simp: to_send_def)
    moreover have "to_send (sb\<lparr>sb_retransmits := rts'\<rparr>) = to_send sb - {s..<e}"
      using rts(3,4) wf'(2) e(1-3) t inv(4) by (auto simp: to_send_def)
    moreover have "{s..<e} \<subseteq> {s..<t}" using e(2) by auto
    then have "{s..<e} \<subseteq> to_send sb" unfolding to_send_def rts(3) by blast
    ultimately show ?thesis
      using e rts(2) t budget(3) by (auto simp: poll_ok_def split: if_splits)
  qed
  ultimately show ?thesis by blast
qed

lemma poll_transmit_spec:
  assumes "sb_inv sb D" "17 \<le> max_len" "max_len < 2 ^ 63"
  shows "\<exists>sb' r enc. sb_poll_transmit sb max_len = (Ok (sb', r, enc) :: (_, 'e) outcome) \<and>
    sb_inv sb' D \<and> poll_ok sb max_len sb' r enc"
  using poll_transmit_new [OF assms(1) _ assms(2,3)] poll_transmit_again [OF assms(1) _ assms(2,3)]
  by blast

section \<open>Acknowledgements\<close>

text \<open>The offsets of the segments, from the base on.\<close>

fun seg_ranges :: "nat \<Rightarrow> bytes list \<Rightarrow> range list" where
  "seg_ranges pos [] = []"
| "seg_ranges pos (seg # segs) = (pos, pos + length seg) # seg_ranges (pos + length seg) segs"

text \<open>Every segment whose first and last byte were acknowledged was acknowledged as a whole.\<close>

definition no_gap :: "nat set \<Rightarrow> nat \<Rightarrow> bytes list \<Rightarrow> bool" where
  "no_gap A pos segs \<longleftrightarrow>
     (\<forall>(a, b)\<in>set (seg_ranges pos segs). a \<in> A \<and> b - 1 \<in> A \<longrightarrow> {a..<b} \<subseteq> A)"

lemma no_gap_Cons:
  "no_gap A pos (seg # segs) \<longleftrightarrow>
     (pos \<in> A \<and> pos + length seg - 1 \<in> A \<longrightarrow> {pos..<pos + length seg} \<subseteq> A) \<and> no_gap A (pos + length seg) segs"
  by (simp add: no_gap_def)

lemma ack_free_spec:
  assumes "rs_wf acks" "elems acks \<subseteq> {..<2 ^ 62}" "base + freed + length (concat segs) < 2 ^ 62"
  shows "\<exists>n. ack_free acks base freed segs = (freed + length (concat (take n segs)), drop n segs) \<and>
    (no_gap (elems acks) (base + freed) segs \<longrightarrow>
      {base + freed..<base + freed + length (concat (take n segs))} \<subseteq> elems acks)"
  using assms(3)
proof (induction segs arbitrary: freed)
  case (Cons seg segs)
  define a b where "a = base + freed" and "b = a + length seg"
  have pos: "add64 base freed = a" "add64 a (length seg) = b" "add64 freed (length seg) = freed + length seg"
    using Cons.prems by (simp_all add: add64_small a_def b_def)
  show ?case
  proof (cases "rs_contains acks a \<and> rs_contains acks (sub64 b 1)")
    case True
    then have mem: "a \<in> elems acks" "sub64 b 1 \<in> elems acks" using rs.contains_iff [OF assms(1)] by auto
    have "sub64 b 1 = b - 1"
    proof (cases "b = 0")
      case True
      then have "sub64 b 1 = 2 ^ 64 - 1" using sub64_wrap [of 0 1] by simp
      then show ?thesis using mem(2) assms(2) by auto
    next
      case False
      moreover have "b < 2 ^ 64" using Cons.prems by (simp add: a_def b_def)
      ultimately show ?thesis by (intro sub64_small) linarith+
    qed
    then have b: "b - 1 \<in> elems acks" using mem(2) by simp
    have "\<exists>n. ack_free acks base (freed + length seg) segs =
        (freed + length seg + length (concat (take n segs)), drop n segs) \<and>
        (no_gap (elems acks) b segs \<longrightarrow> {b..<b + length (concat (take n segs))} \<subseteq> elems acks)"
      using Cons.IH [of "freed + length seg"] Cons.prems by (simp add: a_def b_def add.assoc)
    then obtain n where n: "ack_free acks base (freed + length seg) segs =
        (freed + length seg + length (concat (take n segs)), drop n segs)"
      "no_gap (elems acks) b segs \<longrightarrow> {b..<b + length (concat (take n segs))} \<subseteq> elems acks" by blast
    have "ack_free acks base freed (seg # segs) =
        (freed + length (concat (take (Suc n) (seg # segs))), drop (Suc n) (seg # segs))"
      using True n(1) by (simp add: Let_def pos add.assoc)
    moreover have "{a..<a + length (concat (take (Suc n) (seg # segs)))} \<subseteq> elems acks"
      if "no_gap (elems acks) a (seg # segs)"
    proof -
      have "{a..<b} \<subseteq> elems acks" "no_gap (elems acks) b segs"
        using that mem(1) b by (simp_all add: no_gap_Cons b_def)
      then have "{a..<b} \<union> {b..<b + length (concat (take n segs))} \<subseteq> elems acks" using n(2) by blast
      moreover have "{a..<a + length (concat (take (Suc n) (seg # segs)))} \<subseteq>
          {a..<b} \<union> {b..<b + length (concat (take n segs))}" by (auto simp: b_def)
      ultimately show ?thesis by blast
    qed
    ultimately show ?thesis unfolding a_def by blast
  next
    case False
    then show ?thesis by (intro exI [of _ 0]) (auto simp: Let_def pos)
  qed
qed simp

lemma sb_ack_spec:
  assumes "sb_inv sb D" "e \<le> unsent sb"
  shows "sb_inv (sb_ack sb (s, e)) D \<and> sb_base sb \<le> sb_base (sb_ack sb (s, e)) \<and>
    unsent (sb_ack sb (s, e)) = unsent sb \<and> sb_offset (sb_ack sb (s, e)) = sb_offset sb \<and>
    to_send (sb_ack sb (s, e)) = to_send sb \<and>
    elems (sb_acks (sb_ack sb (s, e))) \<subseteq> elems (sb_acks sb) \<union> {s..<e} \<and>
    (no_gap (elems (sb_acks sb) \<union> {s..<e}) (sb_base sb) (unacked_segments sb) \<longrightarrow>
       {sb_base sb..<sb_base (sb_ack sb (s, e))} \<subseteq> elems (sb_acks sb) \<union> {s..<e})"
proof -
  define acks where "acks = fst (rs_insert (sb_acks sb) (s, e))"
  define base where "base = sb_base sb"
  have inv: "rs_wf (sb_acks sb)" "elems (sb_acks sb) \<subseteq> {..<unsent sb}" "unsent sb \<le> length D"
    "length D < 2 ^ 62" "unacked_len sb \<le> length D" "sb_offset sb = length D"
    "concat (unacked_segments sb) = drop base D"
    using assms(1) sb_base_eq [OF assms(1)] by (simp_all add: sb_inv_def base_def)
  have base: "base = length D - unacked_len sb" using sb_base_eq [OF assms(1)] by (simp add: base_def)
  have acks: "rs_wf acks" "elems acks = elems (sb_acks sb) \<union> {s..<e}"
    using rs.invar_insert [OF inv(1)] rs.set_insert [OF inv(1)] by (auto simp: acks_def)
  have below: "elems acks \<subseteq> {..<2 ^ 62}" using acks(2) inv(2-4) assms(2) by fastforce
  have len: "length (concat (unacked_segments sb)) = unacked_len sb" using inv(5,7) base by simp
  have "base + 0 + length (concat (unacked_segments sb)) < 2 ^ 62" using len inv(4,5) base by simp
  from ack_free_spec [OF acks(1) below this]
  obtain n where n: "ack_free acks base 0 (unacked_segments sb) =
      (length (concat (take n (unacked_segments sb))), drop n (unacked_segments sb))"
    and gap: "no_gap (elems acks) base (unacked_segments sb) \<longrightarrow>
      {base..<base + length (concat (take n (unacked_segments sb)))} \<subseteq> elems acks"
    by auto
  define f where "f = length (concat (take n (unacked_segments sb)))"
  have split: "concat (take n (unacked_segments sb)) @ concat (drop n (unacked_segments sb)) = drop base D"
    using inv(7) by (metis append_take_drop_id concat_append)
  have f: "f \<le> unacked_len sb" using arg_cong [OF split, of length] inv(5) base by (simp add: f_def)
  have rest: "concat (drop n (unacked_segments sb)) = drop (base + f) D"
    using arg_cong [OF split, of "drop f"] by (simp add: f_def add.commute)
  have len': "sub64 (unacked_len sb) f = unacked_len sb - f" using f inv(4,5) by (simp add: sub64_small)
  have add: "add64 base f = base + f" using f inv(4,5) base by (simp add: add64_small)
  define sb' where "sb' = sb_ack sb (s, e)"
  have sb': "sb' = sb\<lparr>sb_acks := (if f > 0 then fst (rs_remove acks (base, base + f)) else acks),
      unacked_segments := drop n (unacked_segments sb), unacked_len := unacked_len sb - f\<rparr>"
    unfolding sb'_def sb_ack_def Let_def acks_def [symmetric] base_def [symmetric] n
    using len' add by (simp add: f_def)
  have acks': "rs_wf (sb_acks sb')" "elems (sb_acks sb') \<subseteq> elems acks"
    using acks(1) rs.invar_remove [OF acks(1)] rs.set_remove [OF acks(1)] by (auto simp: sb')
  have fields: "sb_offset sb' = length D" "unacked_len sb' = unacked_len sb - f" "unsent sb' = unsent sb"
    "unacked_segments sb' = drop n (unacked_segments sb)" "sb_retransmits sb' = sb_retransmits sb"
    by (simp_all add: sb' inv(6))
  have "length D - (unacked_len sb - f) = base + f" using f inv(5) base by simp
  moreover have "elems (sb_acks sb') \<subseteq> {..<unsent sb}" using acks'(2) acks(2) inv(2) assms(2) by fastforce
  moreover have "unacked_len sb - f \<le> length D" using inv(5) by simp
  ultimately have inv': "sb_inv sb' D"
    using assms(1) acks'(1) f rest unfolding sb_inv_def fields by simp
  have base': "sb_base sb' = base + f" using sb_base_eq [OF inv'] f inv(5) base by (simp add: sb')
  have "to_send sb' = to_send sb" "unsent sb' = unsent sb" "sb_offset sb' = sb_offset sb"
    by (simp_all add: fields inv(6) to_send_def)
  then show ?thesis
    using inv' base' acks'(2) acks(2) gap
    unfolding sb'_def [symmetric] base_def [symmetric] f_def [symmetric] by simp
qed

text \<open>With the set \<open>A\<close> of all offsets ever acknowledged: what was forgotten was acknowledged.\<close>

definition acked_inv :: "send_buffer \<Rightarrow> bytes \<Rightarrow> nat set \<Rightarrow> bool" where
  "acked_inv sb D A \<longleftrightarrow> sb_inv sb D \<and> {..<sb_base sb} \<subseteq> A \<and> elems (sb_acks sb) \<subseteq> A"

lemma acked_inv_step:
  assumes "acked_inv sb D A" "e \<le> unsent sb"
    "no_gap (elems (sb_acks sb) \<union> {s..<e}) (sb_base sb) (unacked_segments sb)"
  shows "acked_inv (sb_ack sb (s, e)) D (A \<union> {s..<e})"
proof -
  note spec = sb_ack_spec [of sb D e s]
  have "{..<sb_base (sb_ack sb (s, e))} \<subseteq> {..<sb_base sb} \<union> {sb_base sb..<sb_base (sb_ack sb (s, e))}" by auto
  then show ?thesis using assms spec unfolding acked_inv_def by blast
qed

lemma acked_inv_complete:
  assumes "acked_inv sb D A" "is_fully_acked sb"
  shows "{..<length D} \<subseteq> A"
  using assms sb_base_eq [of sb D] by (auto simp: acked_inv_def is_fully_acked_def)

section \<open>Properties\<close>

section \<open>Runs of the send buffer\<close>

text \<open>
  The buffers reachable by writing, transmitting, losing and acknowledging data: \<open>D\<close> is all the
  data written so far.  Ranges are lost or acknowledged only after they were transmitted.
\<close>

inductive sb_reach :: "send_buffer \<Rightarrow> bytes \<Rightarrow> bool" where
  init: "sb_reach send_buffer_default []"
| wrote: "sb_reach sb D \<Longrightarrow> length D + length data < 2 ^ 62 \<Longrightarrow> sb_reach (sb_write sb data) (D @ data)"
| transmit: "sb_reach sb D \<Longrightarrow> 17 \<le> max_len \<Longrightarrow> max_len < 2 ^ 63 \<Longrightarrow>
    sb_poll_transmit sb max_len = (Ok (sb', r, enc) :: (_, unit) outcome) \<Longrightarrow> sb_reach sb' D"
| lost: "sb_reach sb D \<Longrightarrow> e \<le> unsent sb \<Longrightarrow> sb_reach (sb_retransmit sb (s, e)) D"
| acked: "sb_reach sb D \<Longrightarrow> e \<le> unsent sb \<Longrightarrow> sb_reach (sb_ack sb (s, e)) D"

lemma sb_reach_inv: "sb_reach sb D \<Longrightarrow> sb_inv sb D"
proof (induction rule: sb_reach.induct)
  case (transmit sb D max_len sb' r enc)
  then show ?case using poll_transmit_spec [where 'e = unit, of sb D max_len] by auto
qed (auto simp: sb_inv_default sb_write_inv sb_retransmit_inv sb_ack_spec)

text \<open>
  C24. The send buffer keeps the stream: in every reachable state, the bytes it returns for a range
  that is not yet released are a non-empty prefix of exactly those bytes of the data written.
\<close>

theorem send_buffer_keeps_data:
  assumes "sb_reach sb D" "sb_base sb \<le> start" "start < stop" "stop \<le> length D"
  shows "\<exists>n. 0 < n \<and> n \<le> stop - start \<and> sb_get sb (start, stop) = take n (drop start D)"
  using sb_get_prefix [OF sb_reach_inv [OF assms(1)] assms(2-4)] .

theorem send_buffer_keeps_data_witness:
  "\<exists>n. 0 < n \<and> n \<le> 4 - (1 :: nat) \<and>
    sb_get (sb_write (sb_write send_buffer_default [1, 2]) [3, 4, 5]) (1, 4) = take n (drop 1 [1, 2, 3, 4, 5])"
proof -
  have "sb_reach (sb_write (sb_write send_buffer_default [1, 2]) [3, 4, 5]) (([] @ [1, 2]) @ [3, 4, 5])"
    by (intro sb_reach.intros) simp_all
  then show ?thesis
    by (intro send_buffer_keeps_data)
      (simp_all add: sb_base_def sb_write_def send_buffer_default_def sub64_def add64_def)
qed

text \<open>
  \<open>poll_transmit\<close> takes what is due: given at least 17 bytes of space it succeeds in every
  reachable state; the range it returns consists of lost or unsent bytes, which are no longer due
  afterwards, is non-empty whenever something is due, and fits the space with its length field.
\<close>

lemma poll_transmit_takes_due_data:
  assumes "sb_reach sb D" "17 \<le> max_len" "max_len < 2 ^ 63"
  shows "\<exists>sb' r enc. sb_poll_transmit sb max_len = (Ok (sb', r, enc) :: (_, 'e) outcome) \<and> sb_inv sb' D \<and> poll_ok sb max_len sb' r enc"
  using poll_transmit_spec [OF sb_reach_inv [OF assms(1)] assms(2,3)] .

text \<open>
  Acknowledging the first and the last byte of a segment releases the whole segment: the
  stream counts as fully acknowledged although the bytes between them were never acknowledged
  and may still be reported lost.
\<close>

lemma ack_releases_gap:
  "\<exists>sb. sb_reach sb (replicate 10 0) \<and> unacked_len sb = 10 \<and> elems (sb_acks sb) = {} \<and>
    is_fully_acked (sb_ack (sb_ack sb (0, 1)) (9, 10))"
proof -
  let ?new = "sb_write send_buffer_default (replicate 10 0)"
  let ?sb = "\<lparr>unacked_segments = [replicate 10 0], unacked_len = 10, sb_offset = 10, unsent = 10, sb_acks = [], sb_retransmits = []\<rparr>"
  have "sb_reach ?new ([] @ replicate 10 0)" by (rule sb_reach.wrote [OF sb_reach.init]) simp
  moreover have "sb_poll_transmit ?new 100 = (Ok (?sb, (0, 10), True) :: (_, unit) outcome)"
    by (simp add: sb_poll_transmit_def sb_write_def send_buffer_default_def rs_pop_min_def rs_peek_min_def add64_def sub64_def
        u64_max_def)
  ultimately have "sb_reach ?sb (replicate 10 0)" using sb_reach.transmit [of ?new "replicate 10 0" 100] by simp
  moreover have "sb_ack ?sb (0, 1) = ?sb\<lparr>sb_acks := [(0, 1)]\<rparr>"
    by (simp add: sb_ack_def rs_insert_eq_ars ars_insert_def rs_contains_def bt_pred_def sb_base_def add64_def sub64_def)
  moreover have "is_fully_acked (sb_ack (?sb\<lparr>sb_acks := [(0, 1)]\<rparr>) (9, 10))"
    by (simp add: sb_ack_def rs_insert_eq_ars ars_insert_def rs_contains_def bt_pred_def sb_base_def add64_def sub64_def
        is_fully_acked_def)
  ultimately show ?thesis by (intro exI [of _ ?sb]) simp
qed

end
