(* ===== verification/Recv_Stream.thy ===== *)
theory Recv_Stream
  imports Frame Btree_Range_Set
begin

text \<open>
  The receiving half of a stream (\<open>core/src/connection/stream/recv.rs\<close>): the assembler that
  puts the data of STREAM frames into order, the state machine of the stream, and the iterator
  over its chunks.  The assembler is related to the content \<open>f\<close> of the stream, a function from
  offsets to bytes: it holds some of these bytes, and reading returns them in order.
\<close>

section \<open>Buffers\<close>

record buffer =
  buf_offset :: nat
  buf_bytes :: bytes
  allocation_size :: nat
  defragmented :: bool

definition buffer_new :: "nat \<Rightarrow> bytes \<Rightarrow> nat \<Rightarrow> buffer" where
  "buffer_new offset bs alloc = \<lparr>buf_offset = offset, buf_bytes = bs, allocation_size = alloc, defragmented = False\<rparr>"

definition buffer_new_defragmented :: "nat \<Rightarrow> bytes \<Rightarrow> buffer" where
  "buffer_new_defragmented offset bs =
     \<lparr>buf_offset = offset, buf_bytes = bs, allocation_size = length bs, defragmented = True\<rparr>"

definition try_mark_defragment :: "buffer \<Rightarrow> nat \<Rightarrow> buffer" where
  "try_mark_defragment b offset =
     (let duplicate = saturating_sub offset (buf_offset b);
          b = b\<lparr>buf_offset := max (buf_offset b) offset\<rparr> in
      if duplicate \<ge> length (buf_bytes b) then
        b\<lparr>buf_bytes := [], defragmented := True, allocation_size := 0\<rparr>
      else
        let b = b\<lparr>buf_bytes := drop duplicate (buf_bytes b)\<rparr>;
            b = b\<lparr>defragmented := defragmented b \<or> mul64 (length (buf_bytes b)) 6 div 5 \<ge> allocation_size b\<rparr> in
        if defragmented b then b\<lparr>allocation_size := length (buf_bytes b)\<rparr> else b)"

text \<open>The ordering of buffers: the reverse of the offset first, then the length.\<close>

definition buffer_less :: "buffer \<Rightarrow> buffer \<Rightarrow> bool" where
  "buffer_less a b \<longleftrightarrow> buf_offset b < buf_offset a \<or>
     buf_offset a = buf_offset b \<and> length (buf_bytes a) < length (buf_bytes b)"

definition buffer_eq :: "buffer \<Rightarrow> buffer \<Rightarrow> bool" where
  "buffer_eq a b \<longleftrightarrow> buf_offset a = buf_offset b \<and> length (buf_bytes a) = length (buf_bytes b)"

definition buf_end :: "buffer \<Rightarrow> nat" where
  "buf_end b = add64 (buf_offset b) (length (buf_bytes b))"

section \<open>The assembler\<close>

datatype assembler_state = Ordered | Unordered range_set

record assembler =
  asm_state :: assembler_state
  asm_data :: "buffer list"
  buffered :: nat
  allocated :: nat
  asm_bytes_read :: nat
  asm_end :: nat

definition assembler_default :: assembler where
  "assembler_default = \<lparr>asm_state = Ordered, asm_data = [], buffered = 0, allocated = 0,
     asm_bytes_read = 0, asm_end = 0\<rparr>"

datatype illegal_ordered_read = IllegalOrderedRead

definition is_ordered :: "assembler_state \<Rightarrow> bool" where
  "is_ordered s = (case s of Ordered \<Rightarrow> True | Unordered _ \<Rightarrow> False)"

definition ensure_ordering :: "assembler \<Rightarrow> bool \<Rightarrow> (unit, illegal_ordered_read) outcome" where
  "ensure_ordering a ordered =
     (if ordered \<and> \<not> is_ordered (asm_state a) then Err IllegalOrderedRead
      else if \<not> ordered \<and> is_ordered (asm_state a) then Panic
      else Ok ())"

record chunk =
  chunk_offset :: nat
  chunk_bytes :: bytes

definition asm_read :: "assembler \<Rightarrow> nat \<Rightarrow> bool \<Rightarrow> (assembler \<times> chunk option, 'e) outcome" where
  "asm_read a max_length ordered =
     (if \<not> ordered then Panic
      else case asm_data a of
        [] \<Rightarrow> Ok (a, None)
      | b # rest \<Rightarrow>
          if buf_offset b \<noteq> asm_bytes_read a then Ok (a, None)
          else if max_length < length (buf_bytes b) then
            Ok (a\<lparr>asm_bytes_read := add64 (asm_bytes_read a) max_length,
                  buffered := sub64 (buffered a) max_length,
                  asm_data := b\<lparr>buf_offset := add64 (buf_offset b) max_length,
                                buf_bytes := drop max_length (buf_bytes b)\<rparr> # rest\<rparr>,
                Some \<lparr>chunk_offset = buf_offset b, chunk_bytes = take max_length (buf_bytes b)\<rparr>)
          else
            Ok (a\<lparr>asm_bytes_read := add64 (asm_bytes_read a) (length (buf_bytes b)),
                  buffered := sub64 (buffered a) (length (buf_bytes b)),
                  allocated := sub64 (allocated a) (allocation_size b),
                  asm_data := rest\<rparr>,
                Some \<lparr>chunk_offset = buf_offset b, chunk_bytes = buf_bytes b\<rparr>))"

text \<open>
  The loop of \<open>insert\<close> over the segments from the insertion point on: covered segments are
  removed, the first one that sticks out cuts the new bytes.
\<close>

fun asm_absorb :: "nat \<Rightarrow> nat \<Rightarrow> bytes \<Rightarrow> nat \<Rightarrow> nat \<Rightarrow> buffer list \<Rightarrow> buffer list \<times> bytes \<times> nat \<times> nat" where
  "asm_absorb offset new_end bs bfd alc [] = ([], bs, bfd, alc)"
| "asm_absorb offset new_end bs bfd alc (b # rest) =
     (if buf_offset b \<ge> new_end then (b # rest, bs, bfd, alc)
      else if buf_end b \<le> new_end then
        asm_absorb offset new_end bs (sub64 bfd (length (buf_bytes b))) (sub64 alc (allocation_size b)) rest
      else (b # rest, take (sub64 (buf_offset b) offset) bs, bfd, alc))"

text \<open>The part of \<open>insert\<close> from the search for the insertion point on.\<close>

definition asm_place :: "assembler \<Rightarrow> nat \<Rightarrow> bytes \<Rightarrow> nat \<Rightarrow> assembler" where
  "asm_place a offset bs alloc =
     (let before = takeWhile (\<lambda>b. \<not> buf_end b > offset) (asm_data a);
          after = dropWhile (\<lambda>b. \<not> buf_end b > offset) (asm_data a);
          trim = (if before \<noteq> [] \<and> buf_end (last before) > offset
                  then sub64 (buf_end (last before)) offset else 0) in
      if trim \<noteq> 0 \<and> trim \<ge> length bs then a
      else
        let bs = drop trim bs;
            offset = (if trim \<noteq> 0 then buf_end (last before) else offset);
            new_end = add64 offset (length bs);
            (after, bs, bfd, alc) = asm_absorb offset new_end bs (buffered a) (allocated a) after;
            a = a\<lparr>asm_data := before @ after, buffered := bfd, allocated := alc\<rparr> in
        if bs = [] then a
        else a\<lparr>buffered := add64 (buffered a) (length bs), allocated := add64 (allocated a) alloc,
               asm_data := before @ buffer_new offset bs alloc # after\<rparr>)"

definition asm_insert :: "assembler \<Rightarrow> nat \<Rightarrow> bytes \<Rightarrow> nat \<Rightarrow> assembler" where
  "asm_insert a offset bs alloc =
     (let a = a\<lparr>asm_end := max (asm_end a) (add64 offset (length bs))\<rparr>;
          frame_end = add64 offset (length bs) in
      if bs = [] then a
      else if frame_end \<le> asm_bytes_read a then a
      else if offset < asm_bytes_read a then
        let duplicate = sub64 (asm_bytes_read a) offset in
        if duplicate \<ge> length bs then a
        else asm_place a (asm_bytes_read a) (drop duplicate bs) alloc
      else asm_place a offset bs alloc)"

definition asm_clear :: "assembler \<Rightarrow> assembler" where
  "asm_clear a = a\<lparr>asm_data := [], buffered := 0, allocated := 0\<rparr>"

section \<open>The receiving state machine\<close>

datatype recv_state = Recv "nat option" | ResetRecvd nat nat

text \<open>\<open>ResetRecvd size error_code\<close>.\<close>

record recv =
  rcv_state :: recv_state
  rcv_assembler :: assembler
  rcv_end :: nat
  stopped :: bool

definition recv_default :: recv where
  "recv_default = \<lparr>rcv_state = Recv None, rcv_assembler = assembler_default, rcv_end = 0, stopped = False\<rparr>"

definition final_offset :: "recv \<Rightarrow> nat option" where
  "final_offset r = (case rcv_state r of Recv sz \<Rightarrow> sz | ResetRecvd sz _ \<Rightarrow> Some sz)"

definition final_offset_unknown :: "recv \<Rightarrow> bool" where
  "final_offset_unknown r \<longleftrightarrow> rcv_state r = Recv None"

definition is_receiving :: "recv \<Rightarrow> bool" where
  "is_receiving r = (case rcv_state r of Recv _ \<Rightarrow> True | ResetRecvd _ _ \<Rightarrow> False)"

definition reset_code :: "recv \<Rightarrow> nat option" where
  "reset_code r = (case rcv_state r of ResetRecvd _ code \<Rightarrow> Some code | _ \<Rightarrow> None)"

definition ingest :: "recv \<Rightarrow> stream_frame \<Rightarrow> nat \<Rightarrow> (recv \<times> nat \<times> bool, transport_error) outcome" where
  "ingest r frame payload_len =
     (let end' = add64 (sf_offset frame) (length (sf_data frame)) in
      if end' \<ge> 2 ^ 62 then Err (transport_error_new FLOW_CONTROL_ERROR ''maximum stream offset too large'')
      else if (case final_offset r of None \<Rightarrow> False
               | Some final \<Rightarrow> end' > final \<or> sf_fin frame \<and> end' \<noteq> final)
      then Err (transport_error_new FINAL_SIZE_ERROR '''')
      else
        let new_bytes = saturating_sub end' (rcv_end r);
            r = (if sf_fin frame \<and> \<not> stopped r \<and> is_receiving r then r\<lparr>rcv_state := Recv (Some end')\<rparr> else r);
            r = r\<lparr>rcv_end := max (rcv_end r) end'\<rparr>;
            r = (if \<not> stopped r
                 then r\<lparr>rcv_assembler := asm_insert (rcv_assembler r) (sf_offset frame) (sf_data frame) payload_len\<rparr>
                 else r) in
        Ok (r, new_bytes, sf_fin frame \<and> stopped r))"

datatype closed_stream = ClosedStream

definition recv_stop :: "recv \<Rightarrow> (recv \<times> nat \<times> bool, closed_stream) outcome" where
  "recv_stop r =
     (if stopped r then Err ClosedStream
      else
        let r = r\<lparr>stopped := True, rcv_assembler := asm_clear (rcv_assembler r)\<rparr>;
            read_credits = sub64 (rcv_end r) (asm_bytes_read (rcv_assembler r)) in
        Ok (r, read_credits, is_receiving r))"

definition recv_reset :: "recv \<Rightarrow> nat \<Rightarrow> nat \<Rightarrow> (recv \<times> bool, transport_error) outcome" where
  "recv_reset r error_code final =
     (case final_offset r of
        Some offset \<Rightarrow>
          if offset \<noteq> final then Err (transport_error_new FINAL_SIZE_ERROR ''inconsistent value'')
          else if \<not> is_receiving r then Ok (r, False)
          else Ok (r\<lparr>rcv_state := ResetRecvd final error_code, rcv_assembler := asm_clear (rcv_assembler r)\<rparr>, True)
      | None \<Rightarrow>
          if rcv_end r > final then Err (transport_error_new FINAL_SIZE_ERROR ''lower than high water mark'')
          else if \<not> is_receiving r then Ok (r, False)
          else Ok (r\<lparr>rcv_state := ResetRecvd final error_code, rcv_assembler := asm_clear (rcv_assembler r)\<rparr>, True))"

section \<open>Reading chunks\<close>

datatype chunks_state = ChReadable recv | ChReset nat | ChFinished
datatype read_error = RBlocked | RReset nat
datatype readable_error = RClosedStream | RIllegalOrderedRead

record chunks =
  ch_id :: stream_id
  ch_ordered :: bool
  ch_state :: chunks_state
  ch_read :: nat

text \<open>One call of \<open>Chunks::next\<close>: the chunks afterwards and the result.\<close>

definition chunks_next :: "chunks \<Rightarrow> nat \<Rightarrow> (chunks \<times> (chunk option, read_error) outcome, 'e) outcome" where
  "chunks_next c max_length =
     (case ch_state c of
        ChReset code \<Rightarrow> Ok (c, Err (RReset code))
      | ChFinished \<Rightarrow> Ok (c, Ok None)
      | ChReadable rs \<Rightarrow>
          bindO (asm_read (rcv_assembler rs) max_length (ch_ordered c)) (\<lambda>(a, res).
          let rs = rs\<lparr>rcv_assembler := a\<rparr> in
          case res of
            Some ch \<Rightarrow>
              Ok (c\<lparr>ch_state := ChReadable rs, ch_read := add64 (ch_read c) (length (chunk_bytes ch))\<rparr>, Ok (Some ch))
          | None \<Rightarrow>
              (case rcv_state rs of
                 ResetRecvd _ code \<Rightarrow> Ok (c\<lparr>ch_state := ChReset code\<rparr>, Err (RReset code))
               | Recv sz \<Rightarrow>
                   if sz = Some (rcv_end rs) \<and> asm_bytes_read (rcv_assembler rs) = rcv_end rs
                   then Ok (c\<lparr>ch_state := ChFinished\<rparr>, Ok None)
                   else Ok (c\<lparr>ch_state := ChReadable rs\<rparr>, Err RBlocked))))"

section \<open>The assembler holds part of the stream\<close>

abbreviation buf_stop :: "buffer \<Rightarrow> nat" where
  "buf_stop b \<equiv> buf_offset b + length (buf_bytes b)"

text \<open>Non-empty segments in order, without overlap, from \<open>lo\<close> on.\<close>

fun segs_from :: "nat \<Rightarrow> buffer list \<Rightarrow> bool" where
  "segs_from lo [] = True"
| "segs_from lo (b # bs) = (lo \<le> buf_offset b \<and> buf_bytes b \<noteq> [] \<and> segs_from (buf_stop b) bs)"

definition covered :: "buffer list \<Rightarrow> nat set" where
  "covered bs = (\<Union>b\<in>set bs. {buf_offset b..<buf_stop b})"

definition holds :: "(nat \<Rightarrow> u8) \<Rightarrow> buffer \<Rightarrow> bool" where
  "holds f b \<longleftrightarrow> buf_bytes b = map f [buf_offset b..<buf_stop b] \<and> buf_stop b < 2 ^ 62"

abbreviation total_len :: "buffer list \<Rightarrow> nat" where
  "total_len bs \<equiv> sum_list (map (\<lambda>b. length (buf_bytes b)) bs)"

definition asm_inv :: "assembler \<Rightarrow> (nat \<Rightarrow> u8) \<Rightarrow> bool" where
  "asm_inv a f \<longleftrightarrow> segs_from (asm_bytes_read a) (asm_data a) \<and> (\<forall>b\<in>set (asm_data a). holds f b) \<and>
     buffered a = total_len (asm_data a) \<and> asm_bytes_read a < 2 ^ 62"

lemma asm_inv_default: "asm_inv assembler_default f"
  by (simp add: asm_inv_def assembler_default_def)

lemma covered_simps [simp]:
  "covered [] = {}" "covered (b # bs) = {buf_offset b..<buf_stop b} \<union> covered bs"
  "covered (xs @ ys) = covered xs \<union> covered ys"
  by (auto simp: covered_def)

lemma segs_from_mono: "segs_from lo bs \<Longrightarrow> lo' \<le> lo \<Longrightarrow> segs_from lo' bs"
  by (cases bs) auto

lemma segs_from_append:
  "segs_from lo (xs @ ys) \<longleftrightarrow> segs_from lo xs \<and> segs_from (if xs = [] then lo else buf_stop (last xs)) ys"
  by (induction lo xs rule: segs_from.induct) auto

lemma segs_from_ge: "segs_from lo bs \<Longrightarrow> b \<in> set bs \<Longrightarrow> lo \<le> buf_offset b"
  by (induction lo bs rule: segs_from.induct) fastforce+

lemma total_len_bound:
  assumes "segs_from lo bs" "\<forall>b\<in>set bs. buf_stop b \<le> m" "lo \<le> m"
  shows "lo + total_len bs \<le> m"
  using assms
proof (induction lo bs rule: segs_from.induct)
  case (2 lo b bs)
  then have "buf_stop b + total_len bs \<le> m" by simp
  then show ?case using 2(2) by simp
qed simp

lemma buf_end_eq: "holds f b \<Longrightarrow> buf_end b = buf_stop b"
  by (simp add: holds_def buf_end_def add64_small)

lemma asm_absorb_spec:
  assumes "segs_from offset R" "\<forall>b\<in>set R. holds f b" "offset \<le> new_end" "new_end < 2 ^ 62"
    "bfd = K + total_len R" "bfd < 2 ^ 64"
  shows "\<exists>R' m alc'. asm_absorb offset new_end (map f [offset..<new_end]) bfd alc R =
      (R', map f [offset..<m], K + total_len R', alc') \<and> offset \<le> m \<and> m \<le> new_end \<and> segs_from m R' \<and>
      set R' \<subseteq> set R \<and> covered R' \<union> {offset..<m} = covered R \<union> {offset..<new_end} \<and>
      total_len R' \<le> total_len R"
  using assms
proof (induction R arbitrary: bfd alc)
  case (Cons b R)
  have b: "offset \<le> buf_offset b" "segs_from offset R" "buf_end b = buf_stop b" "holds f b" "buf_stop b < 2 ^ 62"
    using Cons.prems(1,2) segs_from_mono [of "buf_stop b" R offset] buf_end_eq [of f b]
    by (auto simp: holds_def)
  consider "new_end \<le> buf_offset b" | "buf_offset b < new_end" "buf_stop b \<le> new_end"
    | "buf_offset b < new_end" "new_end < buf_stop b" by linarith
  then show ?case
  proof cases
    case 1
    then show ?thesis
      using Cons.prems by (rule_tac exI [of _ "b # R"], rule_tac exI [of _ new_end], rule_tac exI [of _ alc]) auto
  next
    case 2
    have "sub64 bfd (length (buf_bytes b)) = K + total_len R" using Cons.prems(5,6) by (simp add: sub64_small)
    then obtain R' m alc' where ih:
      "asm_absorb offset new_end (map f [offset..<new_end]) (sub64 bfd (length (buf_bytes b)))
         (sub64 alc (allocation_size b)) R = (R', map f [offset..<m], K + total_len R', alc')"
      "offset \<le> m" "m \<le> new_end" "segs_from m R'" "set R' \<subseteq> set R"
      "covered R' \<union> {offset..<m} = covered R \<union> {offset..<new_end}" "total_len R' \<le> total_len R"
      using Cons.IH [OF b(2) _ Cons.prems(3,4), of "sub64 bfd (length (buf_bytes b))" "sub64 alc (allocation_size b)"]
        Cons.prems by auto
    moreover have "covered (b # R) \<union> {offset..<new_end} = covered R \<union> {offset..<new_end}" using 2 b(1) by auto
    ultimately show ?thesis using 2 b(3) by (rule_tac exI [of _ R'], rule_tac exI [of _ m], rule_tac exI [of _ alc']) auto
  next
    case 3
    have sub: "sub64 (buf_offset b) offset = buf_offset b - offset" using b(1,5) by (simp add: sub64_small)
    have "take (buf_offset b - offset) (map f [offset..<new_end]) = map f [offset..<buf_offset b]"
      using 3 b(1) by (simp add: take_map)
    moreover have "covered (b # R) \<union> {offset..<buf_offset b} = covered (b # R) \<union> {offset..<new_end}"
      using 3 b(1) by auto
    ultimately show ?thesis
      using 3 b Cons.prems sub
      by (rule_tac exI [of _ "b # R"], rule_tac exI [of _ "buf_offset b"], rule_tac exI [of _ alc]) auto
  qed
qed (simp, blast)

text \<open>No buffered segment begins before \<open>offset\<close> and ends after it.\<close>

definition aligned :: "assembler \<Rightarrow> nat \<Rightarrow> bool" where
  "aligned a offset \<longleftrightarrow> (\<forall>b\<in>set (asm_data a). \<not> (buf_offset b < offset \<and> offset < buf_stop b))"

lemma aligned_bytes_read: "asm_inv a f \<Longrightarrow> aligned a (asm_bytes_read a)"
  using segs_from_ge by (fastforce simp: aligned_def asm_inv_def)

lemma segs_dropWhile:
  assumes "segs_from lo data" "\<forall>b\<in>set data. \<not> (buf_offset b < offset \<and> offset < buf_stop b)"
    "\<forall>b\<in>set data. buf_end b = buf_stop b"
  shows "segs_from offset (dropWhile (\<lambda>b. \<not> buf_end b > offset) data) \<and>
    segs_from lo (takeWhile (\<lambda>b. \<not> buf_end b > offset) data)"
  using assms
proof (induction lo data rule: segs_from.induct)
  case (2 lo b bs)
  show ?case
  proof (cases "buf_end b > offset")
    case True
    then have "offset \<le> buf_offset b" using 2(3,4) by auto
    then show ?thesis using True 2(2) by simp
  qed (use 2 in simp)
qed simp

lemma asm_place_spec:
  assumes "asm_inv a f" "aligned a offset" "asm_bytes_read a \<le> offset" "offset < new_end" "new_end < 2 ^ 62"
  shows "asm_inv (asm_place a offset (map f [offset..<new_end]) alloc) f \<and>
    covered (asm_data (asm_place a offset (map f [offset..<new_end]) alloc)) =
      covered (asm_data a) \<union> {offset..<new_end} \<and>
    asm_bytes_read (asm_place a offset (map f [offset..<new_end]) alloc) = asm_bytes_read a"
proof -
  define L where "L = takeWhile (\<lambda>b. \<not> buf_end b > offset) (asm_data a)"
  define R where "R = dropWhile (\<lambda>b. \<not> buf_end b > offset) (asm_data a)"
  have data: "asm_data a = L @ R" by (simp add: L_def R_def)
  have inv: "segs_from (asm_bytes_read a) (L @ R)" "\<forall>b\<in>set (L @ R). holds f b"
    "buffered a = total_len (L @ R)" "asm_bytes_read a < 2 ^ 62"
    using assms(1) unfolding asm_inv_def data by auto
  have segs: "segs_from offset R" "segs_from (asm_bytes_read a) L"
    using segs_dropWhile [of "asm_bytes_read a" "asm_data a" offset] inv assms(2) buf_end_eq
    unfolding data [symmetric] L_def R_def aligned_def by auto
  have L: "\<forall>b\<in>set L. buf_stop b \<le> offset"
    using inv(2) buf_end_eq unfolding L_def by (fastforce dest: set_takeWhileD)
  have no_trim: "\<not> (L \<noteq> [] \<and> buf_end (last L) > offset)"
    using L inv(2) buf_end_eq by (cases L rule: rev_cases) auto
  have bound: "total_len (L @ R) \<le> 2 ^ 62"
    using total_len_bound [OF inv(1), of "2 ^ 62"] inv(2,4) by (auto simp: holds_def less_imp_le)
  obtain R' m alc' where ab: "asm_absorb offset new_end (map f [offset..<new_end]) (buffered a) (allocated a) R =
      (R', map f [offset..<m], total_len L + total_len R', alc')"
    and m: "offset \<le> m" "m \<le> new_end" "segs_from m R'" "set R' \<subseteq> set R"
      "covered R' \<union> {offset..<m} = covered R \<union> {offset..<new_end}" "total_len R' \<le> total_len R"
    using asm_absorb_spec [OF segs(1) _ less_imp_le [OF assms(4)] assms(5), of f "buffered a" "total_len L" "allocated a"]
      inv(2,3) bound by auto
  have new_end: "add64 offset (length (map f [offset..<new_end])) = new_end"
    using assms(4,5) by (simp add: add64_small)
  define b where "b = buffer_new offset (map f [offset..<m]) alloc"
  have place: "asm_place a offset (map f [offset..<new_end]) alloc =
      (if m = offset then a\<lparr>asm_data := L @ R', buffered := total_len L + total_len R', allocated := alc'\<rparr>
       else a\<lparr>asm_data := L @ b # R', buffered := add64 (total_len L + total_len R') (m - offset),
              allocated := add64 alc' alloc\<rparr>)"
    unfolding asm_place_def L_def [symmetric] R_def [symmetric] Let_def if_not_P [OF no_trim]
    using m(1) by (simp add: new_end [simplified] ab b_def)
  have end_L: "segs_from (if L = [] then asm_bytes_read a else buf_stop (last L)) X" if "segs_from offset X" for X
    using that L assms(3) by (cases L rule: rev_cases) (auto intro: segs_from_mono)
  show ?thesis
  proof (cases "m = offset")
    case True
    then have "segs_from (asm_bytes_read a) (L @ R')" using segs(2) end_L m(3) by (simp add: segs_from_append)
    then show ?thesis
      using True m(4,5) inv unfolding place asm_inv_def data by auto
  next
    case False
    have b: "buf_offset b = offset" "buf_stop b = m" "holds f b" "buf_bytes b \<noteq> []" "length (buf_bytes b) = m - offset"
      using False m(1,2) assms(5) by (simp_all add: b_def buffer_new_def holds_def)
    have "segs_from offset (b # R')" using b m(3) by simp
    then have "segs_from (asm_bytes_read a) (L @ b # R')"
      using segs(2) end_L [of "b # R'"] unfolding segs_from_append by blast
    moreover have "add64 (total_len L + total_len R') (m - offset) = total_len (L @ b # R')"
      using bound m(2,6) assms(5) b(5) by (simp add: add64_small)
    ultimately show ?thesis
      using False m(4,5) inv b unfolding place asm_inv_def data by auto
  qed
qed

text \<open>Inserting a piece of the stream adds exactly its unread offsets.\<close>

lemma asm_insert_spec:
  assumes "asm_inv a f" "offset + length bs < 2 ^ 62" "bs = map f [offset..<offset + length bs]"
    "aligned a (max offset (asm_bytes_read a))"
  shows "asm_inv (asm_insert a offset bs alloc) f \<and>
    covered (asm_data (asm_insert a offset bs alloc)) =
      covered (asm_data a) \<union> {max offset (asm_bytes_read a)..<offset + length bs} \<and>
    asm_bytes_read (asm_insert a offset bs alloc) = asm_bytes_read a"
proof -
  define e r where "e = offset + length bs" and "r = asm_bytes_read a"
  define a' where "a' = a\<lparr>asm_end := max (asm_end a) e\<rparr>"
  have a': "asm_inv a' f" "asm_data a' = asm_data a" "asm_bytes_read a' = r" "aligned a' x = aligned a x" for x
    using assms(1) by (simp_all add: a'_def asm_inv_def r_def aligned_def)
  have fe: "add64 offset (length bs) = e" using assms(2) by (simp add: e_def add64_small)
  have bs: "bs = map f [offset..<e]" using assms(3) by (simp add: e_def)
  have unf: "asm_insert a offset bs alloc =
      (if bs = [] then a' else if e \<le> r then a'
       else if offset < r then
         if length bs \<le> sub64 r offset then a' else asm_place a' r (drop (sub64 r offset) bs) alloc
       else asm_place a' offset bs alloc)"
    unfolding asm_insert_def Let_def fe a'_def [symmetric] a'(3) by (rule refl)
  have ins: "asm_insert a offset bs alloc =
      (if e \<le> offset \<or> e \<le> r then a' else asm_place a' (max offset r) (map f [max offset r..<e]) alloc)"
  proof (cases "e \<le> offset \<or> e \<le> r")
    case True
    then show ?thesis unfolding unf by (auto simp: e_def)
  next
    case False
    then have ne: "bs \<noteq> []" by (auto simp: e_def)
    show ?thesis
    proof (cases "offset < r")
      case True
      have dup: "sub64 r offset = r - offset" using True assms(1) by (simp add: r_def asm_inv_def sub64_small)
      have "drop (r - offset) bs = map f [r..<e]" using True by (subst bs) (simp add: drop_map)
      moreover have "\<not> length bs \<le> r - offset" using False True by (auto simp: e_def)
      ultimately show ?thesis
        using True False ne unfolding unf dup by (simp add: max_def)
    next
      case False
      with \<open>\<not> (e \<le> offset \<or> e \<le> r)\<close> ne bs show ?thesis
        unfolding unf by (simp add: max_def)
    qed
  qed
  show ?thesis
  proof (cases "e \<le> offset \<or> e \<le> r")
    case True
    then show ?thesis using a' by (auto simp: ins r_def e_def)
  next
    case False
    then show ?thesis
      using asm_place_spec [OF a'(1), of "max offset r" e alloc] a' assms(2,4)
      by (auto simp: ins r_def e_def)
  qed
qed

text \<open>Reading returns the next bytes of the stream, and nothing only when they are not there.\<close>

lemma asm_read_spec:
  assumes "asm_inv a f"
  shows "\<exists>a' res. asm_read a n True = (Ok (a', res) :: (_, 'e) outcome) \<and> asm_inv a' f \<and>
    covered (asm_data a') = covered (asm_data a) - {..<asm_bytes_read a'} \<and>
    (case res of
       None \<Rightarrow> a' = a \<and> asm_bytes_read a \<notin> covered (asm_data a)
     | Some c \<Rightarrow> chunk_offset c = asm_bytes_read a \<and>
         chunk_bytes c = map f [asm_bytes_read a..<asm_bytes_read a'] \<and>
         asm_bytes_read a \<le> asm_bytes_read a' \<and> (0 < n \<longrightarrow> asm_bytes_read a < asm_bytes_read a'))"
proof (cases "asm_data a")
  case Nil
  then show ?thesis using assms by (simp add: asm_read_def)
next
  case (Cons b rest)
  define r where "r = asm_bytes_read a"
  have inv: "r \<le> buf_offset b" "buf_bytes b \<noteq> []" "segs_from (buf_stop b) rest" "holds f b"
    "\<forall>b\<in>set rest. holds f b" "buffered a = length (buf_bytes b) + total_len rest" "r < 2 ^ 62"
    using assms by (auto simp: asm_inv_def Cons r_def)
  have above: "x \<in> covered rest \<Longrightarrow> buf_stop b \<le> x" for x
    using segs_from_ge [OF inv(3)] by (force simp: covered_def)
  have sum: "buffered a \<le> 2 ^ 62"
    using total_len_bound [of r "asm_data a" "2 ^ 62"] assms inv(7)
    by (auto simp: asm_inv_def holds_def r_def less_imp_le)
  have stop: "buf_stop b < 2 ^ 62" "buf_bytes b = map f [buf_offset b..<buf_stop b]"
    using inv(4) by (simp_all add: holds_def)
  show ?thesis
  proof (cases "buf_offset b = r")
    case False
    then have "r \<notin> covered (asm_data a)" using inv(1,2) above by (fastforce simp: Cons)
    moreover have "covered (asm_data a) - {..<r} = covered (asm_data a)"
      using inv(1) above by (fastforce simp: Cons)
    ultimately show ?thesis using assms False by (simp add: asm_read_def Cons r_def)
  next
    case True
    show ?thesis
    proof (cases "n < length (buf_bytes b)")
      case less: True
      have ar: "add64 r n = r + n" "sub64 (buffered a) n = buffered a - n"
        using less stop(1) True sum inv(6) by (simp_all add: add64_small sub64_small)
      define b' where "b' = b\<lparr>buf_offset := r + n, buf_bytes := drop n (buf_bytes b)\<rparr>"
      define a' where "a' = a\<lparr>asm_bytes_read := r + n, buffered := buffered a - n, asm_data := b' # rest\<rparr>"
      have read: "asm_read a n True = (Ok (a', Some \<lparr>chunk_offset = r, chunk_bytes = take n (buf_bytes b)\<rparr>) :: (_, 'e) outcome)"
        using less True ar by (simp add: asm_read_def Cons r_def a'_def b'_def)
      have "drop n (buf_bytes b) = map f [r + n..<buf_stop b]"
        using True by (subst stop(2)) (simp add: drop_map)
      then have b': "buf_stop b' = buf_stop b" "buf_offset b' = r + n" "buf_bytes b' \<noteq> []" "holds f b'"
        using less True stop(1) inv(2) by (simp_all add: b'_def holds_def)
      have "take n (buf_bytes b) = map f [r..<r + n]" using less True by (subst stop(2)) (simp add: take_map)
      moreover have "asm_inv a' f"
        using inv b' less stop(1) True by (simp add: asm_inv_def a'_def b'_def)
      moreover have "covered (asm_data a') = covered (asm_data a) - {..<r + n}"
        using b'(1,2) True less by (auto simp: a'_def Cons dest: above)
      ultimately show ?thesis using read by (simp add: a'_def r_def)
    next
      case more: False
      let ?l = "length (buf_bytes b)"
      have ar: "add64 r ?l = r + ?l" "sub64 (buffered a) ?l = total_len rest"
        using stop(1) True sum inv(6) by (simp_all add: add64_small sub64_small)
      define a' where "a' = a\<lparr>asm_bytes_read := r + ?l, buffered := total_len rest,
        allocated := sub64 (allocated a) (allocation_size b), asm_data := rest\<rparr>"
      have read: "asm_read a n True = (Ok (a', Some \<lparr>chunk_offset = r, chunk_bytes = buf_bytes b\<rparr>) :: (_, 'e) outcome)"
        using more True ar by (simp add: asm_read_def Cons r_def a'_def)
      have "asm_inv a' f" using inv True stop(1) by (simp add: asm_inv_def a'_def)
      moreover have "covered (asm_data a') = covered (asm_data a) - {..<r + ?l}"
        using True by (auto simp: a'_def Cons dest: above)
      ultimately show ?thesis using read stop(2) True inv(2) by (simp add: a'_def r_def)
    qed
  qed
qed

section \<open>Runs of the assembler\<close>

text \<open>
  \<open>asm_reach f a out\<close>: \<open>a\<close> is reached by inserting pieces of the stream \<open>f\<close>, in any order
  and with repetitions, and reading; \<open>out\<close> is everything that was read, in the order of reading.
\<close>

inductive asm_reach :: "(nat \<Rightarrow> u8) \<Rightarrow> assembler \<Rightarrow> bytes \<Rightarrow> bool" for f where
  init: "asm_reach f assembler_default []"
| insert: "asm_reach f a out \<Longrightarrow> offset + length bs < 2 ^ 62 \<Longrightarrow>
    bs = map f [offset..<offset + length bs] \<Longrightarrow> aligned a (max offset (asm_bytes_read a)) \<Longrightarrow>
    asm_reach f (asm_insert a offset bs alloc) out"
| read: "asm_reach f a out \<Longrightarrow> asm_read a n True = (Ok (a', Some c) :: (_, unit) outcome) \<Longrightarrow>
    asm_reach f a' (out @ chunk_bytes c)"

lemma asm_reach_in_order: "asm_reach f a out \<Longrightarrow> asm_inv a f \<and> out = map f [0..<asm_bytes_read a]"
proof (induction rule: asm_reach.induct)
  case init
  then show ?case by (simp add: asm_inv_default) (simp add: assembler_default_def)
next
  case (insert a out offset bs alloc)
  then show ?case using asm_insert_spec [of a f offset bs alloc] by simp
next
  case (read a out n a' c)
  obtain a'' res where "asm_read a n True = (Ok (a'', res) :: (_, unit) outcome)" "asm_inv a'' f"
    "case res of None \<Rightarrow> True | Some c \<Rightarrow> chunk_bytes c = map f [asm_bytes_read a..<asm_bytes_read a''] \<and>
       asm_bytes_read a \<le> asm_bytes_read a''"
    using asm_read_spec [of a f n, where 'e = unit] read.IH by (fastforce split: option.splits)
  then have "asm_inv a' f" "chunk_bytes c = map f [asm_bytes_read a..<asm_bytes_read a']"
    "asm_bytes_read a \<le> asm_bytes_read a'"
    using read.hyps(2) by auto
  moreover from this have "[0..<asm_bytes_read a'] = [0..<asm_bytes_read a] @ [asm_bytes_read a..<asm_bytes_read a']"
    by (metis le_add_diff_inverse upt_add_eq_append zero_le)
  ultimately show ?case using read.IH by simp
qed

section \<open>The state machine keeps the final size\<close>

text \<open>The largest offset seen is within the final size once that is known.\<close>

definition recv_inv :: "recv \<Rightarrow> bool" where
  "recv_inv r \<longleftrightarrow> rcv_end r < 2 ^ 62 \<and> (case final_offset r of None \<Rightarrow> True | Some n \<Rightarrow> rcv_end r \<le> n)"

lemma recv_default_inv: "recv_inv recv_default"
  by (simp add: recv_inv_def recv_default_def final_offset_def)

lemma ingest_inv:
  assumes "recv_inv r" "ingest r frame n = Ok (r', new, closed)"
    "sf_fin frame \<Longrightarrow> final_offset r = None \<Longrightarrow>
       rcv_end r \<le> add64 (sf_offset frame) (length (sf_data frame))"
  shows "recv_inv r' \<and> rcv_end r' = max (rcv_end r) (add64 (sf_offset frame) (length (sf_data frame))) \<and>
    new = rcv_end r' - rcv_end r \<and> (final_offset r \<noteq> None \<longrightarrow> final_offset r' = final_offset r) \<and>
    stopped r' = stopped r"
proof -
  define e where "e = add64 (sf_offset frame) (length (sf_data frame))"
  show ?thesis
    using assms unfolding ingest_def Let_def e_def [symmetric]
    by (auto simp: recv_inv_def final_offset_def is_receiving_def saturating_sub_def max_def
        split: if_splits option.splits recv_state.splits)
qed

lemma recv_reset_inv:
  assumes "recv_inv r" "recv_reset r code final = Ok (r', fresh)"
  shows "recv_inv r' \<and> final_offset r' = Some final \<and> \<not> is_receiving r' \<and> rcv_end r' = rcv_end r"
  using assms
  by (auto simp: recv_reset_def recv_inv_def final_offset_def is_receiving_def
      split: if_splits option.splits recv_state.splits)

section \<open>Properties\<close>

text \<open>
  C1. Data is delivered in order, once and unchanged: with frames of one stream \<open>f\<close>, none of which
  begins inside a buffered segment, the chunks the application reads are, one after the other,
  exactly the stream from its start.
\<close>

theorem stream_delivered_in_order:
  assumes "asm_reach f a out"
  shows "out = map f [0..<asm_bytes_read a]"
  using asm_reach_in_order [OF assms] by blast

theorem stream_delivered_in_order_witness:
  "[0, 0, 0] = map (\<lambda>_. 0 :: u8) [0..<asm_bytes_read
    \<lparr>asm_state = Ordered, asm_data = [], buffered = 0, allocated = 0, asm_bytes_read = 3, asm_end = 3\<rparr>]"
proof -
  let ?a = "asm_insert assembler_default 0 [0, 0, 0] 3"
  have "asm_reach (\<lambda>_. 0) ?a []"
    by (rule asm_reach.insert [OF asm_reach.init]) (simp_all add: aligned_def assembler_default_def)
  moreover have "asm_read ?a 10 True = (Ok (\<lparr>asm_state = Ordered, asm_data = [], buffered = 0, allocated = 0,
      asm_bytes_read = 3, asm_end = 3\<rparr>, Some \<lparr>chunk_offset = 0, chunk_bytes = [0, 0, 0]\<rparr>) :: (_, unit) outcome)"
    by (simp add: asm_insert_def asm_place_def assembler_default_def asm_read_def buffer_new_def add64_def sub64_def)
  ultimately have "asm_reach (\<lambda>_. 0) \<lparr>asm_state = Ordered, asm_data = [], buffered = 0, allocated = 0, asm_bytes_read = 3,
      asm_end = 3\<rparr> ([] @ [0, 0, 0])"
    using asm_reach.read by fastforce
  then show ?thesis using stream_delivered_in_order by fastforce
qed



text \<open>
  A frame that begins inside a buffered segment hides data: with the first ten bytes of a
  stream buffered, a retransmission of bytes 2 to 4 is put in front of them and the stream can no
  longer be read.
\<close>

lemma overlapping_frame_stalls:
  "\<exists>a. asm_reach (\<lambda>_. 0) a [] \<and> {0..<10} \<subseteq> covered (asm_data a) \<and> asm_bytes_read a = 0 \<and>
    asm_read (asm_insert a 2 [0, 0, 0] 3) 100 True = (Ok (asm_insert a 2 [0, 0, 0] 3, None) :: (_, unit) outcome)"
proof -
  let ?a = "asm_insert assembler_default 0 (replicate 10 0) 10"
  have "asm_reach (\<lambda>_. 0) ?a []"
    by (rule asm_reach.insert [OF asm_reach.init]) (simp_all add: aligned_def assembler_default_def map_replicate_const)
  moreover have "{0..<10} \<subseteq> covered (asm_data ?a)" "asm_bytes_read ?a = 0"
    by (simp_all add: asm_insert_def asm_place_def assembler_default_def buffer_new_def add64_def covered_def)
  moreover have "asm_read (asm_insert ?a 2 [0, 0, 0] 3) 100 True = (Ok (asm_insert ?a 2 [0, 0, 0] 3, None) :: (_, unit) outcome)"
    by (simp add: asm_insert_def asm_place_def assembler_default_def buffer_new_def add64_def sub64_def asm_read_def buf_end_def)
  ultimately show ?thesis by blast
qed


text \<open>
  A FIN below the highest byte received is accepted, unlike a RESET_STREAM with such a final
  size: the recorded size is then smaller than the data received.
\<close>

lemma fin_below_received_accepted:
  "\<exists>r r'. recv_inv r \<and> ingest r \<lparr>sf_id = 0, sf_offset = 2, sf_fin = True, sf_data = []\<rparr> 0 = Ok (r', 0, False) \<and>
    final_offset r' = Some 2 \<and> rcv_end r' = 5 \<and> recv_reset r 0 2 = Err (transport_error_new FINAL_SIZE_ERROR ''lower than high water mark'')"
proof -
  let ?r = "recv_default\<lparr>rcv_end := 5\<rparr>"
  have "recv_inv ?r" by (simp add: recv_inv_def recv_default_def final_offset_def)
  moreover have "\<exists>r'. ingest ?r \<lparr>sf_id = 0, sf_offset = 2, sf_fin = True, sf_data = []\<rparr> 0 = Ok (r', 0, False) \<and>
      final_offset r' = Some 2 \<and> rcv_end r' = 5"
    by (simp add: ingest_def recv_default_def final_offset_def is_receiving_def add64_def saturating_sub_def)
  moreover have "recv_reset ?r 0 2 = Err (transport_error_new FINAL_SIZE_ERROR ''lower than high water mark'')"
    by (simp add: recv_reset_def recv_default_def final_offset_def)
  ultimately show ?thesis by blast
qed

end
