(* ===== verification/Stream_State.thy ===== *)
theory Stream_State
  imports Space Send_Stream Recv_Stream
begin

text \<open>
  The streams of a connection (\<open>core/src/connection/stream/state.rs\<close> and the handles of
  \<open>send.rs\<close> and \<open>recv.rs\<close>): the tables of sending and receiving halves, the queue of streams
  with data to send, and the handlers for STREAM, RESET_STREAM and STOP_SENDING frames and for
  acknowledged and lost STREAM frames.  A \<open>HashMap\<close> is a map; the event channel is the list of
  events sent so far.  An operation that may fail after it changed the tables returns them
  together with its result.
\<close>

section \<open>Events\<close>

datatype stream_event = Readable stream_id | StFinished stream_id | StStopped stream_id nat

datatype connection_error =
    VersionMismatch
  | TransportErr transport_error
  | TransportClosed transport_close
  | ApplicationClosed application_close
  | ConnReset

fun connection_error_from :: "connection_close \<Rightarrow> connection_error" where
  "connection_error_from (Transport reason) = TransportClosed reason"
| "connection_error_from (Application reason) = ApplicationClosed reason"

datatype event = Connected | ConnectionLost connection_error | StreamEv stream_event

section \<open>The queue of pending streams\<close>

text \<open>Ordered by priority, then recency, then identifier, as the derived \<open>Ord\<close>.\<close>

datatype pending_stream = PendingStream (ps_priority: int) (ps_recency: nat) (ps_id: stream_id)

definition pending_le :: "pending_stream \<Rightarrow> pending_stream \<Rightarrow> bool" where
  "pending_le a b \<longleftrightarrow>
     ps_priority a < ps_priority b \<or> ps_priority a = ps_priority b \<and>
     (ps_recency a < ps_recency b \<or> ps_recency a = ps_recency b \<and> ps_id a \<le> ps_id b)"

instantiation pending_stream :: linorder
begin

definition less_eq_pending_stream :: "pending_stream \<Rightarrow> pending_stream \<Rightarrow> bool" where
  "less_eq_pending_stream = pending_le"

definition less_pending_stream :: "pending_stream \<Rightarrow> pending_stream \<Rightarrow> bool" where
  "less_pending_stream a b \<longleftrightarrow> pending_le a b \<and> \<not> pending_le b a"

instance
  by standard
    (auto simp: less_eq_pending_stream_def less_pending_stream_def pending_le_def pending_stream.expand)

end

record pending_queue =
  pq_streams :: "pending_stream list"
  pq_next :: "pending_stream option"
  pq_recency :: nat

definition pending_queue_new :: pending_queue where
  "pending_queue_new = \<lparr>pq_streams = [], pq_next = None, pq_recency = u64_max\<rparr>"

text \<open>\<open>BinaryHeap::pop\<close>: the greatest element.\<close>

fun list_max :: "'a::linorder list \<Rightarrow> 'a option" where
  "list_max [] = None"
| "list_max (x # xs) = (case list_max xs of None \<Rightarrow> Some x | Some y \<Rightarrow> Some (max x y))"

definition heap_pop :: "'a::linorder list \<Rightarrow> 'a list \<times> 'a option" where
  "heap_pop xs = (case list_max xs of None \<Rightarrow> (xs, None) | Some m \<Rightarrow> (remove1 m xs, Some m))"

definition reinsert_pending :: "pending_queue \<Rightarrow> stream_id \<Rightarrow> int \<Rightarrow> (pending_queue, 'e) outcome" where
  "reinsert_pending q sid priority =
     (if pq_next q \<noteq> None then Panic
      else Ok (q\<lparr>pq_next := Some (PendingStream priority (pq_recency q) sid)\<rparr>))"

definition push_pending :: "pending_queue \<Rightarrow> stream_id \<Rightarrow> int \<Rightarrow> pending_queue" where
  "push_pending q sid priority =
     (let r = sub64 (pq_recency q) 1 in
      q\<lparr>pq_recency := r, pq_streams := PendingStream priority r sid # pq_streams q\<rparr>)"

definition pq_pop :: "pending_queue \<Rightarrow> pending_queue \<times> pending_stream option" where
  "pq_pop q =
     (case pq_next q of
        Some p \<Rightarrow> (q\<lparr>pq_next := None\<rparr>, Some p)
      | None \<Rightarrow> (let (xs, p) = heap_pop (pq_streams q) in (q\<lparr>pq_streams := xs\<rparr>, p)))"

definition pq_iter :: "pending_queue \<Rightarrow> pending_stream list" where
  "pq_iter q = (case pq_next q of Some p \<Rightarrow> [p] | None \<Rightarrow> []) @ pq_streams q"

section \<open>The tables\<close>

record streams_state =
  st_side :: side
  st_send :: "stream_id \<rightharpoonup> send"
  st_recv :: "stream_id \<rightharpoonup> recv"
  st_next :: "dir \<Rightarrow> nat"
  st_pending :: pending_queue
  st_events :: "event list"

definition streams_new :: "side \<Rightarrow> streams_state" where
  "streams_new s = \<lparr>st_side = s, st_send = Map.empty, st_recv = Map.empty, st_next = (\<lambda>_. 0),
     st_pending = pending_queue_new, st_events = []\<rparr>"

definition send_event :: "streams_state \<Rightarrow> stream_event \<Rightarrow> streams_state" where
  "send_event st ev = st\<lparr>st_events := st_events st @ [StreamEv ev]\<rparr>"

definition open_stream :: "streams_state \<Rightarrow> dir \<Rightarrow> streams_state \<times> stream_id" where
  "open_stream st d =
     (let index = st_next st d;
          sid = stream_id_new (st_side st) d index;
          st = st\<lparr>st_next := (st_next st)(d := add64 index 1), st_send := (st_send st)(sid \<mapsto> send_default)\<rparr>;
          st = (if d = Bi then st\<lparr>st_recv := (st_recv st)(sid \<mapsto> recv_default)\<rparr> else st) in
      (st, sid))"

definition validate_receive_id :: "streams_state \<Rightarrow> stream_id \<Rightarrow> (unit, transport_error) outcome" where
  "validate_receive_id st sid =
     (if st_side st = initiator sid then
        case stream_dir sid of
          Uni \<Rightarrow> Err (transport_error_new STREAM_STATE_ERROR ''illegal operation on send-only stream'')
        | Bi \<Rightarrow>
            if stream_index sid \<ge> st_next st Bi
            then Err (transport_error_new STREAM_STATE_ERROR ''operation on unopened stream'')
            else Ok ()
      else Ok ())"

text \<open>The part of \<open>received\<close> after the receiving half was found or created.\<close>

definition received_on :: "streams_state \<Rightarrow> recv \<Rightarrow> stream_frame \<Rightarrow> nat \<Rightarrow> streams_state \<times> (unit, transport_error) outcome" where
  "received_on st rs frame payload_len =
     (let sid = sf_id frame in
      if \<not> is_receiving rs then (st, Ok ())
      else
        let was_fin_unknown = final_offset_unknown rs in
        case ingest rs frame payload_len of
          Err e \<Rightarrow> (st, Err e)
        | Panic \<Rightarrow> (st, Panic)
        | Ok (rs, new_bytes, closed) \<Rightarrow>
            let st = st\<lparr>st_recv := (st_recv st)(sid \<mapsto> rs)\<rparr> in
            if \<not> stopped rs then
              (if new_bytes > 0 \<or> sf_fin frame \<and> was_fin_unknown then send_event st (Readable sid) else st, Ok ())
            else if closed then (st\<lparr>st_recv := (st_recv st)(sid := None)\<rparr>, Ok ())
            else (st, Ok ()))"

definition received :: "streams_state \<Rightarrow> stream_frame \<Rightarrow> nat \<Rightarrow> streams_state \<times> (unit, transport_error) outcome" where
  "received st frame payload_len =
     (let sid = sf_id frame in
      case validate_receive_id st sid of
        Err e \<Rightarrow> (st, Err e)
      | Panic \<Rightarrow> (st, Panic)
      | Ok _ \<Rightarrow>
          (case st_recv st sid of
             Some rs \<Rightarrow> received_on st rs frame payload_len
           | None \<Rightarrow>
               if initiator sid = st_side st then (st, Ok ())
               else if sf_offset frame > 0 \<or> sf_fin frame then (st, Ok ())
               else received_on (st\<lparr>st_recv := (st_recv st)(sid \<mapsto> recv_default)\<rparr>) recv_default frame payload_len))"

definition received_reset :: "streams_state \<Rightarrow> reset_stream \<Rightarrow> streams_state \<times> (unit, transport_error) outcome" where
  "received_reset st frame =
     (let sid = rst_id frame in
      case validate_receive_id st sid of
        Err e \<Rightarrow> (st, Err e)
      | Panic \<Rightarrow> (st, Panic)
      | Ok _ \<Rightarrow>
          let rs = (case st_recv st sid of Some rs \<Rightarrow> rs | None \<Rightarrow> recv_default);
              st = st\<lparr>st_recv := (st_recv st)(sid \<mapsto> rs)\<rparr> in
          (case recv_reset rs (rst_error_code frame) (rst_final_offset frame) of
             Err e \<Rightarrow> (st, Err e)
           | Panic \<Rightarrow> (st, Panic)
           | Ok (rs, fresh) \<Rightarrow>
               if \<not> fresh then (st, Ok ())
               else
                 let st = st\<lparr>st_recv := (st_recv st)(sid \<mapsto> rs)\<rparr> in
                 if stopped rs then (st\<lparr>st_recv := (st_recv st)(sid := None)\<rparr>, Ok ())
                 else (send_event st (Readable sid), Ok ())))"

definition received_stop_sending :: "streams_state \<Rightarrow> stop_sending \<Rightarrow> streams_state \<times> (unit, transport_error) outcome" where
  "received_stop_sending st frame =
     (let sid = stop_id frame; code = stop_error_code frame in
      if initiator sid \<noteq> st_side st \<and> stream_dir sid = Uni
      then (st, Err (transport_error_new STREAM_STATE_ERROR ''STOP_SENDING on recv-only stream''))
      else if initiator sid = st_side st \<and> stream_index sid \<ge> st_next st (stream_dir sid)
      then (st, Err (transport_error_new STREAM_STATE_ERROR ''STOP_SENDING on unopened stream''))
      else case st_send st sid of
        None \<Rightarrow> (send_event st (StStopped sid code), Ok ())
      | Some ss \<Rightarrow>
          let (ss, fresh) = try_stop ss code; st = st\<lparr>st_send := (st_send st)(sid \<mapsto> ss)\<rparr> in
          (if fresh then send_event st (StStopped sid code) else st, Ok ()))"

definition reset_acked :: "streams_state \<Rightarrow> stream_id \<Rightarrow> streams_state" where
  "reset_acked st sid =
     (case st_send st sid of
        None \<Rightarrow> st
      | Some s \<Rightarrow> if snd_state s = ResetSent then st\<lparr>st_send := (st_send st)(sid := None)\<rparr> else st)"

definition can_send_stream_data :: "streams_state \<Rightarrow> bool" where
  "can_send_stream_data st \<longleftrightarrow>
     list_ex (\<lambda>p. case st_send st (ps_id p) of None \<Rightarrow> False | Some s \<Rightarrow> \<not> send_is_reset s) (pq_iter (st_pending st))"

section \<open>Writing frames\<close>

text \<open>
  The two loops of \<open>write_control_frames\<close>.  \<open>Vec::pop\<close> takes the last element, so the loops
  work on the reversed lists; what is left is reversed back.
\<close>

fun write_resets :: "bytes_api \<Rightarrow> (stream_id \<rightharpoonup> send) \<Rightarrow> writer \<Rightarrow> (stream_id \<times> nat) list \<Rightarrow> thin_retransmits \<Rightarrow>
    (writer \<times> (stream_id \<times> nat) list \<times> thin_retransmits, 'e) outcome" where
  "write_resets B m w [] t = Ok (w, [], t)"
| "write_resets B m w ((sid, code) # rest) t =
     (if \<not> RESET_STREAM_SIZE_BOUND < w_left w then Ok (w, (sid, code) # rest, t)
      else case m sid of
        None \<Rightarrow> write_resets B m w rest t
      | Some s \<Rightarrow>
          bindO (reset_stream_encode B \<lparr>rst_id = sid, rst_error_code = code,
              rst_final_offset = sb_offset (snd_pending s)\<rparr> w) (\<lambda>w.
          write_resets B m w rest (thin_update (\<lambda>r. r\<lparr>rt_reset_stream := rt_reset_stream r @ [(sid, code)]\<rparr>) t)))"

fun write_stops :: "bytes_api \<Rightarrow> writer \<Rightarrow> stop_sending list \<Rightarrow> thin_retransmits \<Rightarrow>
    (writer \<times> stop_sending list \<times> thin_retransmits, 'e) outcome" where
  "write_stops B w [] t = Ok (w, [], t)"
| "write_stops B w (f # rest) t =
     (if \<not> STOP_SENDING_SIZE_BOUND < w_left w then Ok (w, f # rest, t)
      else bindO (stop_sending_encode B f w) (\<lambda>w.
        write_stops B w rest (thin_update (\<lambda>r. r\<lparr>rt_stop_sending := rt_stop_sending r @ [f]\<rparr>) t)))"

definition write_control_frames :: "bytes_api \<Rightarrow> streams_state \<Rightarrow> writer \<Rightarrow> retransmits \<Rightarrow> thin_retransmits \<Rightarrow>
    (writer \<times> retransmits \<times> thin_retransmits, 'e) outcome" where
  "write_control_frames B st w pending t =
     bindO (write_resets B (st_send st) w (rev (rt_reset_stream pending)) t) (\<lambda>(w, resets, t).
     bindO (write_stops B w (rev (rt_stop_sending pending)) t) (\<lambda>(w, stops, t).
     Ok (w, pending\<lparr>rt_reset_stream := rev resets, rt_stop_sending := rev stops\<rparr>, t)))"

text \<open>The end of a turn of \<open>write_stream_frames\<close>: header, data, and back into the queue.\<close>

definition wsf_emit :: "bytes_api \<Rightarrow> bool \<Rightarrow> streams_state \<Rightarrow> writer \<Rightarrow> send \<Rightarrow> stream_meta \<Rightarrow> bool \<Rightarrow>
    (streams_state \<times> writer \<times> stream_meta option \<times> bool, 'e) outcome" where
  "wsf_emit B fair st w s meta encode_length =
     bindO (stream_meta_encode B meta encode_length w) (\<lambda>w.
     bindO (if \<not> range_is_empty (sm_offsets meta)
            then put_slice (sb_get (snd_pending s) (sm_offsets meta)) w else Ok w) (\<lambda>w.
     if send_is_pending s then
       if fair
       then Ok (st\<lparr>st_pending := push_pending (st_pending st) (sm_id meta) (snd_priority s)\<rparr>, w, Some meta, True)
       else bindO (reinsert_pending (st_pending st) (sm_id meta) (snd_priority s)) (\<lambda>q.
         Ok (st\<lparr>st_pending := q\<rparr>, w, Some meta, True))
     else Ok (st, w, Some meta, True)))"

text \<open>
  One turn of the loop of \<open>write_stream_frames\<close>: the tables, the buffer, the frame written if
  any, and whether the loop goes on.
\<close>

definition wsf_step :: "bytes_api \<Rightarrow> bool \<Rightarrow> streams_state \<Rightarrow> writer \<Rightarrow>
    (streams_state \<times> writer \<times> stream_meta option \<times> bool, 'e) outcome" where
  "wsf_step B fair st w =
     (if w_left w < STREAM_SIZE_BOUND then Ok (st, w, None, False)
      else case pq_pop (st_pending st) of
        (q, None) \<Rightarrow> Ok (st\<lparr>st_pending := q\<rparr>, w, None, False)
      | (q, Some p) \<Rightarrow>
          let sid = ps_id p; st = st\<lparr>st_pending := q\<rparr> in
          (case st_send st sid of
             None \<Rightarrow> Ok (st, w, None, True)
           | Some s \<Rightarrow>
               if send_is_reset s then Ok (st, w, None, True)
               else if \<not> send_is_pending s then Ok (st, w, None, True)
               else
                 bindO (sb_poll_transmit (snd_pending s) (w_left w)) (\<lambda>(sb, r, encode_length).
                 let s = s\<lparr>snd_pending := sb\<rparr>;
                     fin = (fin_pending s \<and> snd r = sb_offset sb);
                     s = (if fin then s\<lparr>fin_pending := False\<rparr> else s);
                     st = st\<lparr>st_send := (st_send st)(sid \<mapsto> s)\<rparr> in
                 if range_is_empty r \<and> \<not> fin
                 then Ok (st\<lparr>st_pending := push_pending (st_pending st) sid (snd_priority s)\<rparr>, w, None, False)
                 else
                   wsf_emit B fair st w s \<lparr>sm_id = sid, sm_offsets = r, sm_fin = fin\<rparr> encode_length)))"

text \<open>
  The loop, with fuel: every turn takes a stream off the queue or writes at least one byte, so
  the capacity of the buffer plus the length of the queue bound the number of turns.
\<close>

fun wsf_loop :: "bytes_api \<Rightarrow> bool \<Rightarrow> nat \<Rightarrow> streams_state \<Rightarrow> writer \<Rightarrow>
    (streams_state \<times> writer \<times> stream_meta list, 'e) outcome option" where
  "wsf_loop B fair 0 st w = None"
| "wsf_loop B fair (Suc fuel) st w =
     (case wsf_step B fair st w of
        Err e \<Rightarrow> Some (Err e)
      | Panic \<Rightarrow> Some Panic
      | Ok (st, w, meta, again) \<Rightarrow>
          if \<not> again then Some (Ok (st, w, case meta of None \<Rightarrow> [] | Some m \<Rightarrow> [m]))
          else map_option (\<lambda>r. bindO r (\<lambda>(st, w, metas). Ok (st, w, case meta of None \<Rightarrow> metas | Some m \<Rightarrow> m # metas)))
            (wsf_loop B fair fuel st w))"

definition wsf_fuel :: "streams_state \<Rightarrow> writer \<Rightarrow> nat" where
  "wsf_fuel st w = Suc (w_left w + length (pq_iter (st_pending st)))"

definition write_stream_frames :: "bytes_api \<Rightarrow> streams_state \<Rightarrow> writer \<Rightarrow> bool \<Rightarrow>
    (streams_state \<times> writer \<times> stream_meta list, 'e) outcome" where
  "write_stream_frames B st w fair =
     (case wsf_loop B fair (wsf_fuel st w) st w of Some r \<Rightarrow> r | None \<Rightarrow> Panic)"

section \<open>Acknowledged and lost frames\<close>

definition received_ack_of :: "streams_state \<Rightarrow> stream_meta \<Rightarrow> streams_state" where
  "received_ack_of st frame =
     (case st_send st (sm_id frame) of
        None \<Rightarrow> st
      | Some s \<Rightarrow>
          if send_is_reset s then st
          else
            let (s, complete) = send_ack s frame in
            if \<not> complete then st\<lparr>st_send := (st_send st)(sm_id frame \<mapsto> s)\<rparr>
            else send_event (st\<lparr>st_send := (st_send st)(sm_id frame := None)\<rparr>) (StFinished (sm_id frame)))"

definition st_retransmit :: "streams_state \<Rightarrow> stream_meta \<Rightarrow> streams_state" where
  "st_retransmit st frame =
     (case st_send st (sm_id frame) of
        None \<Rightarrow> st
      | Some s \<Rightarrow>
          if send_is_reset s then st
          else
            let was_pending = send_is_pending s;
                s = s\<lparr>snd_pending := sb_retransmit (snd_pending s) (sm_offsets frame)\<rparr>;
                st = st\<lparr>st_send := (st_send st)(sm_id frame \<mapsto> s)\<rparr> in
            if \<not> was_pending
            then st\<lparr>st_pending := push_pending (st_pending st) (sm_id frame) (snd_priority s)\<rparr>
            else st)"

section \<open>The application's handles\<close>

text \<open>\<open>SendStream\<close>; \<open>closed\<close> is \<open>conn_state.is_closed()\<close>.\<close>

definition sstream_write :: "bool \<Rightarrow> streams_state \<Rightarrow> stream_id \<Rightarrow> bytes \<Rightarrow> streams_state \<times> (unit, write_error) outcome" where
  "sstream_write closed st sid data =
     (if closed then (st, Err WBlocked)
      else
        let s = (case st_send st sid of Some s \<Rightarrow> s | None \<Rightarrow> send_default);
            st = st\<lparr>st_send := (st_send st)(sid \<mapsto> s)\<rparr>;
            was_pending = send_is_pending s in
        case send_write s data of
          Err e \<Rightarrow> (st, Err e)
        | Panic \<Rightarrow> (st, Panic)
        | Ok s \<Rightarrow>
            let st = st\<lparr>st_send := (st_send st)(sid \<mapsto> s)\<rparr> in
            (if \<not> was_pending then st\<lparr>st_pending := push_pending (st_pending st) sid (snd_priority s)\<rparr> else st, Ok ()))"

definition sstream_stopped :: "streams_state \<Rightarrow> stream_id \<Rightarrow> (nat option, closed_stream) outcome" where
  "sstream_stopped st sid = (case st_send st sid of Some s \<Rightarrow> Ok (stop_reason s) | None \<Rightarrow> Err ClosedStream)"

definition sstream_finish :: "streams_state \<Rightarrow> stream_id \<Rightarrow> (streams_state, finish_error) outcome" where
  "sstream_finish st sid =
     (case st_send st sid of
        None \<Rightarrow> Err FClosedStream
      | Some s \<Rightarrow>
          let was_pending = send_is_pending s in
          bindO (send_finish s) (\<lambda>s.
          let st = st\<lparr>st_send := (st_send st)(sid \<mapsto> s)\<rparr> in
          Ok (if \<not> was_pending then st\<lparr>st_pending := push_pending (st_pending st) sid (snd_priority s)\<rparr> else st)))"

definition sstream_reset :: "streams_state \<Rightarrow> retransmits \<Rightarrow> stream_id \<Rightarrow> nat \<Rightarrow> (streams_state \<times> retransmits, closed_stream) outcome" where
  "sstream_reset st pending sid code =
     (case st_send st sid of
        None \<Rightarrow> Err ClosedStream
      | Some s \<Rightarrow>
          if snd_state s = ResetSent then Err ClosedStream
          else Ok (st\<lparr>st_send := (st_send st)(sid \<mapsto> send_reset s)\<rparr>,
                   pending\<lparr>rt_reset_stream := rt_reset_stream pending @ [(sid, code)]\<rparr>))"

definition sstream_set_priority :: "streams_state \<Rightarrow> stream_id \<Rightarrow> int \<Rightarrow> (streams_state, closed_stream) outcome" where
  "sstream_set_priority st sid priority =
     (case st_send st sid of
        None \<Rightarrow> Err ClosedStream
      | Some s \<Rightarrow> Ok (st\<lparr>st_send := (st_send st)(sid \<mapsto> s\<lparr>snd_priority := priority\<rparr>)\<rparr>))"

definition sstream_priority :: "streams_state \<Rightarrow> stream_id \<Rightarrow> (int, closed_stream) outcome" where
  "sstream_priority st sid = (case st_send st sid of None \<Rightarrow> Err ClosedStream | Some s \<Rightarrow> Ok (snd_priority s))"

text \<open>
  \<open>Chunks::new\<close> takes the receiving half out of the table; it is lost when the ordering check
  fails.  \<open>Drop\<close> puts it back while it is readable.
\<close>

definition chunks_new :: "streams_state \<Rightarrow> stream_id \<Rightarrow> bool \<Rightarrow> streams_state \<times> (chunks, readable_error) outcome" where
  "chunks_new st sid ordered =
     (case st_recv st sid of
        None \<Rightarrow> (st, Err RClosedStream)
      | Some rs \<Rightarrow>
          if stopped rs then (st, Err RClosedStream)
          else
            let st = st\<lparr>st_recv := (st_recv st)(sid := None)\<rparr> in
            (st, bindO (map_err (\<lambda>_. RIllegalOrderedRead) (ensure_ordering (rcv_assembler rs) ordered)) (\<lambda>_.
               Ok \<lparr>ch_id = sid, ch_ordered = ordered, ch_state = ChReadable rs, ch_read = 0\<rparr>)))"

definition chunks_drop :: "streams_state \<Rightarrow> chunks \<Rightarrow> streams_state" where
  "chunks_drop st c =
     (case ch_state c of ChReadable rs \<Rightarrow> st\<lparr>st_recv := (st_recv st)(ch_id c \<mapsto> rs)\<rparr> | _ \<Rightarrow> st)"

definition rstream_stop :: "streams_state \<Rightarrow> retransmits \<Rightarrow> stream_id \<Rightarrow> nat \<Rightarrow> (streams_state \<times> retransmits, closed_stream) outcome" where
  "rstream_stop st pending sid code =
     (case st_recv st sid of
        None \<Rightarrow> Err ClosedStream
      | Some rs \<Rightarrow>
          bindO (recv_stop rs) (\<lambda>(rs, _, stop_sending).
          let pending = (if stop_sending
                then pending\<lparr>rt_stop_sending := rt_stop_sending pending @ [\<lparr>stop_id = sid, stop_error_code = code\<rparr>]\<rparr>
                else pending);
              st = st\<lparr>st_recv := (st_recv st)(sid \<mapsto> rs)\<rparr> in
          Ok (if \<not> final_offset_unknown rs then st\<lparr>st_recv := (st_recv st)(sid := None)\<rparr> else st, pending)))"

definition rstream_received_reset :: "streams_state \<Rightarrow> stream_id \<Rightarrow> (streams_state \<times> nat option, closed_stream) outcome" where
  "rstream_received_reset st sid =
     (case st_recv st sid of
        None \<Rightarrow> Err ClosedStream
      | Some rs \<Rightarrow>
          if stopped rs then Err ClosedStream
          else case reset_code rs of
            None \<Rightarrow> Ok (st, None)
          | Some code \<Rightarrow> Ok (st\<lparr>st_recv := (st_recv st)(sid := None)\<rparr>, Some code))"

section \<open>The queue serves by priority, then in order of arrival\<close>

lemma list_max_None [simp]: "list_max xs = None \<longleftrightarrow> xs = []"
  by (cases xs) (auto split: option.splits)

lemma list_max_Some: "list_max xs = Some m \<Longrightarrow> m \<in> set xs \<and> (\<forall>x\<in>set xs. x \<le> m)"
  by (induction xs arbitrary: m) (fastforce split: option.splits simp: max_def)+

lemma heap_pop_Some:
  assumes "heap_pop xs = (ys, Some m)"
  shows "m \<in> set xs \<and> (\<forall>x\<in>set xs. x \<le> m) \<and> ys = remove1 m xs"
  using assms list_max_Some by (auto simp: heap_pop_def split: option.splits)

lemma heap_pop_None: "heap_pop xs = (ys, None) \<longleftrightarrow> xs = [] \<and> ys = []"
  by (auto simp: heap_pop_def split: option.splits)

text \<open>Every queued stream has a recency of its own, at or above the counter.\<close>

definition pq_inv :: "pending_queue \<Rightarrow> bool" where
  "pq_inv q \<longleftrightarrow> distinct (map ps_recency (pq_streams q)) \<and>
     (\<forall>p\<in>set (pq_streams q). pq_recency q \<le> ps_recency p) \<and> pq_recency q \<le> u64_max"

lemma pending_queue_new_inv: "pq_inv pending_queue_new"
  by (simp add: pq_inv_def pending_queue_new_def)

lemma push_pending_inv:
  assumes "pq_inv q" "0 < pq_recency q"
  shows "pq_inv (push_pending q sid priority) \<and> pq_next (push_pending q sid priority) = pq_next q \<and>
    (\<exists>p. pq_streams (push_pending q sid priority) = p # pq_streams q \<and> ps_id p = sid \<and> ps_priority p = priority \<and>
      (\<forall>x\<in>set (pq_streams q). ps_recency p < ps_recency x))"
proof -
  have "sub64 (pq_recency q) 1 = pq_recency q - 1"
    using assms by (intro sub64_small) (auto simp: pq_inv_def u64_max_def)
  then show ?thesis using assms by (fastforce simp: pq_inv_def push_pending_def Let_def)
qed

lemma pq_pop_inv:
  assumes "pq_inv q" "pq_pop q = (q', Some p)" "pq_next q = None"
  shows "pq_inv q' \<and> p \<in> set (pq_streams q) \<and> pq_streams q' = remove1 p (pq_streams q) \<and> pq_next q' = None \<and>
    (\<forall>x\<in>set (pq_streams q). x \<noteq> p \<longrightarrow> ps_priority x < ps_priority p \<or>
       ps_priority x = ps_priority p \<and> ps_recency x < ps_recency p)"
proof -
  obtain xs where pop: "heap_pop (pq_streams q) = (xs, Some p)" "q' = q\<lparr>pq_streams := xs\<rparr>"
    using assms(2,3) by (auto simp: pq_pop_def split: prod.splits)
  note p = heap_pop_Some [OF pop(1)]
  have "ps_recency x \<noteq> ps_recency p" if "x \<in> set (pq_streams q)" "x \<noteq> p" for x
    using assms(1) that p unfolding pq_inv_def distinct_map by (auto dest: inj_onD)
  moreover have "distinct (map ps_recency (remove1 p (pq_streams q)))"
    using assms(1) by (auto simp: pq_inv_def distinct_map intro: inj_on_subset dest: set_remove1_subset [THEN subsetD])
  ultimately show ?thesis
    using assms(1,3) p pop(2) unfolding pq_inv_def less_eq_pending_stream_def pending_le_def
    by (auto dest: set_remove1_subset [THEN subsetD])
qed

lemma pq_iter_pop: "pq_pop q = (q', Some p) \<Longrightarrow> length (pq_iter q) = Suc (length (pq_iter q'))"
proof (cases "pq_next q")
  case None
  assume pop: "pq_pop q = (q', Some p)"
  then obtain xs where "heap_pop (pq_streams q) = (xs, Some p)" "q' = q\<lparr>pq_streams := xs\<rparr>"
    using None by (auto simp: pq_pop_def split: prod.splits)
  then have "p \<in> set (pq_streams q)" "pq_streams q' = remove1 p (pq_streams q)" "pq_next q' = None"
    using None heap_pop_Some by fastforce+
  moreover from this(1) have "pq_streams q \<noteq> []" by auto
  ultimately show ?thesis using None by (auto simp: pq_iter_def length_remove1)
qed (auto simp: pq_pop_def pq_iter_def)

section \<open>Stream identifiers are used once\<close>

lemma open_stream_spec:
  assumes "st_next st d < 2 ^ 62"
  shows "case open_stream st d of (st', sid) \<Rightarrow>
    initiator sid = st_side st \<and> stream_dir sid = d \<and> stream_index sid = st_next st d \<and>
    st_send st' sid = Some send_default \<and> st_next st' d = Suc (st_next st d) \<and>
    (\<forall>d'. d' \<noteq> d \<longrightarrow> st_next st' d' = st_next st d') \<and> st_side st' = st_side st \<and>
    st_recv st' sid = (if d = Bi then Some recv_default else st_recv st sid)"
  using assms stream_id_components [OF assms]
  by (auto simp: open_stream_def Let_def add64_small)

section \<open>The loop that writes STREAM frames ends\<close>

context bytes_crate
begin

lemma stream_meta_encode_left:
  assumes "stream_meta_encode B m len w = (Ok w' :: (_, 'e) outcome)"
  shows "w_left w' < w_left w"
proof -
  obtain ty w1 w2 where w1: "put_slice (varint_bytes B ty) w = (Ok w1 :: (_, 'e) outcome)"
    and w2: "put_slice (varint_bytes B (sm_id m)) w1 = (Ok w2 :: (_, 'e) outcome)"
    and rest: "bindO (if fst (sm_offsets m) \<noteq> 0 then put_varint B (fst (sm_offsets m)) w2 else Ok w2) (\<lambda>w.
      if len then put_varint B (sub64 (snd (sm_offsets m)) (fst (sm_offsets m))) w else Ok w) = (Ok w' :: (_, 'e) outcome)"
    using assms unfolding stream_meta_encode_def Let_def bindO_eq_Ok [where y = w'] put_varint_Ok
    by (auto simp: bindO_eq_Ok put_varint_Ok simp del: if_split)
  have "w_left w' \<le> w_left w2"
    using rest by (auto simp: bindO_eq_Ok put_varint_Ok dest!: put_slice_left split: if_splits)
  moreover have "0 < length (varint_bytes B ty)" by simp
  ultimately show ?thesis using put_slice_left [OF w1] put_slice_left [OF w2] by linarith
qed

lemma wsf_emit_progress:
  assumes "wsf_emit B fair st w s meta el = (Ok (st', w', m, again) :: (_, 'e) outcome)"
  shows "w_left w' < w_left w \<and> length (pq_iter (st_pending st')) \<le> Suc (length (pq_iter (st_pending st)))"
proof -
  have push: "length (pq_iter (push_pending q sid i)) = Suc (length (pq_iter q))" for q sid i
    by (simp add: push_pending_def pq_iter_def Let_def)
  have reinsert: "length (pq_iter q') = Suc (length (pq_iter q))"
    if "reinsert_pending q sid i = (Ok q' :: (_, 'e) outcome)" for q sid i q'
    using that by (auto simp: reinsert_pending_def pq_iter_def split: if_splits)
  obtain w1 where w1: "stream_meta_encode B meta el w = (Ok w1 :: (_, 'e) outcome)"
    "(if \<not> range_is_empty (sm_offsets meta) then put_slice (sb_get (snd_pending s) (sm_offsets meta)) w1
      else Ok w1) = (Ok w' :: (_, 'e) outcome)"
    using assms by (auto simp: wsf_emit_def bindO_eq_Ok simp del: if_split split: if_splits)
  then have "w_left w' < w_left w"
    using stream_meta_encode_left [OF w1(1)] by (auto split: if_splits dest: put_slice_left)
  moreover have "length (pq_iter (st_pending st')) \<le> Suc (length (pq_iter (st_pending st)))"
    using assms by (auto simp: wsf_emit_def bindO_eq_Ok push dest!: reinsert split: if_splits)
  ultimately show ?thesis by blast
qed

lemma wsf_step_progress:
  assumes "wsf_step B fair st w = (Ok (st', w', m, True) :: (_, 'e) outcome)"
  shows "w_left w' + length (pq_iter (st_pending st')) < w_left w + length (pq_iter (st_pending st))"
proof -
  obtain q p where pop: "pq_pop (st_pending st) = (q, Some p)"
    using assms by (auto simp: wsf_step_def split: if_splits prod.splits option.splits)
  have len: "length (pq_iter (st_pending st)) = Suc (length (pq_iter q))" using pq_iter_pop [OF pop] .
  show ?thesis
    using assms len unfolding wsf_step_def pop prod.case option.case Let_def
    by (auto simp: bindO_eq_Ok split: if_splits option.splits prod.splits dest!: wsf_emit_progress)
qed

lemma wsf_loop_ends:
  "w_left w + length (pq_iter (st_pending st)) < fuel \<Longrightarrow>
     \<exists>r. wsf_loop B fair fuel st w = (Some r :: (_, 'e) outcome option)"
proof (induction fuel arbitrary: st w)
  case (Suc fuel)
  show ?case
  proof (cases "wsf_step B fair st w :: (_, 'e) outcome")
    case (Ok x)
    obtain st' w' m again where x: "x = (st', w', m, again)" by (cases x)
    show ?thesis
    proof (cases again)
      case True
      then have "\<exists>r. wsf_loop B fair fuel st' w' = (Some r :: (_, 'e) outcome option)"
        using wsf_step_progress Ok x Suc by fastforce
      then show ?thesis using Ok x True by auto
    qed (use Ok x in simp)
  qed simp_all
qed simp

end

section \<open>Chunks\<close>

text \<open>Taking a stream out for reading and putting it back leaves the table as it was.\<close>

lemma chunks_new_drop:
  assumes "chunks_new st sid True = (st', Ok c)"
  shows "chunks_drop st' c = st"
  using assms
  by (auto simp: chunks_new_def chunks_drop_def bindO_eq_Ok map_upd_triv split: option.splits if_splits)

section \<open>Acknowledged frames\<close>

text \<open>
  A stream is reported finished, and forgotten, exactly when its FIN was acknowledged and no
  unacknowledged data is left.
\<close>

lemma received_ack_of_finished:
  assumes "st_send st (sm_id m) = Some s" "\<not> send_is_reset s"
  shows "StreamEv (StFinished (sm_id m)) \<in> set (drop (length (st_events st)) (st_events (received_ack_of st m))) \<longleftrightarrow>
    (\<exists>fa. snd_state s = DataSent fa \<and> (fa \<or> sm_fin m)) \<and> is_fully_acked (sb_ack (snd_pending s) (sm_offsets m))"
  using assms
  by (auto simp: received_ack_of_def send_ack_def Let_def send_event_def split: send_state.splits)

section \<open>Properties\<close>

text \<open>
  Opening streams gives fresh identifiers of the right kind: each opened stream is numbered by
  the next index of its direction, is initiated by this side, and never collides with another
  stream this side has opened.
\<close>

lemma opened_streams_fresh:
  assumes "st_next st d < 2 ^ 62"
  shows "case open_stream st d of (st', sid) \<Rightarrow>
    initiator sid = st_side st \<and> stream_dir sid = d \<and> stream_index sid = st_next st d \<and>
    st_send st' sid = Some send_default \<and> st_recv st' sid = (if d = Bi then Some recv_default else st_recv st sid) \<and>
    (\<forall>other. initiator other = st_side st \<and> stream_dir other = d \<and> stream_index other < st_next st d \<longrightarrow>
       other \<noteq> sid \<and> st_send st' other = st_send st other) \<and>
    st_next st' d = Suc (st_next st d)"
proof -
  obtain st' sid where o: "open_stream st d = (st', sid)" by fastforce
  have "st_send st' = (st_send st)(sid \<mapsto> send_default)" using o by (auto simp: open_stream_def Let_def split: if_splits)
  then show ?thesis using open_stream_spec [OF assms] by (auto simp: o)
qed

text \<open>
  C26. The loop that fills a packet with STREAM frames ends: with fuel for the free bytes and the
  queued streams it always comes to a result.
\<close>

theorem write_stream_frames_ends:
  assumes "bytes_crate B"
  shows "\<exists>r. wsf_loop B fair (wsf_fuel st w) st w = (Some r :: (_, 'e) outcome option) \<and> write_stream_frames B st w fair = r"
  using bytes_crate.wsf_loop_ends [OF assms, of w st "wsf_fuel st w" fair, where 'e = 'e]
  by (auto simp: wsf_fuel_def write_stream_frames_def)

theorem write_stream_frames_ends_witness:
  "\<exists>r. wsf_loop std_bytes True (wsf_fuel (streams_new Client) \<lparr>w_bytes = [], w_left = 40\<rparr>) (streams_new Client)
      \<lparr>w_bytes = [], w_left = 40\<rparr> = (Some r :: (_, unit) outcome option) \<and>
    write_stream_frames std_bytes (streams_new Client) \<lparr>w_bytes = [], w_left = 40\<rparr> True = r"
  by (rule write_stream_frames_ends [OF std.bytes_crate_axioms])

text \<open>A stream with one byte more to send than fits the rest of the packet.\<close>

definition full_stream :: streams_state where
  "full_stream =
     (streams_new Client)\<lparr>
        st_send := [0 \<mapsto> send_default\<lparr>snd_pending := sb_write send_buffer_default (replicate 40 0)\<rparr>],
        st_pending := push_pending pending_queue_new 0 0\<rparr>"

text \<open>
  \<open>write_stream_frames\<close> panics when the data of a stream fills the packet: \<open>poll_transmit\<close> is
  given all the free bytes although the type and the stream identifier still have to go before
  the data.
\<close>

lemma full_packet_panics:
  "wsf_step std_bytes True full_stream \<lparr>w_bytes = [], w_left = 40\<rparr> = (Panic :: (_, unit) outcome)"
proof -
  have pop: "pq_pop (st_pending full_stream) = (pending_queue_new\<lparr>pq_recency := sub64 u64_max 1\<rparr>, Some (PendingStream 0 (sub64 u64_max 1) 0))"
    by (simp add: full_stream_def pq_pop_def push_pending_def pending_queue_new_def heap_pop_def Let_def)
  have poll: "sb_poll_transmit (sb_write send_buffer_default (replicate 40 0)) 40 =
      (Ok ((sb_write send_buffer_default (replicate 40 0))\<lparr>unsent := 40\<rparr>, (0, 40), False) :: (_, unit) outcome)"
    by (simp add: sb_poll_transmit_def sb_write_def send_buffer_default_def rs_pop_min_def rs_peek_min_def add64_def sub64_def u64_max_def)
  have meta: "stream_meta_encode std_bytes \<lparr>sm_id = 0, sm_offsets = (0, 40), sm_fin = False\<rparr> False \<lparr>w_bytes = [], w_left = 40\<rparr> =
      (Ok \<lparr>w_bytes = [8, 0], w_left = 38\<rparr> :: (_, unit) outcome)"
    by (simp add: stream_meta_encode_def STREAM_TYS_def varint_eval)
  have got: "sb_get ((sb_write send_buffer_default (replicate 40 0))\<lparr>unsent := 40\<rparr>) (0, 40) = replicate 40 0"
    by (simp add: sb_get_def sb_base_def sb_write_def send_buffer_default_def add64_def sub64_def)
  show ?thesis
    unfolding wsf_step_def pop prod.case option.case Let_def
    by (simp add: STREAM_SIZE_BOUND_def full_stream_def send_is_reset_def send_default_def send_is_pending_def has_unsent_data_def poll
        wsf_emit_def meta got put_slice_def) (simp add: sb_write_def send_buffer_default_def add64_def)
qed

text \<open>
  Streams are served by priority, and within a priority in the order they were queued: the
  stream taken off the queue has the greatest priority and, among equals, was pushed first.
\<close>

lemma pending_queue_order:
  assumes "pq_inv q" "pq_pop q = (q', Some p)" "pq_next q = None"
  shows "pq_inv q' \<and> p \<in> set (pq_streams q) \<and> pq_streams q' = remove1 p (pq_streams q) \<and>
    (\<forall>x\<in>set (pq_streams q). x \<noteq> p \<longrightarrow> ps_priority x < ps_priority p \<or>
       ps_priority x = ps_priority p \<and> ps_recency x < ps_recency p)"
  using pq_pop_inv [OF assms] by blast





text \<open>
  The first frame of a stream of the peer is dropped without a trace when it carries a FIN, so a
  stream that fits one frame is never delivered.
\<close>

lemma single_frame_stream_dropped:
  assumes "initiator (sf_id frame) \<noteq> st_side st" "st_recv st (sf_id frame) = None" "sf_fin frame"
  shows "received st frame n = (st, Ok ())"
  using assms by (simp add: received_def validate_receive_id_def Let_def)

end
