(* ===== verification/Path.thy ===== *)
theory Path
  imports Space
begin

text \<open>
  The network path and the timers (\<open>core/src/connection/path.rs\<close>, \<open>timer.rs\<close>): the queue of
  packets to send, the round-trip estimator, the NewReno congestion controller, the counters of
  what is in flight, and the table of timers.  The socket is not modelled: whether and when a
  datagram was sent is a parameter of \<open>send_one\<close>.  Wakers of the async runtime are left out.
  Durations are natural numbers; the overflow of a \<open>Duration\<close> (more than \<open>2 ^ 64\<close> seconds) is
  not modelled.
\<close>

definition INITIAL_MTU :: nat where
  "INITIAL_MTU = 1472"

text \<open>333 milliseconds.\<close>

definition MIN_RTT :: duration where
  "MIN_RTT = 333 * 1000000"

section \<open>Round-trip time\<close>

record rtt_estimator =
  rtt_latest :: duration
  rtt_smoothed :: "duration option"
  rtt_var :: duration
  rtt_min :: duration

definition rtt_new :: "duration \<Rightarrow> rtt_estimator" where
  "rtt_new initial_rtt =
     \<lparr>rtt_latest = initial_rtt, rtt_smoothed = None, rtt_var = initial_rtt div 2, rtt_min = initial_rtt\<rparr>"

definition rtt_get :: "rtt_estimator \<Rightarrow> duration" where
  "rtt_get e = (case rtt_smoothed e of Some s \<Rightarrow> s | None \<Rightarrow> rtt_latest e)"

definition conservative :: "rtt_estimator \<Rightarrow> duration" where
  "conservative e = max (rtt_get e) (rtt_latest e)"

definition rtt_update :: "rtt_estimator \<Rightarrow> duration \<Rightarrow> duration \<Rightarrow> rtt_estimator" where
  "rtt_update e delay rtt =
     (let e = e\<lparr>rtt_latest := rtt\<rparr>;
          e = e\<lparr>rtt_min := min (rtt_min e) rtt\<rparr>;
          adjusted_rtt = (if rtt > rtt_min e + delay then rtt - delay else rtt) in
      case rtt_smoothed e of
        None \<Rightarrow> e\<lparr>rtt_smoothed := Some adjusted_rtt, rtt_var := adjusted_rtt div 2\<rparr>
      | Some smoothed \<Rightarrow>
          let diff = (if smoothed > adjusted_rtt then smoothed - adjusted_rtt else adjusted_rtt - smoothed) in
          e\<lparr>rtt_var := (rtt_var e * 3 + diff) div 4,
            rtt_smoothed := Some ((smoothed * 7 + adjusted_rtt) div 8)\<rparr>)"

section \<open>Congestion control\<close>

record new_reno =
  nr_window :: nat
  ssthresh :: nat
  recovery_start_time :: instant
  nr_bytes_acked :: nat

definition reno_new :: "instant \<Rightarrow> new_reno" where
  "reno_new now = \<lparr>nr_window = 10 * INITIAL_MTU, ssthresh = u64_max, recovery_start_time = now, nr_bytes_acked = 0\<rparr>"

definition reno_on_ack :: "new_reno \<Rightarrow> instant \<Rightarrow> nat \<Rightarrow> bool \<Rightarrow> new_reno" where
  "reno_on_ack r sent bs app_limited =
     (if app_limited then r
      else if sent \<le> recovery_start_time r then r
      else if nr_window r < ssthresh r then r\<lparr>nr_window := add64 (nr_window r) bs\<rparr>
      else
        let r = r\<lparr>nr_bytes_acked := add64 (nr_bytes_acked r) bs\<rparr> in
        if nr_bytes_acked r \<ge> nr_window r
        then r\<lparr>nr_bytes_acked := sub64 (nr_bytes_acked r) (nr_window r),
               nr_window := add64 (nr_window r) INITIAL_MTU\<rparr>
        else r)"

definition reno_on_congestion_event :: "new_reno \<Rightarrow> instant \<Rightarrow> instant \<Rightarrow> new_reno" where
  "reno_on_congestion_event r now sent =
     (if sent \<le> recovery_start_time r then r
      else
        let t = max (nr_window r div 2) (2 * INITIAL_MTU) in
        r\<lparr>recovery_start_time := now, ssthresh := t, nr_window := t, nr_bytes_acked := 0\<rparr>)"

section \<open>What is in flight\<close>

record in_flight =
  if_bytes :: nat
  if_ack_eliciting :: nat

definition in_flight_default :: in_flight where
  "in_flight_default = \<lparr>if_bytes = 0, if_ack_eliciting = 0\<rparr>"

definition in_flight_insert :: "in_flight \<Rightarrow> sent_packet \<Rightarrow> in_flight" where
  "in_flight_insert f p =
     \<lparr>if_bytes = add64 (if_bytes f) (sp_size p),
      if_ack_eliciting = add64 (if_ack_eliciting f) (of_bool (sp_ack_eliciting p))\<rparr>"

definition in_flight_remove :: "in_flight \<Rightarrow> sent_packet \<Rightarrow> in_flight" where
  "in_flight_remove f p =
     \<lparr>if_bytes = sub64 (if_bytes f) (sp_size p),
      if_ack_eliciting = sub64 (if_ack_eliciting f) (of_bool (sp_ack_eliciting p))\<rparr>"

section \<open>The path\<close>

record scheduled_packet =
  sch_packet :: bytes
  sch_meta :: sent_packet

record post_sent_info =
  psi_ack_eliciting :: bool
  psi_send_time :: instant

record network_path =
  sending_queue :: "scheduled_packet list"
  np_rtt :: rtt_estimator
  congestion :: new_reno
  np_in_flight :: in_flight
  first_packet :: "nat option"

definition path_new :: "instant \<Rightarrow> network_path" where
  "path_new now =
     \<lparr>sending_queue = [], np_rtt = rtt_new MIN_RTT, congestion = reno_new now,
      np_in_flight = in_flight_default, first_packet = None\<rparr>"

text \<open>
  \<open>send_one\<close>: \<open>sent_at\<close> is the time at which the socket accepted the datagram, or nothing
  when sending failed, on which \<open>unwrap\<close> panics.
\<close>

definition send_one :: "network_path \<Rightarrow> (space_id \<Rightarrow> packet_space) \<Rightarrow> instant option \<Rightarrow>
    (network_path \<times> (space_id \<Rightarrow> packet_space) \<times> (bytes \<times> post_sent_info) option, 'e) outcome" where
  "send_one path spaces sent_at =
     (case sending_queue path of
        [] \<Rightarrow> Ok (path, spaces, None)
      | sp # rest \<Rightarrow>
          (case sent_at of
             None \<Rightarrow> Panic
           | Some send_time \<Rightarrow>
               let path = path\<lparr>sending_queue := rest\<rparr>;
                   meta_info = (sch_meta sp)\<lparr>time_sent := send_time\<rparr>;
                   info = \<lparr>psi_ack_eliciting = sp_ack_eliciting meta_info, psi_send_time = send_time\<rparr>;
                   path = path\<lparr>np_in_flight := in_flight_insert (np_in_flight path) meta_info\<rparr>;
                   path = (if first_packet path = None then path\<lparr>first_packet := Some (sp_number meta_info)\<rparr> else path);
                   (space, freed) = ps_sent (spaces (sp_space_id meta_info)) meta_info;
                   spaces = spaces(sp_space_id meta_info := space);
                   path = path\<lparr>np_in_flight := (np_in_flight path)\<lparr>if_bytes := saturating_sub (if_bytes (np_in_flight path)) freed\<rparr>\<rparr> in
               Ok (path, spaces, Some (sch_packet sp, info))))"

definition remove_in_flight :: "network_path \<Rightarrow> nat \<Rightarrow> sent_packet \<Rightarrow> network_path \<times> bool" where
  "remove_in_flight path pn p =
     (if (case first_packet path of None \<Rightarrow> True | Some first \<Rightarrow> first > pn) then (path, False)
      else (path\<lparr>np_in_flight := in_flight_remove (np_in_flight path) p\<rparr>, True))"

section \<open>Timers\<close>

datatype timer = LossDetection | Idle | Close_timer | KeyDiscard | PathValidation | KeepAlive | Pacing
  | PushNewCid | MaxAckDelay

definition timer_variants :: "timer list" where
  "timer_variants = [LossDetection, Idle, Close_timer, KeyDiscard, PathValidation, KeepAlive, Pacing,
     PushNewCid, MaxAckDelay]"

type_synonym timer_table = "timer \<Rightarrow> instant option"

definition timer_table_default :: timer_table where
  "timer_table_default = (\<lambda>_. None)"

definition timer_set :: "timer_table \<Rightarrow> timer \<Rightarrow> instant \<Rightarrow> timer_table" where
  "timer_set tt t time = tt(t := Some time)"

definition timer_stop :: "timer_table \<Rightarrow> timer \<Rightarrow> timer_table" where
  "timer_stop tt t = tt(t := None)"

text \<open>\<open>poll\<close> of the future: the earliest timer fires once its time has come, and is cleared.\<close>

definition timer_poll :: "timer_table \<Rightarrow> instant \<Rightarrow> timer_table \<times> timer option" where
  "timer_poll tt now =
     (case min_by snd (List.map_filter (\<lambda>t. map_option (\<lambda>time. (t, time)) (tt t)) timer_variants) of
        None \<Rightarrow> (tt, None)
      | Some (t, earliest) \<Rightarrow> if now \<ge> earliest then (tt(t := None), Some t) else (tt, None))"

section \<open>The estimator stays above the minimum\<close>

definition rtt_inv :: "rtt_estimator \<Rightarrow> bool" where
  "rtt_inv e \<longleftrightarrow> rtt_min e \<le> rtt_latest e \<and> (case rtt_smoothed e of None \<Rightarrow> True | Some s \<Rightarrow> rtt_min e \<le> s)"

lemma rtt_new_inv: "rtt_inv (rtt_new t)"
  by (simp add: rtt_inv_def rtt_new_def)

lemma rtt_update_spec:
  assumes "rtt_inv e"
  shows "rtt_inv (rtt_update e delay rtt) \<and> rtt_latest (rtt_update e delay rtt) = rtt \<and>
    rtt_min (rtt_update e delay rtt) = min (rtt_min e) rtt \<and>
    rtt_get (rtt_update e delay rtt) \<le> max (rtt_get e) rtt \<and>
    rtt_min (rtt_update e delay rtt) \<le> rtt_get (rtt_update e delay rtt) \<and>
    rtt \<le> conservative (rtt_update e delay rtt)"
proof -
  define m where "m = min (rtt_min e) rtt"
  define a where "a = (if rtt > m + delay then rtt - delay else rtt)"
  have a: "m \<le> a" "a \<le> rtt" by (auto simp: a_def m_def)
  show ?thesis
  proof (cases "rtt_smoothed e")
    case None
    then have upd: "rtt_update e delay rtt = \<lparr>rtt_latest = rtt, rtt_smoothed = Some a, rtt_var = a div 2, rtt_min = m\<rparr>"
      by (simp add: rtt_update_def Let_def m_def a_def)
    show ?thesis using a unfolding upd by (simp add: rtt_inv_def rtt_get_def conservative_def m_def)
  next
    case (Some s)
    define s' where "s' = (s * 7 + a) div 8"
    have "m \<le> s" using assms Some by (auto simp: rtt_inv_def m_def)
    then have s': "m \<le> s'" "s' \<le> max s rtt" using a by (auto simp: s'_def)
    have upd: "rtt_latest (rtt_update e delay rtt) = rtt" "rtt_smoothed (rtt_update e delay rtt) = Some s'"
      "rtt_min (rtt_update e delay rtt) = m"
      using Some by (simp_all add: rtt_update_def Let_def m_def a_def s'_def)
    show ?thesis
      using s' a Some by (simp add: rtt_inv_def rtt_get_def conservative_def upd m_def)
  qed
qed

section \<open>The congestion window\<close>

definition reno_inv :: "new_reno \<Rightarrow> bool" where
  "reno_inv r \<longleftrightarrow> 2 * INITIAL_MTU \<le> nr_window r \<and> 2 * INITIAL_MTU \<le> ssthresh r"

lemma reno_new_inv: "reno_inv (reno_new now)"
  by (simp add: reno_inv_def reno_new_def INITIAL_MTU_def u64_max_def)

lemma reno_on_ack_spec:
  assumes "reno_inv r" "nr_window r + bs < 2 ^ 63" "nr_bytes_acked r + bs < 2 ^ 63"
  shows "reno_inv (reno_on_ack r sent bs lim) \<and> nr_window r \<le> nr_window (reno_on_ack r sent bs lim) \<and>
    nr_window (reno_on_ack r sent bs lim) \<le> nr_window r + max bs INITIAL_MTU"
proof -
  have "add64 (nr_window r) bs = nr_window r + bs" "add64 (nr_window r) INITIAL_MTU = nr_window r + INITIAL_MTU"
    using assms(2) by (simp_all add: add64_small INITIAL_MTU_def)
  then show ?thesis using assms(1) by (auto simp: reno_inv_def reno_on_ack_def Let_def)
qed

lemma reno_on_congestion_spec:
  assumes "reno_inv r"
  shows "reno_inv (reno_on_congestion_event r now sent) \<and>
    nr_window (reno_on_congestion_event r now sent) \<le> nr_window r \<and>
    nr_window r div 2 \<le> nr_window (reno_on_congestion_event r now sent) \<and>
    (now \<ge> sent' \<longrightarrow> sent > recovery_start_time r \<longrightarrow>
      reno_on_congestion_event (reno_on_congestion_event r now sent) now' sent' = reno_on_congestion_event r now sent)"
  using assms by (auto simp: reno_inv_def reno_on_congestion_event_def Let_def)

section \<open>Timers fire in order\<close>

lemma timer_poll_spec:
  "(case snd (timer_poll tt now) of
      None \<Rightarrow> fst (timer_poll tt now) = tt \<and> (\<forall>t time. tt t = Some time \<longrightarrow> now < time)
    | Some t \<Rightarrow> fst (timer_poll tt now) = tt(t := None) \<and>
        (\<exists>time. tt t = Some time \<and> time \<le> now \<and> (\<forall>t' time'. tt t' = Some time' \<longrightarrow> time \<le> time')))"
proof -
  let ?xs = "List.map_filter (\<lambda>t. map_option (\<lambda>time. (t, time)) (tt t)) timer_variants"
  have all: "t \<in> set timer_variants" for t by (cases t) (simp_all add: timer_variants_def)
  have mem: "(t, time) \<in> set ?xs \<longleftrightarrow> tt t = Some time" for t time
    using all by (force simp: map_filter_def)
  show ?thesis
  proof (cases "min_by snd ?xs")
    case None
    then have "?xs = []" by simp
    then have "tt t = None" for t using mem by (metis empty_iff list.set(1) option.exhaust)
    then show ?thesis using None by (simp add: timer_poll_def)
  next
    case (Some p)
    obtain t earliest where p: "p = (t, earliest)" by (cases p)
    have "tt t = Some earliest" "\<forall>t' time'. tt t' = Some time' \<longrightarrow> earliest \<le> time'"
      using min_by_Some [OF Some] mem p by force+
    then show ?thesis using Some p by (fastforce simp: timer_poll_def not_le)
  qed
qed

section \<open>Removing what was inserted\<close>

lemma in_flight_remove_insert:
  assumes "if_bytes f + sp_size p < 2 ^ 64" "if_ack_eliciting f + 1 < 2 ^ 64"
  shows "in_flight_remove (in_flight_insert f p) p = f"
  using assms by (cases f) (simp add: in_flight_remove_def in_flight_insert_def wrap_simps)

section \<open>Properties\<close>



text \<open>
  C30. The congestion window stays in bounds: it never falls below two datagrams, an acknowledgement
  never shrinks it and grows it by at most the larger of the acknowledged bytes and one datagram,
  and a loss at most halves it.
\<close>

theorem congestion_window_bounds:
  assumes "reno_inv r" "nr_window r + bs < 2 ^ 63" "nr_bytes_acked r + bs < 2 ^ 63"
  shows "2 * INITIAL_MTU \<le> nr_window (reno_on_ack r sent bs lim) \<and>
    nr_window r \<le> nr_window (reno_on_ack r sent bs lim) \<and>
    nr_window (reno_on_ack r sent bs lim) \<le> nr_window r + max bs INITIAL_MTU \<and>
    2 * INITIAL_MTU \<le> nr_window (reno_on_congestion_event r now sent) \<and>
    nr_window (reno_on_congestion_event r now sent) \<le> nr_window r \<and>
    nr_window r div 2 \<le> nr_window (reno_on_congestion_event r now sent) \<and>
    reno_inv (reno_on_ack r sent bs lim) \<and> reno_inv (reno_on_congestion_event r now sent)"
  using reno_on_ack_spec [OF assms] reno_on_congestion_spec [OF assms(1)] by (auto simp: reno_inv_def)

theorem congestion_window_bounds_witness:
  "2 * INITIAL_MTU \<le> nr_window (reno_on_ack (reno_new 0) 5 1000 False) \<and>
    nr_window (reno_new 0) \<le> nr_window (reno_on_ack (reno_new 0) 5 1000 False) \<and>
    nr_window (reno_on_ack (reno_new 0) 5 1000 False) \<le> nr_window (reno_new 0) + max 1000 INITIAL_MTU \<and>
    2 * INITIAL_MTU \<le> nr_window (reno_on_congestion_event (reno_new 0) 9 5) \<and>
    nr_window (reno_on_congestion_event (reno_new 0) 9 5) \<le> nr_window (reno_new 0) \<and>
    nr_window (reno_new 0) div 2 \<le> nr_window (reno_on_congestion_event (reno_new 0) 9 5) \<and>
    reno_inv (reno_on_ack (reno_new 0) 5 1000 False) \<and> reno_inv (reno_on_congestion_event (reno_new 0) 9 5)"
  by (rule congestion_window_bounds) (use reno_new_inv in \<open>simp_all add: reno_new_def INITIAL_MTU_def\<close>)

text \<open>
  One reduction per round trip: after a loss has shrunk the window, further losses of packets
  sent before that moment leave it as it is.
\<close>

lemma one_reduction_per_round_trip:
  assumes "reno_inv r" "sent > recovery_start_time r" "sent' \<le> now"
  shows "reno_on_congestion_event (reno_on_congestion_event r now sent) later sent' = reno_on_congestion_event r now sent"
  using reno_on_congestion_spec [OF assms(1)] assms(2,3) by blast

text \<open>
  The timer table fires the earliest timer, once, and never early: when nothing is due it is left
  as it is, otherwise the timer reported was due, no other was set to an earlier time, and it is
  cleared.
\<close>

lemma timers_fire_in_order:
  "case timer_poll tt now of
     (tt', None) \<Rightarrow> tt' = tt \<and> (\<forall>t. case tt t of None \<Rightarrow> True | Some time \<Rightarrow> now < time)
   | (tt', Some t) \<Rightarrow> tt' = tt(t := None) \<and> (\<exists>time. tt t = Some time \<and> time \<le> now \<and>
       (\<forall>t'. case tt t' of None \<Rightarrow> True | Some time' \<Rightarrow> time \<le> time'))"
  using timer_poll_spec [of tt now] by (auto split: option.splits prod.splits)

end
