(* ===== verification/Connection.thy ===== *)
theory Connection
  imports Stream_State Path Frame_Codec
begin

text \<open>
  A connection (\<open>core/src/connection/mod.rs\<close>): the handlers for packets, acknowledgements, lost
  packets, timeouts and the application's close, and the assembly of outgoing packets.  The three
  packet number spaces are a function from \<open>space_id\<close>; the event channel is the list of events
  in the stream tables, which hold the sending end the connection shares.  A handler that may
  fail after it changed the connection returns both.  \<open>now\<close> is the argument of the handlers;
  where the code asks for the current time itself it is a parameter too.
\<close>

section \<open>Connection state\<close>

datatype conn_state = CHandshake | CEstablished | CClosed connection_close | CDraining | CDrained

fun is_handshake :: "conn_state \<Rightarrow> bool" where
  "is_handshake CHandshake = True"
| "is_handshake _ = False"

fun is_closed :: "conn_state \<Rightarrow> bool" where
  "is_closed (CClosed _) = True"
| "is_closed CDraining = True"
| "is_closed CDrained = True"
| "is_closed _ = False"

fun is_drained :: "conn_state \<Rightarrow> bool" where
  "is_drained CDrained = True"
| "is_drained _ = False"

record connection =
  cn_side :: side
  cn_state :: conn_state
  cn_path :: network_path
  cn_spaces :: "space_id \<Rightarrow> packet_space"
  highest_space :: space_id
  cn_timers :: timer_table
  cn_streams :: streams_state
  pending_close :: bool
  app_limited :: bool

text \<open>\<open>SpaceId::VARIANTS\<close> and the derived order of \<open>SpaceId\<close>.\<close>

definition space_variants :: "space_id list" where
  "space_variants = [SInitial, SHandshake, SData]"

fun space_num :: "space_id \<Rightarrow> nat" where
  "space_num SInitial = 0"
| "space_num SHandshake = 1"
| "space_num SData = 2"

definition ACK_DELAY_EXP :: nat where "ACK_DELAY_EXP = 3"
definition TIMER_GRANULARITY :: duration where "TIMER_GRANULARITY = 1000000"
definition CLOSE_TIMEOUT :: duration where "CLOSE_TIMEOUT = 3 * 1000000000"
definition MAX_ACK_DELAY :: duration where "MAX_ACK_DELAY = 25 * 1000000"
definition SUPPORTED_VERSIONS :: "nat list" where "SUPPORTED_VERSIONS = [1]"
definition FAKE_CID :: bytes where "FAKE_CID = map of_char ''0123456789abcdefghij''"

text \<open>Updates of one space, of the streams and of the path.\<close>

definition upd_space :: "space_id \<Rightarrow> (packet_space \<Rightarrow> packet_space) \<Rightarrow> connection \<Rightarrow> connection" where
  "upd_space sid f c = c\<lparr>cn_spaces := (cn_spaces c)(sid := f (cn_spaces c sid))\<rparr>"

definition upd_acks :: "space_id \<Rightarrow> (pending_acks \<Rightarrow> pending_acks) \<Rightarrow> connection \<Rightarrow> connection" where
  "upd_acks sid f c = upd_space sid (\<lambda>s. s\<lparr>ps_pending_acks := f (ps_pending_acks s)\<rparr>) c"

definition set_timer :: "timer \<Rightarrow> instant \<Rightarrow> connection \<Rightarrow> connection" where
  "set_timer t time c = c\<lparr>cn_timers := timer_set (cn_timers c) t time\<rparr>"

definition stop_timer :: "timer \<Rightarrow> connection \<Rightarrow> connection" where
  "stop_timer t c = c\<lparr>cn_timers := timer_stop (cn_timers c) t\<rparr>"

definition emit :: "event \<Rightarrow> connection \<Rightarrow> connection" where
  "emit ev c = c\<lparr>cn_streams := (cn_streams c)\<lparr>st_events := st_events (cn_streams c) @ [ev]\<rparr>\<rparr>"

definition conn_new :: "side \<Rightarrow> instant \<Rightarrow> connection" where
  "conn_new s now =
     (let c = \<lparr>cn_side = s, cn_state = CHandshake, cn_path = path_new now,
               cn_spaces = (\<lambda>_. packet_space_new now), highest_space = SInitial,
               cn_timers = timer_table_default, cn_streams = streams_new s,
               pending_close = False, app_limited = False\<rparr> in
      if s = Client
      then upd_space SInitial (\<lambda>sp. sp\<lparr>ps_pending := (ps_pending sp)\<lparr>hello := True\<rparr>\<rparr>) c
      else c)"

definition conn_error :: "connection_error \<Rightarrow> connection \<Rightarrow> connection" where
  "conn_error e c = emit (ConnectionLost e) c"

section \<open>Loss detection\<close>

definition loss_time_and_space :: "connection \<Rightarrow> (instant \<times> space_id) option" where
  "loss_time_and_space c =
     min_by fst (List.map_filter (\<lambda>sid. map_option (\<lambda>t. (t, sid)) (loss_time (cn_spaces c sid))) space_variants)"

definition set_loss_detection_timer :: "connection \<Rightarrow> connection" where
  "set_loss_detection_timer c =
     (if is_closed (cn_state c) then c
      else case loss_time_and_space c of
        Some (t, _) \<Rightarrow> set_timer LossDetection t c
      | None \<Rightarrow>
          let has_in_flight = list_ex (\<lambda>sid. ps_in_flight (cn_spaces c sid) > 0) space_variants;
              pto = conservative (np_rtt (cn_path c)) * 3 + TIMER_GRANULARITY;
              earliest_sent = min_by id (List.map_filter (\<lambda>sid.
                case sent_packets (cn_spaces c sid) of [] \<Rightarrow> None | (_, p) # _ \<Rightarrow> Some (time_sent p)) space_variants) in
          (case (has_in_flight, earliest_sent) of
             (True, Some sent) \<Rightarrow> set_timer LossDetection (sent + pto) c
           | _ \<Rightarrow> stop_timer LossDetection c))"

definition discard_space :: "space_id \<Rightarrow> connection \<Rightarrow> connection" where
  "discard_space sid c =
     (let packets = sent_packets (cn_spaces c sid);
          c = upd_space sid (\<lambda>s. s\<lparr>loss_time := None, ps_in_flight := 0, sent_packets := []\<rparr>) c;
          c = foldl (\<lambda>c (pn, p). c\<lparr>cn_path := fst (remove_in_flight (cn_path c) pn p)\<rparr>) c packets in
      set_loss_detection_timer c)"

text \<open>What happens to one packet that is declared lost.\<close>

definition lose_packet :: "instant \<Rightarrow> space_id \<Rightarrow> connection \<Rightarrow> nat \<times> sent_packet \<Rightarrow> connection" where
  "lose_packet now sid c np =
     (case np of (pn, p) \<Rightarrow>
        let (path, removed_from_path) = remove_in_flight (cn_path c) pn p;
            path = (if removed_from_path \<and> sp_ack_eliciting p
                    then path\<lparr>congestion := reno_on_congestion_event (congestion path) now (time_sent p)\<rparr> else path);
            c = c\<lparr>cn_path := path, cn_streams := foldl st_retransmit (cn_streams c) (sp_stream_frames p)\<rparr> in
        upd_space sid (\<lambda>s. fst (ps_take (s\<lparr>ps_pending := retransmits_or_thin (ps_pending s) (sp_retransmits p)\<rparr>) pn)) c)"

definition detect_lost_packets :: "instant \<Rightarrow> space_id \<Rightarrow> connection \<Rightarrow> connection" where
  "detect_lost_packets now sid c =
     (case largest_acked_packet (cn_spaces c sid) of
        None \<Rightarrow> upd_space sid (\<lambda>s. s\<lparr>loss_time := None\<rparr>) c
      | Some largest_acked \<Rightarrow>
          let loss_delay = max (conservative (np_rtt (cn_path c)) * 9 div 8) TIMER_GRANULARITY;
              lost_send_before = (if loss_delay \<le> now then now - loss_delay else now);
              candidates = takeWhile (\<lambda>(pn, p). pn \<le> largest_acked) (sent_packets (cn_spaces c sid));
              lost_packets = filter (\<lambda>(pn, p). time_sent p \<le> lost_send_before) candidates;
              next_loss_time = min_by id (map (\<lambda>(pn, p). time_sent p + loss_delay)
                (filter (\<lambda>(pn, p). \<not> time_sent p \<le> lost_send_before) candidates));
              c = upd_space sid (\<lambda>s. s\<lparr>loss_time := next_loss_time\<rparr>) c in
          if lost_packets = [] then c
          else set_loss_detection_timer (foldl (lose_packet now sid) c lost_packets))"

section \<open>Acknowledgements\<close>

text \<open>
  The body of the loop of \<open>on_ack_received\<close> for one packet number: the connection and the
  largest newly acknowledged packet so far, none as long as nothing was newly acknowledged.
\<close>

definition ack_packet :: "space_id \<Rightarrow> connection \<times> sent_packet option \<Rightarrow> nat \<Rightarrow> connection \<times> sent_packet option" where
  "ack_packet sid cl pn =
     (case cl of (c, largest) \<Rightarrow>
        (case ps_take (cn_spaces c sid) pn of
           (_, None) \<Rightarrow> (c, largest)
         | (space, Some p) \<Rightarrow>
             let c = upd_space sid (\<lambda>_. space) c;
                 largest = (case largest of None \<Rightarrow> Some p
                   | Some l \<Rightarrow> if sp_number p > sp_number l then Some p else Some l);
                 c = (case sp_largest_acked p of None \<Rightarrow> c
                   | Some n \<Rightarrow> upd_acks sid (\<lambda>a. subtract_below a (add64 n 1)) c);
                 c = c\<lparr>cn_streams := foldl received_ack_of (cn_streams c) (sp_stream_frames p)\<rparr>;
                 (path, removed_from_path) = remove_in_flight (cn_path c) (sp_number p) p;
                 path = (if removed_from_path \<and> sp_ack_eliciting p
                         then path\<lparr>congestion := reno_on_ack (congestion path) (time_sent p) (sp_size p) (app_limited c)\<rparr>
                         else path) in
             (c\<lparr>cn_path := path\<rparr>, largest)))"

text \<open>All numbers of a list of inclusive ranges, in the order of the loops.\<close>

definition range_numbers :: "(nat \<times> nat) list \<Rightarrow> nat list" where
  "range_numbers rs = concat (map (\<lambda>(a, b). [a..<Suc b]) rs)"

definition on_ack_received :: "bytes_api \<Rightarrow> instant \<Rightarrow> space_id \<Rightarrow> ack \<Rightarrow> connection \<Rightarrow> connection \<times> (unit, transport_error) outcome" where
  "on_ack_received B now sid a c =
     (if ack_largest a \<ge> next_packet_number (cn_spaces c sid)
      then (c, Err (transport_error_new PROTOCOL_VIOLATION ''ACK for unsent packet''))
      else if (case largest_acked_packet (cn_spaces c sid) of None \<Rightarrow> False | Some prev \<Rightarrow> ack_largest a < prev)
      then (c, Err (transport_error_new PROTOCOL_VIOLATION ''ACK regressed largest acknowledged packet''))
      else case ack_ranges B a of
        Err e \<Rightarrow> (c, Err e)
      | Panic \<Rightarrow> (c, Panic)
      | Ok rs \<Rightarrow>
          (case foldl (ack_packet sid) (c, None) (range_numbers rs) of
             (c, None) \<Rightarrow> (c, Ok ())
           | (c, Some p) \<Rightarrow>
               let c = upd_space sid (\<lambda>s. s\<lparr>
                     largest_acked_packet := Some (case largest_acked_packet s of None \<Rightarrow> ack_largest a
                       | Some prev \<Rightarrow> max prev (ack_largest a)),
                     largest_acked_packet_sent := now\<rparr>) c;
                   delay_micros = take_bit 64 (push_bit ACK_DELAY_EXP (ack_delay a));
                   rtt = now - time_sent p;
                   path = cn_path c;
                   c = c\<lparr>cn_path := path\<lparr>np_rtt := rtt_update (np_rtt path) (delay_micros * 1000) rtt\<rparr>\<rparr> in
               (set_loss_detection_timer (detect_lost_packets now sid c), Ok ())))"

section \<open>Closing\<close>

definition close_common :: "connection \<Rightarrow> connection" where
  "close_common c = foldl (\<lambda>c t. stop_timer t c) c timer_variants"

definition set_close_timer :: "instant \<Rightarrow> connection \<Rightarrow> connection" where
  "set_close_timer now c = set_timer Close_timer (now + CLOSE_TIMEOUT) c"

definition kill :: "connection_error \<Rightarrow> connection \<Rightarrow> connection" where
  "kill reason c = (conn_error reason (close_common c))\<lparr>cn_state := CDrained\<rparr>"

definition conn_close :: "instant \<Rightarrow> nat \<Rightarrow> bytes \<Rightarrow> connection \<Rightarrow> connection" where
  "conn_close now error_code reason c =
     (if is_closed (cn_state c) then c
      else (set_close_timer now (close_common c))\<lparr>pending_close := True,
        cn_state := CClosed (Application \<lparr>ac_error_code = error_code, ac_reason = reason\<rparr>)\<rparr>)"

section \<open>Incoming packets\<close>

definition on_packet_authenticated :: "instant \<Rightarrow> space_id \<Rightarrow> nat option \<Rightarrow> connection \<Rightarrow> connection" where
  "on_packet_authenticated now sid num c =
     (case num of
        None \<Rightarrow> c
      | Some n \<Rightarrow>
          let c = (if cn_side c = Server \<and> hi (cn_spaces c SInitial) \<and> sid = SHandshake
                   then discard_space SInitial c else c);
              space = cn_spaces c sid;
              (acks, arm_timer) = packet_received (ps_pending_acks space) now n True (ps_dedup space);
              space = space\<lparr>ps_pending_acks := acks\<rparr>;
              space = (if n \<ge> rx_packet space then space\<lparr>rx_packet := n\<rparr> else space);
              c = upd_space sid (\<lambda>_. space) c in
          if sid = SData then
            if arm_timer then set_timer MaxAckDelay (now + MAX_ACK_DELAY) c else c
          else upd_acks sid set_immediate_ack_required c)"

text \<open>One frame of an Initial or Handshake packet; the result says whether to go on.\<close>

definition early_frame :: "bytes_api \<Rightarrow> instant \<Rightarrow> space_id \<Rightarrow> frame \<Rightarrow> connection \<Rightarrow> connection \<times> (bool, transport_error) outcome" where
  "early_frame B now sid f c =
     (case f of
        Padding \<Rightarrow> (c, Ok True)
      | Ping \<Rightarrow> (c, Ok True)
      | Ack a \<Rightarrow> (case on_ack_received B now sid a c of (c, r) \<Rightarrow> (c, bindO r (\<lambda>_. Ok True)))
      | Crypto _ \<Rightarrow>
          let first_time = \<not> hi (cn_spaces c sid);
              c = upd_space sid (\<lambda>s. s\<lparr>hi := True\<rparr>) c;
              c = (if first_time then upd_space sid (\<lambda>s. s\<lparr>ps_pending := (ps_pending s)\<lparr>hello := True\<rparr>\<rparr>) c else c);
              c = (if space_num sid > space_num (highest_space c) then c\<lparr>highest_space := sid\<rparr> else c) in
          (if is_handshake (cn_state c) \<and> (sid = SInitial \<or> sid = SHandshake)
           then emit Connected (c\<lparr>cn_state := CEstablished\<rparr>) else c, Ok True)
      | Close close \<Rightarrow> (kill (connection_error_from close) c, Ok False)
      | _ \<Rightarrow> (c, Err (transport_error_new PROTOCOL_VIOLATION ''illegal frame in Initial/Handshake packet'')))"

text \<open>One frame of a 1-RTT packet.\<close>

definition data_frame :: "bytes_api \<Rightarrow> instant \<Rightarrow> space_id \<Rightarrow> nat \<Rightarrow> frame \<Rightarrow> connection \<Rightarrow> connection \<times> (bool, transport_error) outcome" where
  "data_frame B now sid payload_len f c =
     (let on_streams = (\<lambda>res. case res of (st, r) \<Rightarrow> (c\<lparr>cn_streams := st\<rparr>, bindO r (\<lambda>_. Ok True))) in
      case f of
        ImmediateAck \<Rightarrow> (upd_acks sid set_immediate_ack_required c, Ok True)
      | Ack a \<Rightarrow> (case on_ack_received B now sid a c of (c, r) \<Rightarrow> (c, bindO r (\<lambda>_. Ok True)))
      | Stream s \<Rightarrow> on_streams (received (cn_streams c) s payload_len)
      | ResetStream r \<Rightarrow> on_streams (received_reset (cn_streams c) r)
      | StopSending s \<Rightarrow> on_streams (received_stop_sending (cn_streams c) s)
      | Close close \<Rightarrow> (kill (connection_error_from close) c, Ok False)
      | _ \<Rightarrow> (c, Ok True))"

text \<open>The loop over the frames of a payload, for one of the two handlers above.\<close>

lemma parser_next_shorter:
  "parser_next B p = Ok (p', Some (Ok f)) \<Longrightarrow> length (fp_bytes p') < length (fp_bytes p)"
  by (auto simp: parser_next_def split: if_splits prod.splits outcome.splits dest!: try_next_shorter)

function frame_loop :: "bytes_api \<Rightarrow> (frame \<Rightarrow> connection \<Rightarrow> connection \<times> (bool, transport_error) outcome) \<Rightarrow>
    frame_parser \<Rightarrow> connection \<Rightarrow> connection \<times> (unit, transport_error) outcome" where
  "frame_loop B handle p c =
     (case parser_next B p of
        Ok (p', None) \<Rightarrow> (c, Ok ())
      | Ok (p', Some (Ok f)) \<Rightarrow>
          (case handle f c of
             (c, Ok True) \<Rightarrow> frame_loop B handle p' c
           | (c, Ok False) \<Rightarrow> (c, Ok ())
           | (c, Err e) \<Rightarrow> (c, Err e)
           | (c, Panic) \<Rightarrow> (c, Panic))
      | Ok (p', Some (Err e)) \<Rightarrow> (c, Err e)
      | Ok (p', Some Panic) \<Rightarrow> (c, Panic)
      | Err e \<Rightarrow> (c, Err e)
      | Panic \<Rightarrow> (c, Panic))"
  by pat_completeness auto
termination
  by (relation "measure (\<lambda>(B, handle, p, c). length (fp_bytes p))") (auto dest: parser_next_shorter)

declare frame_loop.simps [simp del]

definition process_frames :: "bytes_api \<Rightarrow> (frame \<Rightarrow> connection \<Rightarrow> connection \<times> (bool, transport_error) outcome) \<Rightarrow>
    bytes \<Rightarrow> connection \<Rightarrow> connection \<times> (unit, transport_error) outcome" where
  "process_frames B handle payload c =
     (case frame_parser_new payload of
        Ok p \<Rightarrow> frame_loop B handle p c
      | Err e \<Rightarrow> (c, Err e)
      | Panic \<Rightarrow> (c, Panic))"

definition process_early_payload :: "bytes_api \<Rightarrow> instant \<Rightarrow> header \<Rightarrow> bytes \<Rightarrow> connection \<Rightarrow> connection \<times> (unit, transport_error) outcome" where
  "process_early_payload B now h payload c = process_frames B (early_frame B now (header_space h)) payload c"

definition process_payload :: "bytes_api \<Rightarrow> instant \<Rightarrow> nat \<Rightarrow> header \<Rightarrow> bytes \<Rightarrow> connection \<Rightarrow> connection \<times> (unit, transport_error) outcome" where
  "process_payload B now num h payload c =
     process_frames B (data_frame B now (header_space h) (length payload)) payload c"

definition process_packet :: "bytes_api \<Rightarrow> instant \<Rightarrow> nat option \<Rightarrow> header \<Rightarrow> bytes \<Rightarrow> connection \<Rightarrow> connection \<times> (unit, connection_error) outcome" where
  "process_packet B now num h payload c =
     (let lift = (\<lambda>res. case res of (c, r) \<Rightarrow> (c, map_err TransportErr r)) in
      case header_space h of
        SInitial \<Rightarrow> lift (process_early_payload B now h payload c)
      | SHandshake \<Rightarrow> lift (process_early_payload B now h payload c)
      | SData \<Rightarrow>
          (case num of
             None \<Rightarrow> (c, Err (TransportErr (transport_error_new PROTOCOL_VIOLATION ''missing packet number'')))
           | Some pn \<Rightarrow> lift (process_payload B now pn h payload c)))"

definition handle_first_packet :: "bytes_api \<Rightarrow> instant \<Rightarrow> initial_header \<Rightarrow> bytes \<Rightarrow> connection \<Rightarrow> connection \<times> (unit, connection_error) outcome" where
  "handle_first_packet B now ih payload c =
     (let n = pn_expand (ih_number ih) 0 in
      process_packet B now (Some n) (HInitial ih) payload (on_packet_authenticated now SInitial (Some n) c))"

text \<open>The state after an error.\<close>

fun error_state :: "connection_error \<Rightarrow> conn_state" where
  "error_state (ApplicationClosed reason) = CClosed (Application reason)"
| "error_state (TransportClosed reason) = CClosed (Transport reason)"
| "error_state ConnReset = CDrained"
| "error_state (TransportErr err) = CClosed (connection_close_from err)"
| "error_state VersionMismatch = CDraining"

definition settle :: "instant \<Rightarrow> bool \<Rightarrow> bool \<Rightarrow> connection \<times> (unit, connection_error) outcome \<Rightarrow> (connection, unit) outcome" where
  "settle now was_closed was_drained cr =
     (case cr of
        (_, Panic) \<Rightarrow> Panic
      | (c, res) \<Rightarrow>
          let c = (case res of Err e \<Rightarrow> (conn_error e c)\<lparr>cn_state := error_state e\<rparr> | _ \<Rightarrow> c);
              c = (if \<not> was_closed \<and> is_closed (cn_state c)
                   then let c = close_common c in if \<not> is_drained (cn_state c) then set_close_timer now c else c
                   else c);
              c = (if \<not> was_drained \<and> is_drained (cn_state c) then stop_timer Close_timer c else c) in
          Ok c)"

definition handle_data :: "bytes_api \<Rightarrow> instant \<Rightarrow> bytes \<Rightarrow> connection \<Rightarrow> (connection, unit) outcome" where
  "handle_data B now data c =
     (case header_decode B data (length FAKE_CID) SUPPORTED_VERSIONS of
        Err e \<Rightarrow> Ok c
      | Panic \<Rightarrow> Panic
      | Ok (h, payload) \<Rightarrow>
          let was_closed = is_closed (cn_state c);
              was_drained = is_drained (cn_state c);
              sid = header_space h;
              num = map_option (\<lambda>n. pn_expand n (add64 (rx_packet (cn_spaces c sid)) 1)) (header_number h);
              (c, duplicate) = (case num of None \<Rightarrow> (c, False)
                | Some n \<Rightarrow> (case dedup_insert (ps_dedup (cn_spaces c sid)) n of
                    (d, dup) \<Rightarrow> (upd_space sid (\<lambda>s. s\<lparr>ps_dedup := d\<rparr>) c, dup))) in
          if duplicate then Ok c
          else if is_handshake (cn_state c) \<and> is_1rtt h then Ok c
          else
            let c = (if \<not> is_closed (cn_state c) then on_packet_authenticated now sid num c else c) in
            settle now was_closed was_drained (process_packet B now num h payload c))"

section \<open>Outgoing packets\<close>

record sent_frames =
  fr_retransmits :: thin_retransmits
  fr_largest_acked :: "nat option"
  fr_stream_frames :: "stream_meta list"

definition sent_frames_default :: sent_frames where
  "sent_frames_default = \<lparr>fr_retransmits = None, fr_largest_acked = None, fr_stream_frames = []\<rparr>"

definition space_can_send :: "connection \<Rightarrow> space_id \<Rightarrow> sendable_frames" where
  "space_can_send c sid =
     (let can_send = ps_can_send (cn_spaces c sid) in
      if sid = SData then can_send\<lparr>sd_other := sd_other can_send \<or> can_send_stream_data (cn_streams c)\<rparr>
      else can_send)"

definition populate_acks :: "bytes_api \<Rightarrow> instant \<Rightarrow> sent_frames \<Rightarrow> packet_space \<Rightarrow> writer \<Rightarrow> (sent_frames \<times> writer, 'e) outcome" where
  "populate_acks B now sent space w =
     (let acks = ps_pending_acks space;
          sent = sent\<lparr>fr_largest_acked := ars_max (pa_ranges acks)\<rparr>;
          delay_micros = (pa_ack_delay acks now div 1000) mod 2 ^ 64;
          delay = drop_bit ACK_DELAY_EXP delay_micros in
      bindO (ack_encode B delay (pa_ranges acks) None w) (\<lambda>w. Ok (sent, w)))"

text \<open>The four bytes of the CRYPTO frame, one after the other.\<close>

definition put_hello :: "bytes_api \<Rightarrow> writer \<Rightarrow> (writer, 'e) outcome" where
  "put_hello B w =
     bindO (put_uint B 1 0x06 w) (\<lambda>w. bindO (put_uint B 1 0x00 w) (\<lambda>w.
     bindO (put_uint B 1 0x01 w) (\<lambda>w. put_uint B 1 0x00 w)))"

definition populate_packet :: "bytes_api \<Rightarrow> instant \<Rightarrow> space_id \<Rightarrow> connection \<Rightarrow> writer \<Rightarrow> (connection \<times> sent_frames \<times> writer, 'e) outcome" where
  "populate_packet B now sid c w =
     bindO (if \<not> ars_is_empty (pa_ranges (ps_pending_acks (cn_spaces c sid)))
            then populate_acks B now sent_frames_default (cn_spaces c sid) w
            else Ok (sent_frames_default, w)) (\<lambda>(sent, w).
     bindO (if hello (ps_pending (cn_spaces c sid)) then
              bindO (put_hello B w) (\<lambda>w.
                Ok (upd_space sid (\<lambda>s. s\<lparr>ps_pending := (ps_pending s)\<lparr>hello := False\<rparr>, hi := True\<rparr>) c,
                    sent\<lparr>fr_retransmits := thin_update (\<lambda>r. r\<lparr>hello := True\<rparr>) (fr_retransmits sent)\<rparr>, w))
            else Ok (c, sent, w)) (\<lambda>(c, sent, w).
     bindO (if sid = SData \<and> ping_pending (cn_spaces c sid) then
              bindO (put_uint B 1 0x01 w) (\<lambda>w. Ok (upd_space sid (\<lambda>s. s\<lparr>ping_pending := False\<rparr>) c, w))
            else Ok (c, w)) (\<lambda>(c, w).
     if sid = SData then
       bindO (write_control_frames B (cn_streams c) w (ps_pending (cn_spaces c sid)) (fr_retransmits sent)) (\<lambda>(w, pending, rts).
       let c = upd_space sid (\<lambda>s. s\<lparr>ps_pending := pending\<rparr>) c; sent = sent\<lparr>fr_retransmits := rts\<rparr> in
       bindO (write_stream_frames B (cn_streams c) w True) (\<lambda>(st, w, metas).
       Ok (c\<lparr>cn_streams := st\<rparr>, sent\<lparr>fr_stream_frames := metas\<rparr>, w)))
     else Ok (c, sent, w))))"

definition packet_header :: "space_id \<Rightarrow> connection_id \<Rightarrow> packet_number \<Rightarrow> header" where
  "packet_header sid cid num =
     (case sid of
        SInitial \<Rightarrow> HInitial \<lparr>ih_dst_cid = cid, ih_src_cid = cid, ih_token = [], ih_number = num,
                      ih_version = hd SUPPORTED_VERSIONS\<rparr>
      | SHandshake \<Rightarrow> HLong Handshake cid cid num (hd SUPPORTED_VERSIONS)
      | SData \<Rightarrow> HShort False False cid num)"

text \<open>
  The part of \<open>poll_transmit\<close> that builds one packet: number, header, contents, bookkeeping.
  When the connection is closing only the acknowledgements are written.
\<close>

definition build_packet :: "bytes_api \<Rightarrow> instant \<Rightarrow> bool \<Rightarrow> bool \<Rightarrow> space_id \<Rightarrow> connection \<Rightarrow> (connection, 'e) outcome" where
  "build_packet B now close ack_eliciting sid c =
     bindO (get_tx_number (cn_spaces c sid)) (\<lambda>(space, exact_number).
     let c = upd_space sid (\<lambda>_. space) c in
     bindO (pn_new exact_number (case largest_acked_packet space of None \<Rightarrow> 0 | Some n \<Rightarrow> n)) (\<lambda>num.
     bindO (cid_new FAKE_CID) (\<lambda>cid.
     bindO (header_encode B (packet_header sid cid num) \<lparr>w_bytes = [], w_left = INITIAL_MTU\<rparr>) (\<lambda>w.
     bindO (if close then
              bindO (if \<not> ars_is_empty (pa_ranges (ps_pending_acks (cn_spaces c sid)))
                     then bindO (populate_acks B now sent_frames_default (cn_spaces c sid) w) (\<lambda>(_, w). Ok w)
                     else Ok w) (\<lambda>w.
              Ok (c\<lparr>pending_close := False\<rparr>, sent_frames_default, w))
            else populate_packet B now sid c w) (\<lambda>(c, sent, w).
     let c = (if fr_largest_acked sent \<noteq> None then stop_timer MaxAckDelay (upd_acks sid acks_sent c) else c);
         packet_len = INITIAL_MTU - w_left w;
         meta_info = \<lparr>time_sent = now, sp_size = (if ack_eliciting then packet_len else 0) mod 2 ^ 16,
           sp_ack_eliciting = ack_eliciting, sp_largest_acked = fr_largest_acked sent,
           sp_retransmits = fr_retransmits sent, sp_stream_frames = fr_stream_frames sent,
           sp_number = exact_number, sp_space_id = sid\<rparr>;
         path = cn_path c in
     Ok (c\<lparr>cn_path := path\<lparr>sending_queue := sending_queue path @
           [\<lparr>sch_packet = w_bytes w, sch_meta = meta_info\<rparr>]\<rparr>\<rparr>))))))"

text \<open>One turn of the loop of \<open>poll_transmit\<close> over the spaces.\<close>

definition poll_space :: "bytes_api \<Rightarrow> instant \<Rightarrow> bool \<Rightarrow> bool \<Rightarrow> space_id \<Rightarrow> connection \<times> bool \<Rightarrow> (connection \<times> bool, 'e) outcome" where
  "poll_space B now close congestion_blocked sid cs =
     (case cs of (c, sent_any) \<Rightarrow>
        let can_send = space_can_send c sid in
        if sendable_is_empty can_send \<and> \<not> (close \<and> sid = highest_space c) then Ok (c, sent_any)
        else
          let c = (if cn_side c = Client \<and> sid = SHandshake \<and> hi (cn_spaces c SInitial)
                   then discard_space SInitial c else c);
              ack_eliciting = (sd_other can_send \<or> sid = SData \<and> can_send_stream_data (cn_streams c)) in
          if ack_eliciting \<and> congestion_blocked then Ok (c\<lparr>app_limited := False\<rparr>, sent_any)
          else bindO (build_packet B now close ack_eliciting sid c) (\<lambda>c. Ok (c, True)))"

text \<open>The end of \<open>poll_transmit\<close>: whether to call again, and whether the application limits the rate.\<close>

definition finish_poll :: "connection \<Rightarrow> connection \<times> bool" where
  "finish_poll c =
     (let more_to_send = list_ex (\<lambda>sid. \<not> sendable_is_empty (space_can_send c sid)) space_variants in
      (c\<lparr>app_limited := (\<not> more_to_send \<and>
         if_bytes (np_in_flight (cn_path c)) < nr_window (congestion (cn_path c)))\<rparr>, more_to_send))"

definition poll_transmit :: "bytes_api \<Rightarrow> instant \<Rightarrow> connection \<Rightarrow> (connection \<times> bool, 'e) outcome" where
  "poll_transmit B now c =
     (let close = (case cn_state c of CDraining \<Rightarrow> True | CClosed _ \<Rightarrow> True | _ \<Rightarrow> False) in
      if cn_state c = CDrained then Ok (c, False)
      else if close \<and> \<not> pending_close c then Ok (c, False)
      else
        let congestion_blocked = (if_bytes (np_in_flight (cn_path c)) \<ge> nr_window (congestion (cn_path c))) in
        bindO (poll_space B now close congestion_blocked SInitial (c, False)) (\<lambda>cs.
        bindO (poll_space B now close congestion_blocked SHandshake cs) (\<lambda>cs.
        bindO (poll_space B now close congestion_blocked SData cs) (\<lambda>(c, sent_any).
        Ok (if \<not> sent_any then (c, False) else finish_poll c)))))"

lemma poll_transmit_unfold:
  "poll_transmit B now c =
     (let close = (case cn_state c of CDraining \<Rightarrow> True | CClosed _ \<Rightarrow> True | _ \<Rightarrow> False) in
      if cn_state c = CDrained then Ok (c, False)
      else if close \<and> \<not> pending_close c then Ok (c, False)
      else
        let congestion_blocked = (if_bytes (np_in_flight (cn_path c)) \<ge> nr_window (congestion (cn_path c))) in
        bindO (poll_space B now close congestion_blocked SInitial (c, False)) (\<lambda>cs.
        bindO (poll_space B now close congestion_blocked SHandshake cs) (\<lambda>cs.
        bindO (poll_space B now close congestion_blocked SData cs) (\<lambda>(c, sent_any).
        if \<not> sent_any then Ok (c, False)
        else
          let more_to_send = list_ex (\<lambda>sid. \<not> sendable_is_empty (space_can_send c sid)) space_variants in
          Ok (c\<lparr>app_limited := (\<not> more_to_send \<and>
                if_bytes (np_in_flight (cn_path c)) < nr_window (congestion (cn_path c)))\<rparr>, more_to_send)))))"
  unfolding poll_transmit_def finish_poll_def Let_def by (simp only: if_distrib [where f = Ok])

section \<open>Timeouts\<close>

definition on_loss_detection_timeout :: "instant \<Rightarrow> connection \<Rightarrow> connection" where
  "on_loss_detection_timeout now c =
     set_loss_detection_timer
       (case loss_time_and_space c of
          Some (_, sid) \<Rightarrow> detect_lost_packets now sid c
        | None \<Rightarrow>
            foldl (\<lambda>c sid. if ps_in_flight (cn_spaces c sid) > 0 then detect_lost_packets now sid c else c)
              c space_variants)"

definition handle_timeout :: "timer \<Rightarrow> instant \<Rightarrow> connection \<Rightarrow> connection" where
  "handle_timeout t now c =
     (case t of
        LossDetection \<Rightarrow> on_loss_detection_timeout now c
      | Close_timer \<Rightarrow> c\<lparr>cn_state := CDrained\<rparr>
      | MaxAckDelay \<Rightarrow> upd_acks SData on_ack_delay_timeout c
      | _ \<Rightarrow> c)"

section \<open>The application's view\<close>

text \<open>The assertions of \<open>recv_stream\<close> and \<open>send_stream\<close>.\<close>

definition may_recv :: "connection \<Rightarrow> stream_id \<Rightarrow> bool" where
  "may_recv c sid \<longleftrightarrow> stream_dir sid = Bi \<or> initiator sid \<noteq> cn_side c"

definition may_send :: "connection \<Rightarrow> stream_id \<Rightarrow> bool" where
  "may_send c sid \<longleftrightarrow> stream_dir sid = Bi \<or> initiator sid = cn_side c"

definition conn_open_stream :: "dir \<Rightarrow> connection \<Rightarrow> (connection \<times> stream_id, 'e) outcome" where
  "conn_open_stream d c =
     (if is_closed (cn_state c) then Panic
      else case open_stream (cn_streams c) d of (st, sid) \<Rightarrow> Ok (c\<lparr>cn_streams := st\<rparr>, sid))"

definition conn_write :: "stream_id \<Rightarrow> bytes \<Rightarrow> connection \<Rightarrow> (connection \<times> (unit, write_error) outcome, 'e) outcome" where
  "conn_write sid data c =
     (if \<not> may_send c sid then Panic
      else case sstream_write (is_closed (cn_state c)) (cn_streams c) sid data of
        (st, r) \<Rightarrow> Ok (c\<lparr>cn_streams := st\<rparr>, r))"

definition conn_finish :: "stream_id \<Rightarrow> connection \<Rightarrow> (connection, finish_error) outcome" where
  "conn_finish sid c =
     (if \<not> may_send c sid then Panic
      else bindO (sstream_finish (cn_streams c) sid) (\<lambda>st. Ok (c\<lparr>cn_streams := st\<rparr>)))"

end
