(* ===== verification/Connection_Inv.thy ===== *)
theory Connection_Inv
  imports Connection
begin

text \<open>
  The invariant of a connection that ties its parts together: in every packet number space the
  packets in flight are numbered below the next number and their sizes add up; the packets that
  wait in the sending queue have numbers of their own; the path counts exactly the bytes the
  spaces have in flight.  Every handler of \<open>mod.rs\<close> keeps it.
\<close>

section \<open>The invariant\<close>

text \<open>What the invariant asks of the description of a sent or queued packet.\<close>

definition packet_ok :: "packet_space \<Rightarrow> sent_packet \<Rightarrow> bool" where
  "packet_ok s p \<longleftrightarrow> sp_size p < 2 ^ 16 \<and> (\<forall>n. sp_largest_acked p = Some n \<longrightarrow> n \<le> rx_packet s)"

definition space_ok :: "packet_space \<Rightarrow> bool" where
  "space_ok s \<longleftrightarrow> space_inv s \<and> acks_inv (ps_pending_acks s) \<and>
     (\<forall>x\<in>elems (pa_ranges (ps_pending_acks s)). x \<le> rx_packet s) \<and>
     (\<forall>n p. map_of (sent_packets s) n = Some p \<longrightarrow> packet_ok s p)"

definition packet_key :: "scheduled_packet \<Rightarrow> space_id \<times> nat" where
  "packet_key q = (sp_space_id (sch_meta q), sp_number (sch_meta q))"

definition queued_ok :: "(space_id \<Rightarrow> packet_space) \<Rightarrow> scheduled_packet \<Rightarrow> bool" where
  "queued_ok spaces q \<longleftrightarrow>
     (let m = sch_meta q; s = spaces (sp_space_id m) in
      sp_number m < next_packet_number s \<and> map_of (sent_packets s) (sp_number m) = None \<and>
      packet_ok s m \<and> length (sch_packet q) \<le> INITIAL_MTU)"

definition spaces_in_flight :: "(space_id \<Rightarrow> packet_space) \<Rightarrow> nat" where
  "spaces_in_flight spaces =
     ps_in_flight (spaces SInitial) + ps_in_flight (spaces SHandshake) + ps_in_flight (spaces SData)"

text \<open>
  \<open>first_packet\<close> is unset until a packet was sent, and the first packet of a path has number 0
  in its space, so that \<open>remove_in_flight\<close> never takes a packet for one of an older path.
\<close>

definition first_ok :: "(space_id \<Rightarrow> packet_space) \<Rightarrow> network_path \<Rightarrow> bool" where
  "first_ok spaces path \<longleftrightarrow>
     (case first_packet path of
        Some n \<Rightarrow> n = 0
      | None \<Rightarrow> (\<forall>sid. sent_packets (spaces sid) = []) \<and>
          (case sending_queue path of
             [] \<Rightarrow> \<forall>sid. next_packet_number (spaces sid) = 0
           | q # _ \<Rightarrow> sp_number (sch_meta q) = 0))"

definition path_ok :: "(space_id \<Rightarrow> packet_space) \<Rightarrow> network_path \<Rightarrow> bool" where
  "path_ok spaces path \<longleftrightarrow>
     distinct (map packet_key (sending_queue path)) \<and> (\<forall>q\<in>set (sending_queue path). queued_ok spaces q) \<and>
     if_bytes (np_in_flight path) = spaces_in_flight spaces \<and> first_ok spaces path"

definition conn_inv :: "connection \<Rightarrow> bool" where
  "conn_inv c \<longleftrightarrow> (\<forall>sid. space_ok (cn_spaces c sid)) \<and> path_ok (cn_spaces c) (cn_path c)"

text \<open>
  The range in which the counters of a connection do not overflow: fewer than \<open>2\<^sup>4\<^sup>0\<close> packets
  sent and received packet numbers below \<open>2\<^sup>6\<^sup>2\<close>, the limit of the protocol.
\<close>

definition bounded :: "connection \<Rightarrow> bool" where
  "bounded c \<longleftrightarrow> (\<forall>sid. next_packet_number (cn_spaces c sid) \<le> 2 ^ 40 \<and> rx_packet (cn_spaces c sid) < 2 ^ 62)"

text \<open>The fields the invariant reads.\<close>

definition space_core where
  "space_core s = (sent_packets s, ps_in_flight s, next_packet_number s, rx_packet s,
     pa_ranges (ps_pending_acks s), largest_packet (ps_pending_acks s))"

definition path_core where
  "path_core p = (sending_queue p, if_bytes (np_in_flight p), first_packet p)"

definition conn_core where
  "conn_core c = ((\<lambda>sid. space_core (cn_spaces c sid)), path_core (cn_path c))"

lemma space_ok_cong:
  assumes "space_core s = space_core s'"
  shows "space_ok s = space_ok s'"
proof -
  have "acks_inv (ps_pending_acks s) = acks_inv (ps_pending_acks s')"
    using assms by (intro acks_inv_cong) (simp_all add: space_core_def)
  then show ?thesis using assms by (simp add: space_ok_def space_inv_def packet_ok_def space_core_def)
qed

text \<open>The path also stays as it is when more packets were received.\<close>

lemma path_ok_grow:
  assumes "path_ok spaces path" "path_core path' = path_core path"
    and same: "\<And>k. sent_packets (spaces' k) = sent_packets (spaces k) \<and> ps_in_flight (spaces' k) = ps_in_flight (spaces k) \<and>
      next_packet_number (spaces' k) = next_packet_number (spaces k) \<and> rx_packet (spaces k) \<le> rx_packet (spaces' k)"
  shows "path_ok spaces' path'"
proof -
  have "queued_ok spaces' q" if "queued_ok spaces q" for q
    using that same [of "sp_space_id (sch_meta q)"] by (auto simp: queued_ok_def packet_ok_def Let_def intro: le_trans)
  moreover have "spaces_in_flight spaces' = spaces_in_flight spaces"
    using same by (simp add: spaces_in_flight_def)
  moreover have "first_ok spaces' path' = first_ok spaces path"
    using same assms(2) by (simp add: first_ok_def path_core_def cong: option.case_cong list.case_cong)
  ultimately show ?thesis using assms(1,2) by (auto simp: path_ok_def path_core_def)
qed

lemma path_ok_cong:
  assumes "\<And>sid. space_core (spaces sid) = space_core (spaces' sid)" "path_core path = path_core path'"
  shows "path_ok spaces path = path_ok spaces' path'"
proof -
  have "sent_packets (spaces sid) = sent_packets (spaces' sid)" "ps_in_flight (spaces sid) = ps_in_flight (spaces' sid)"
    "next_packet_number (spaces sid) = next_packet_number (spaces' sid)" "rx_packet (spaces sid) = rx_packet (spaces' sid)" for sid
    using assms(1) [of sid] by (simp_all add: space_core_def)
  then show ?thesis
    using assms(2) path_ok_grow [of spaces path path' spaces'] path_ok_grow [of spaces' path' path spaces] by auto
qed

lemma conn_inv_cong:
  assumes "conn_core c = conn_core c'"
  shows "conn_inv c = conn_inv c'" "bounded c = bounded c'"
proof -
  have core: "space_core (cn_spaces c sid) = space_core (cn_spaces c' sid)" for sid
    using assms unfolding conn_core_def by (simp add: fun_eq_iff)
  show "conn_inv c = conn_inv c'"
    using assms space_ok_cong [OF core] path_ok_cong [OF core] by (simp add: conn_inv_def conn_core_def)
  show "bounded c = bounded c'" using core by (simp add: bounded_def space_core_def)
qed

section \<open>Forgetting a packet\<close>

lemma space_ok_bound:
  assumes "space_ok s"
  shows "ps_in_flight s \<le> 2 ^ 16 * next_packet_number s"
proof -
  let ?m = "map_of (sent_packets s)"
  have inv: "space_inv s" using assms by (simp add: space_ok_def)
  then have sub: "dom ?m \<subseteq> {..<next_packet_number s}" by (auto simp: space_inv_def)
  have "ps_in_flight s = (\<Sum>k\<in>dom ?m. sp_size (the (?m k)))"
    using inv by (simp add: space_inv_def bt.total_eq_sum)
  also have "\<dots> \<le> (\<Sum>k\<in>dom ?m. 2 ^ 16)"
    using assms by (intro sum_mono) (auto simp: space_ok_def packet_ok_def less_imp_le)
  also have "\<dots> \<le> 2 ^ 16 * next_packet_number s"
    using card_mono [OF _ sub] by simp
  finally show ?thesis .
qed

lemma in_flight_small:
  assumes "conn_inv c" "bounded c"
  shows "ps_in_flight (cn_spaces c sid) \<le> 2 ^ 56" "spaces_in_flight (cn_spaces c) \<le> 2 ^ 58"
proof -
  have *: "ps_in_flight (cn_spaces c sid) \<le> 2 ^ 56" for sid
  proof -
    have "ps_in_flight (cn_spaces c sid) \<le> 2 ^ 16 * next_packet_number (cn_spaces c sid)"
      using assms(1) unfolding conn_inv_def by (intro space_ok_bound) simp
    also have "\<dots> \<le> 2 ^ 16 * 2 ^ 40" using assms(2) by (simp add: bounded_def)
    finally show ?thesis by simp
  qed
  show "ps_in_flight (cn_spaces c sid) \<le> 2 ^ 56" by (rule *)
  show "spaces_in_flight (cn_spaces c) \<le> 2 ^ 58"
    using * [of SInitial] * [of SHandshake] * [of SData] by (simp add: spaces_in_flight_def)
qed

lemma in_flight_le: "ps_in_flight (spaces sid) \<le> spaces_in_flight spaces"
  by (cases sid) (simp_all add: spaces_in_flight_def)

lemma spaces_in_flight_upd:
  "spaces_in_flight (spaces(sid := s)) = spaces_in_flight spaces - ps_in_flight (spaces sid) + ps_in_flight s"
  by (cases sid) (simp_all add: spaces_in_flight_def)

lemma space_ok_take:
  assumes "space_ok s" "ps_in_flight s < 2 ^ 64"
  shows "space_ok (fst (ps_take s n))"
proof -
  have same: "rx_packet (fst (ps_take s n)) = rx_packet s" "ps_pending_acks (fst (ps_take s n)) = ps_pending_acks s"
    by (auto simp: ps_take_def split: option.splits)
  show ?thesis
    using assms ps_take_inv [of s n] unfolding space_ok_def packet_ok_def same by auto
qed

lemma ps_take_other [simp]:
  "next_packet_number (fst (ps_take s n)) = next_packet_number s" "rx_packet (fst (ps_take s n)) = rx_packet s"
  "ps_pending_acks (fst (ps_take s n)) = ps_pending_acks s" "largest_acked_packet (fst (ps_take s n)) = largest_acked_packet s"
  by (auto simp: ps_take_def split: option.splits)

lemma queued_ok_take:
  assumes "queued_ok spaces q" "space_ok (spaces sid)" "ps_in_flight (spaces sid) < 2 ^ 64"
  shows "queued_ok (spaces(sid := fst (ps_take (spaces sid) n))) q"
  using assms ps_take_inv [of "spaces sid" n]
  by (auto simp: queued_ok_def Let_def packet_ok_def space_ok_def)

text \<open>A packet that leaves its space and the path together.\<close>

lemma forget_ok:
  assumes "path_ok spaces path" "space_ok (spaces sid)" "map_of (sent_packets (spaces sid)) n = Some p"
    "spaces_in_flight spaces < 2 ^ 64"
  shows "path_ok (spaces(sid := fst (ps_take (spaces sid) n))) (fst (remove_in_flight path n p)) \<and>
    snd (remove_in_flight path n p)"
proof -
  let ?s = "fst (ps_take (spaces sid) n)"
  have small: "ps_in_flight (spaces sid) < 2 ^ 64" using assms(4) in_flight_le [of spaces sid] by simp
  have take: "ps_in_flight (spaces sid) = ps_in_flight ?s + sp_size p"
    using ps_take_inv [of "spaces sid" n] assms(2,3) small by (auto simp: space_ok_def)
  have first: "first_packet path = Some 0"
  proof -
    have "sent_packets (spaces sid) \<noteq> []" using assms(3) by auto
    then show ?thesis using assms(1) by (auto simp: path_ok_def first_ok_def split: option.splits)
  qed
  have "if_bytes (np_in_flight path) = spaces_in_flight spaces" using assms(1) by (simp add: path_ok_def)
  then have "sub64 (if_bytes (np_in_flight path)) (sp_size p) = spaces_in_flight spaces - sp_size p"
    using assms(4) take in_flight_le [of spaces sid] by (simp add: sub64_small)
  moreover have "spaces_in_flight (spaces(sid := ?s)) = spaces_in_flight spaces - sp_size p"
    using take in_flight_le [of spaces sid] by (simp add: spaces_in_flight_upd)
  ultimately show ?thesis
    using assms(1) first queued_ok_take [where spaces = spaces and sid = sid and n = n, OF _ assms(2) small]
    by (simp add: path_ok_def remove_in_flight_def in_flight_remove_def first_ok_def)
qed

section \<open>Handlers\<close>

definition good :: "connection \<Rightarrow> bool" where
  "good c \<longleftrightarrow> conn_inv c \<and> bounded c"

lemma good_cong: "conn_core c = conn_core c' \<Longrightarrow> good c = good c'"
  unfolding good_def using conn_inv_cong [of c c'] by blast

lemma conn_fields [simp]:
  "cn_spaces (upd_space sid f c) = (cn_spaces c)(sid := f (cn_spaces c sid))"
  "cn_path (upd_space sid f c) = cn_path c" "cn_state (upd_space sid f c) = cn_state c"
  "cn_streams (upd_space sid f c) = cn_streams c" "cn_side (upd_space sid f c) = cn_side c"
  "cn_timers (upd_space sid f c) = cn_timers c" "app_limited (upd_space sid f c) = app_limited c"
  "cn_spaces (set_timer t i c) = cn_spaces c" "cn_path (set_timer t i c) = cn_path c"
  "cn_state (set_timer t i c) = cn_state c" "cn_streams (set_timer t i c) = cn_streams c"
  "cn_side (set_timer t i c) = cn_side c"
  "cn_spaces (stop_timer t c) = cn_spaces c" "cn_path (stop_timer t c) = cn_path c"
  "cn_state (stop_timer t c) = cn_state c" "cn_streams (stop_timer t c) = cn_streams c"
  "cn_side (stop_timer t c) = cn_side c"
  "cn_spaces (emit ev c) = cn_spaces c" "cn_path (emit ev c) = cn_path c" "cn_state (emit ev c) = cn_state c"
  "cn_side (emit ev c) = cn_side c" "cn_timers (emit ev c) = cn_timers c"
  by (simp_all add: upd_space_def set_timer_def stop_timer_def emit_def)

lemma upd_acks_fields [simp]:
  "cn_spaces (upd_acks sid f c) = (cn_spaces c)(sid := (cn_spaces c sid)\<lparr>ps_pending_acks := f (ps_pending_acks (cn_spaces c sid))\<rparr>)"
  "cn_path (upd_acks sid f c) = cn_path c" "cn_state (upd_acks sid f c) = cn_state c"
  "cn_streams (upd_acks sid f c) = cn_streams c" "cn_side (upd_acks sid f c) = cn_side c"
  "cn_timers (upd_acks sid f c) = cn_timers c" "app_limited (upd_acks sid f c) = app_limited c"
  by (simp_all add: upd_acks_def)

text \<open>Loss detection timers touch nothing but the timers.\<close>

lemma set_loss_detection_timer_only: "set_loss_detection_timer c = c\<lparr>cn_timers := cn_timers (set_loss_detection_timer c)\<rparr>"
proof -
  have "set_timer t i c = c\<lparr>cn_timers := cn_timers (set_timer t i c)\<rparr>"
    "stop_timer t c = c\<lparr>cn_timers := cn_timers (stop_timer t c)\<rparr>" for t i
    by (simp_all add: set_timer_def stop_timer_def)
  then show ?thesis
    unfolding set_loss_detection_timer_def Let_def by (simp split: option.split prod.split bool.split)
qed

lemma set_loss_detection_timer_fields [simp]:
  "cn_spaces (set_loss_detection_timer c) = cn_spaces c" "cn_path (set_loss_detection_timer c) = cn_path c"
  "cn_state (set_loss_detection_timer c) = cn_state c" "cn_streams (set_loss_detection_timer c) = cn_streams c"
  "cn_side (set_loss_detection_timer c) = cn_side c" "app_limited (set_loss_detection_timer c) = app_limited c"
  "pending_close (set_loss_detection_timer c) = pending_close c"
  by (subst set_loss_detection_timer_only, simp)+

lemma good_timer [simp]: "good (set_loss_detection_timer c) = good c"
  by (rule good_cong) (simp add: conn_core_def)

text \<open>The two places where a packet is forgotten.\<close>

lemma good_forget:
  assumes "good c" "map_of (sent_packets (cn_spaces c sid)) n = Some p"
    "\<And>k. k \<noteq> sid \<Longrightarrow> cn_spaces c' k = cn_spaces c k"
    "space_core (cn_spaces c' sid) = space_core (fst (ps_take (cn_spaces c sid) n))"
    "path_core (cn_path c') = path_core (fst (remove_in_flight (cn_path c) n p))"
  shows "good c'"
proof -
  let ?s = "fst (ps_take (cn_spaces c sid) n)"
  have small: "spaces_in_flight (cn_spaces c) < 2 ^ 64" "ps_in_flight (cn_spaces c sid) < 2 ^ 64"
    using in_flight_small(1) [of c sid] in_flight_small(2) [of c] assms(1) by (simp_all add: good_def)
  have inv: "\<And>sid. space_ok (cn_spaces c sid)" "path_ok (cn_spaces c) (cn_path c)"
    using assms(1) by (auto simp: good_def conn_inv_def)
  have "space_ok ?s" using space_ok_take inv(1) small(2) by blast
  then have ok: "space_ok (cn_spaces c' sid)" using space_ok_cong [OF assms(4)] by simp
  have "space_core (cn_spaces c' k) = space_core (((cn_spaces c)(sid := ?s)) k)" for k
    using assms(3,4) by simp
  then have "path_ok (cn_spaces c') (cn_path c')"
    using path_ok_cong assms(5) forget_ok [OF inv(2) inv(1) assms(2) small(1)] by blast
  moreover have "space_ok (cn_spaces c' k)" for k
    using ok inv(1) assms(3) by (cases "k = sid") auto
  moreover have "next_packet_number (cn_spaces c' k) = next_packet_number (cn_spaces c k) \<and>
      rx_packet (cn_spaces c' k) = rx_packet (cn_spaces c k)" for k
    using assms(3,4) by (cases "k = sid") (auto simp: space_core_def)
  ultimately show ?thesis using assms(1) by (simp add: good_def conn_inv_def bounded_def)
qed

lemma good_lose_packet:
  assumes "good c" "map_of (sent_packets (cn_spaces c sid)) n = Some p"
  shows "good (lose_packet now sid c (n, p))"
  by (rule good_forget [OF assms])
    (auto simp: lose_packet_def Let_def space_core_def path_core_def ps_take_def split: prod.splits option.splits)

lemma lose_packet_spaces:
  "sent_packets (cn_spaces (lose_packet now sid c (n, p)) sid) = bt_remove n (sent_packets (cn_spaces c sid))"
  if "map_of (sent_packets (cn_spaces c sid)) n \<noteq> None"
  using that by (auto simp: lose_packet_def Let_def ps_take_def split: prod.splits option.splits)

lemma good_lose_packets:
  assumes "good c" "distinct (map fst ps)" "\<forall>(n, p)\<in>set ps. map_of (sent_packets (cn_spaces c sid)) n = Some p"
  shows "good (foldl (lose_packet now sid) c ps)"
  using assms
proof (induction ps arbitrary: c)
  case (Cons np ps)
  obtain n p where np: "np = (n, p)" by (cases np)
  have here: "map_of (sent_packets (cn_spaces c sid)) n = Some p" using Cons.prems(3) np by simp
  have "\<forall>(k, q)\<in>set ps. map_of (sent_packets (cn_spaces (lose_packet now sid c np) sid)) k = Some q"
    using Cons.prems(2,3) here np by (force simp: lose_packet_spaces map_of_bt_remove)
  then show ?case using Cons good_lose_packet [OF Cons.prems(1) here] np by simp
qed simp

lemma good_upd_space:
  assumes "good c" "space_core (f (cn_spaces c sid)) = space_core (cn_spaces c sid)"
  shows "good (upd_space sid f c)"
proof -
  have "conn_core (upd_space sid f c) = conn_core c" using assms(2) by (auto simp: conn_core_def)
  then show ?thesis using assms(1) good_cong by blast
qed

lemma good_detect_lost_packets:
  assumes "good c"
  shows "good (detect_lost_packets now sid c)"
proof -
  have *: "good (upd_space sid (\<lambda>s. s\<lparr>loss_time := t\<rparr>) c)" for t
    by (rule good_upd_space [OF assms]) (simp add: space_core_def)
  have ok: "bt_ok (sent_packets (cn_spaces c sid))"
    using assms by (auto simp: good_def conn_inv_def space_ok_def space_inv_def)
  then have dist: "distinct (map fst (sent_packets (cn_spaces c sid)))"
    by (simp add: bt_ok_def strict_sorted_iff)
  have **: "good (foldl (lose_packet now sid) (upd_space sid (\<lambda>s. s\<lparr>loss_time := t\<rparr>) c)
      (filter P (takeWhile Q (sent_packets (cn_spaces c sid)))))" for t P Q
  proof (rule good_lose_packets [OF *])
    show "distinct (map fst (filter P (takeWhile Q (sent_packets (cn_spaces c sid)))))"
      using dist by (metis distinct_map_filter distinct_append map_append takeWhile_dropWhile_id)
    show "\<forall>(n, p)\<in>set (filter P (takeWhile Q (sent_packets (cn_spaces c sid)))).
        map_of (sent_packets (cn_spaces (upd_space sid (\<lambda>s. s\<lparr>loss_time := t\<rparr>) c) sid)) n = Some p"
      using dist by (auto dest!: set_takeWhileD intro: map_of_is_SomeI)
  qed
  show ?thesis
    unfolding detect_lost_packets_def Let_def using * ** by (simp split: option.split)
qed

lemma good_upd_acks:
  assumes "good c" "acks_inv (f (ps_pending_acks (cn_spaces c sid)))"
    "elems (pa_ranges (f (ps_pending_acks (cn_spaces c sid)))) \<subseteq> elems (pa_ranges (ps_pending_acks (cn_spaces c sid)))"
  shows "good (upd_acks sid f c)"
proof -
  have ok: "space_ok (cn_spaces c k)" for k using assms(1) by (simp add: good_def conn_inv_def)
  have "space_ok ((cn_spaces c sid)\<lparr>ps_pending_acks := f (ps_pending_acks (cn_spaces c sid))\<rparr>)"
    using ok [of sid] assms(2,3) unfolding space_ok_def space_inv_def packet_ok_def by (simp add: subset_iff)
  then have "space_ok (cn_spaces (upd_acks sid f c) k)" for k using ok by simp
  moreover have "path_ok (cn_spaces (upd_acks sid f c)) (cn_path c)"
    by (rule path_ok_grow [of "cn_spaces c" "cn_path c"]) (use assms(1) in \<open>simp_all add: good_def conn_inv_def\<close>)
  ultimately show ?thesis using assms(1) by (simp add: good_def conn_inv_def bounded_def)
qed

lemma good_ack_packet:
  assumes "good c"
  shows "good (fst (ack_packet sid (c, largest) pn))"
proof (cases "map_of (sent_packets (cn_spaces c sid)) pn")
  case None
  then show ?thesis using assms by (simp add: ack_packet_def ps_take_def)
next
  case (Some p)
  let ?s = "fst (ps_take (cn_spaces c sid) pn)"
  let ?c = "upd_space sid (\<lambda>_. ?s) c"
  define c1 where "c1 = ?c\<lparr>cn_path := fst (remove_in_flight (cn_path c) pn p)\<rparr>"
  have c1: "good c1" by (rule good_forget [OF assms Some]) (simp_all add: c1_def)
  have ok: "space_ok (cn_spaces c sid)" "bounded c" using assms by (auto simp: good_def conn_inv_def)
  then have p: "sp_number p = pn" "packet_ok (cn_spaces c sid) p"
    using Some by (auto simp: space_ok_def space_inv_def)
  define f where "f a = (case sp_largest_acked p of None \<Rightarrow> a | Some n \<Rightarrow> subtract_below a (add64 n 1))" for a
  have f: "acks_inv (f (ps_pending_acks ?s)) \<and> elems (pa_ranges (f (ps_pending_acks ?s))) \<subseteq> elems (pa_ranges (ps_pending_acks ?s))"
  proof (cases "sp_largest_acked p")
    case (Some n)
    then have "n < 2 ^ 62" using p(2) ok(2) by (fastforce simp: packet_ok_def bounded_def intro: le_less_trans)
    then have "add64 n 1 < u64_max" by (simp add: add64_small u64_max_def)
    then show ?thesis
      using subtract_below_spec [of "ps_pending_acks ?s" "add64 n 1"] ok(1) Some by (simp add: f_def space_ok_def)
  qed (use ok in \<open>simp add: f_def space_ok_def\<close>)
  have "good (upd_acks sid f c1)"
    using f by (intro good_upd_acks [OF c1]) (simp_all add: c1_def)
  moreover have "conn_core (fst (ack_packet sid (c, largest) pn)) = conn_core (upd_acks sid f c1)"
    using Some p(1)
    by (cases "sp_largest_acked p")
      (auto simp: ack_packet_def ps_take_def Let_def conn_core_def space_core_def path_core_def c1_def f_def
        split: prod.splits)
  ultimately show ?thesis using good_cong by blast
qed

lemma good_ack_packets:
  "good c \<Longrightarrow> good (fst (foldl (ack_packet sid) (c, largest) pns))"
proof (induction pns arbitrary: c largest)
  case (Cons pn pns)
  obtain d l where step: "ack_packet sid (c, largest) pn = (d, l)" by fastforce
  have "good d" using good_ack_packet [OF Cons.prems, of sid largest pn] step by simp
  then show ?case using Cons.IH step by simp
qed simp

lemma good_on_ack_received:
  assumes "good c"
  shows "good (fst (on_ack_received B now sid a c))"
proof -
  have upd: "good ((upd_space sid f d)\<lparr>cn_path := (cn_path d)\<lparr>np_rtt := r\<rparr>\<rparr>)"
    if "good d" "\<And>s. space_core (f s) = space_core s" for d f r
  proof -
    have "conn_core ((upd_space sid f d)\<lparr>cn_path := (cn_path d)\<lparr>np_rtt := r\<rparr>\<rparr>) = conn_core d"
      using that(2) by (auto simp: conn_core_def path_core_def)
    then show ?thesis using that(1) good_cong by blast
  qed
  have "good (fst (foldl (ack_packet sid) (c, None) pns))" for pns
    using good_ack_packets [OF assms] .
  then have "good d" if "foldl (ack_packet sid) (c, None) pns = (d, x)" for pns d x
    using that by (metis fst_conv)
  then show ?thesis
    unfolding on_ack_received_def Let_def
    by (auto simp: assms space_core_def intro!: good_detect_lost_packets upd split: outcome.split prod.split option.split)
qed

text \<open>Discarding a space takes all its packets off the path.\<close>

lemma remove_all_in_flight:
  assumes "first_packet path = Some 0" "sum_list (map (sp_size \<circ> snd) ps) \<le> if_bytes (np_in_flight path)"
    "if_bytes (np_in_flight path) < 2 ^ 64"
  shows "path_core (foldl (\<lambda>path (n, p). fst (remove_in_flight path n p)) path ps) =
    (sending_queue path, if_bytes (np_in_flight path) - sum_list (map (sp_size \<circ> snd) ps), Some 0)"
  using assms
proof (induction ps arbitrary: path)
  case (Cons np ps)
  obtain n p where np: "np = (n, p)" by (cases np)
  let ?path = "fst (remove_in_flight path n p)"
  have step: "first_packet ?path = Some 0" "sending_queue ?path = sending_queue path"
    "if_bytes (np_in_flight ?path) = if_bytes (np_in_flight path) - sp_size p"
    using Cons.prems np by (auto simp: remove_in_flight_def in_flight_remove_def sub64_small)
  then show ?case using Cons.IH [of ?path] Cons.prems np by simp
qed (simp add: path_core_def)

lemma discard_space_path:
  "cn_path (foldl (\<lambda>c (pn, p). c\<lparr>cn_path := fst (remove_in_flight (cn_path c) pn p)\<rparr>) c ps) =
     foldl (\<lambda>path (n, p). fst (remove_in_flight path n p)) (cn_path c) ps"
  "cn_spaces (foldl (\<lambda>c (pn, p). c\<lparr>cn_path := fst (remove_in_flight (cn_path c) pn p)\<rparr>) c ps) = cn_spaces c"
  "cn_state (foldl (\<lambda>c (pn, p). c\<lparr>cn_path := fst (remove_in_flight (cn_path c) pn p)\<rparr>) c ps) = cn_state c"
  "cn_streams (foldl (\<lambda>c (pn, p). c\<lparr>cn_path := fst (remove_in_flight (cn_path c) pn p)\<rparr>) c ps) = cn_streams c"
  "cn_side (foldl (\<lambda>c (pn, p). c\<lparr>cn_path := fst (remove_in_flight (cn_path c) pn p)\<rparr>) c ps) = cn_side c"
  by (induction ps arbitrary: c) (auto split: prod.split)

lemma discard_space_fields [simp]:
  "cn_spaces (discard_space sid c) =
     (cn_spaces c)(sid := (cn_spaces c sid)\<lparr>loss_time := None, ps_in_flight := 0, sent_packets := []\<rparr>)"
  "cn_state (discard_space sid c) = cn_state c" "cn_streams (discard_space sid c) = cn_streams c"
  "cn_side (discard_space sid c) = cn_side c"
  by (simp_all add: discard_space_def discard_space_path)

lemma discard_space_cn_path:
  "cn_path (discard_space sid c) =
     foldl (\<lambda>path (n, p). fst (remove_in_flight path n p)) (cn_path c) (sent_packets (cn_spaces c sid))"
  by (simp add: discard_space_def discard_space_path)

lemma good_discard_space:
  assumes "good c"
  shows "good (discard_space sid c)"
proof -
  let ?s = "cn_spaces c sid" and ?ps = "sent_packets (cn_spaces c sid)"
  let ?s' = "?s\<lparr>loss_time := None, ps_in_flight := 0, sent_packets := []\<rparr>"
  have ok: "\<And>k. space_ok (cn_spaces c k)" "path_ok (cn_spaces c) (cn_path c)" "bounded c"
    using assms by (auto simp: good_def conn_inv_def)
  have total: "ps_in_flight ?s = sum_list (map (sp_size \<circ> snd) ?ps)"
    using ok(1) [of sid] by (simp add: space_ok_def space_inv_def bt.total_def comp_def case_prod_unfold)
  have flight: "if_bytes (np_in_flight (cn_path c)) = spaces_in_flight (cn_spaces c)"
    using ok(2) by (simp add: path_ok_def)
  have small: "spaces_in_flight (cn_spaces c) < 2 ^ 64"
    using in_flight_small(2) [of c] assms by (simp add: good_def)
  have core: "path_core (cn_path (discard_space sid c)) =
      (sending_queue (cn_path c), spaces_in_flight (cn_spaces c) - ps_in_flight ?s, first_packet (cn_path c))"
  proof (cases "?ps = []")
    case True
    then show ?thesis using total flight by (simp add: discard_space_cn_path path_core_def)
  next
    case False
    then have "first_packet (cn_path c) = Some 0"
      using ok(2) by (auto simp: path_ok_def first_ok_def split: option.splits)
    then show ?thesis
      using remove_all_in_flight [of "cn_path c" ?ps] total flight small in_flight_le [of "cn_spaces c" sid]
      by (simp add: discard_space_cn_path)
  qed
  have "space_ok ?s'"
    using ok(1) [of sid] by (simp add: space_ok_def space_inv_def bt_ok_def bt.total_def)
  moreover have "queued_ok ((cn_spaces c)(sid := ?s')) q" if "queued_ok (cn_spaces c) q" for q
    using that by (auto simp: queued_ok_def packet_ok_def Let_def)
  moreover have "spaces_in_flight ((cn_spaces c)(sid := ?s')) = spaces_in_flight (cn_spaces c) - ps_in_flight ?s"
    by (simp add: spaces_in_flight_upd)
  moreover have "first_ok ((cn_spaces c)(sid := ?s')) (cn_path (discard_space sid c))"
    using ok(2) core by (auto simp: path_ok_def first_ok_def path_core_def split: option.splits list.splits)
  ultimately have "conn_inv (discard_space sid c)"
    using ok core by (simp add: conn_inv_def path_ok_def path_core_def)
  then show ?thesis using ok(3) by (simp add: good_def bounded_def)
qed

lemma good_receive:
  assumes "good c" "n < 2 ^ 62"
    and s': "space_core s' = space_core ((cn_spaces c sid)\<lparr>ps_pending_acks := fst (packet_received (ps_pending_acks (cn_spaces c sid)) now n e d),
      rx_packet := max n (rx_packet (cn_spaces c sid))\<rparr>)"
  shows "good (upd_space sid (\<lambda>_. s') c)"
proof -
  let ?s = "cn_spaces c sid"
  let ?a = "fst (packet_received (ps_pending_acks ?s) now n e d)"
  have ok: "\<And>k. space_ok (cn_spaces c k)" "path_ok (cn_spaces c) (cn_path c)" "bounded c"
    using assms(1) by (auto simp: good_def conn_inv_def)
  have ins: "acks_inv (pa_insert_one (ps_pending_acks ?s) n now)"
      "elems (pa_ranges (pa_insert_one (ps_pending_acks ?s) n now)) \<subseteq> insert n (elems (pa_ranges (ps_pending_acks ?s)))"
    using pa_insert_one_ranges [of "ps_pending_acks ?s" n now] ok(1) [of sid] assms(2)
    by (auto simp: space_ok_def u64_max_def)
  have "acks_inv ?a"
    using ins(1) by (subst acks_inv_cong) (simp_all add: packet_received_ranges)
  moreover have "x \<le> max n (rx_packet ?s)" if "x \<in> elems (pa_ranges ?a)" for x
    using that ins(2) ok(1) [of sid] by (fastforce simp: packet_received_ranges space_ok_def)
  ultimately have "space_ok (?s\<lparr>ps_pending_acks := ?a, rx_packet := max n (rx_packet ?s)\<rparr>)"
    using ok(1) [of sid] by (auto simp: space_ok_def space_inv_def packet_ok_def le_max_iff_disj)
  then have s: "space_ok s'" using space_ok_cong [OF s'] by simp
  have fields: "sent_packets s' = sent_packets ?s" "ps_in_flight s' = ps_in_flight ?s"
    "next_packet_number s' = next_packet_number ?s" "rx_packet s' = max n (rx_packet ?s)"
    using s' by (simp_all add: space_core_def)
  have "path_ok (cn_spaces (upd_space sid (\<lambda>_. s') c)) (cn_path c)"
    by (rule path_ok_grow [of "cn_spaces c" "cn_path c"]) (simp_all add: ok(2) fields)
  then show ?thesis using ok s fields assms(2) by (simp add: good_def conn_inv_def bounded_def)
qed

lemma good_set_timer [simp]: "good (set_timer t i c) = good c" "good (stop_timer t c) = good c" "good (emit ev c) = good c"
  by (rule good_cong, simp add: conn_core_def)+

lemma good_immediate_ack:
  "good c \<Longrightarrow> good (upd_acks sid set_immediate_ack_required c)"
  "good c \<Longrightarrow> good (upd_acks sid on_ack_delay_timeout c)"
  "good c \<Longrightarrow> good (upd_acks sid acks_sent c)"
  unfolding upd_acks_def
  by (rule good_upd_space; simp add: space_core_def set_immediate_ack_required_def on_ack_delay_timeout_def acks_sent_def)+

lemma good_on_packet_authenticated:
  assumes "good c" "\<And>n. num = Some n \<Longrightarrow> n < 2 ^ 62"
  shows "good (on_packet_authenticated now sid num c)"
proof (cases num)
  case (Some n)
  define c0 where "c0 = (if cn_side c = Server \<and> hi (cn_spaces c SInitial) \<and> sid = SHandshake then discard_space SInitial c else c)"
  define a where "a = packet_received (ps_pending_acks (cn_spaces c0 sid)) now n True (ps_dedup (cn_spaces c0 sid))"
  define s1 where "s1 = (cn_spaces c0 sid)\<lparr>ps_pending_acks := fst a\<rparr>"
  define s2 where "s2 = (if n \<ge> rx_packet s1 then s1\<lparr>rx_packet := n\<rparr> else s1)"
  have c0: "good c0" using good_discard_space assms(1) by (simp add: c0_def)
  have "space_core s2 = space_core ((cn_spaces c0 sid)\<lparr>ps_pending_acks := fst a, rx_packet := max n (rx_packet (cn_spaces c0 sid))\<rparr>)"
    by (auto simp: s2_def s1_def space_core_def)
  then have s2: "good (upd_space sid (\<lambda>_. s2) c0)"
    unfolding a_def by (rule good_receive [OF c0 assms(2) [OF Some]])
  have "on_packet_authenticated now sid num c =
      (let c = upd_space sid (\<lambda>_. s2) c0 in if sid = SData then if snd a then set_timer MaxAckDelay (now + MAX_ACK_DELAY) c else c
       else upd_acks sid set_immediate_ack_required c)"
    unfolding on_packet_authenticated_def Some option.case c0_def [symmetric] Let_def a_def [symmetric] case_prod_unfold
      s1_def [symmetric] s2_def [symmetric] ..
  then show ?thesis using s2 good_immediate_ack by (auto simp: Let_def)
qed (simp add: on_packet_authenticated_def assms)

lemma good_streams [simp]: "good (c\<lparr>cn_streams := st\<rparr>) = good c" "good (c\<lparr>cn_state := x\<rparr>) = good c"
  "good (c\<lparr>highest_space := h\<rparr>) = good c" "good (c\<lparr>app_limited := l\<rparr>) = good c"
  "good (c\<lparr>pending_close := l\<rparr>) = good c" "good (c\<lparr>cn_timers := tt\<rparr>) = good c"
  by (rule good_cong, simp add: conn_core_def)+

lemma close_common_fields [simp]:
  "cn_spaces (close_common c) = cn_spaces c" "cn_path (close_common c) = cn_path c"
  "cn_state (close_common c) = cn_state c" "cn_streams (close_common c) = cn_streams c"
  "cn_side (close_common c) = cn_side c"
  by (simp_all add: close_common_def timer_variants_def)

lemma close_common_timers [simp]: "cn_timers (close_common c) t = None"
proof -
  have "cn_timers (foldl (\<lambda>c t. stop_timer t c) c ts) t = (if t \<in> set ts then None else cn_timers c t)" for ts
    by (induction ts arbitrary: c) (auto simp: stop_timer_def timer_stop_def)
  moreover have "t \<in> set timer_variants" by (cases t) (simp_all add: timer_variants_def)
  ultimately show ?thesis by (simp add: close_common_def)
qed

lemma good_close [simp]: "good (close_common c) = good c" "good (kill e c) = good c" "good (conn_error e c) = good c"
  "good (conn_close now code reason c) = good c" "good (set_close_timer now c) = good c"
  by (rule good_cong, simp add: conn_core_def kill_def conn_error_def conn_close_def set_close_timer_def)+

lemma good_early_frame:
  assumes "good c"
  shows "good (fst (early_frame B now sid f c))"
proof -
  have upd: "good (upd_space sid (\<lambda>s. s\<lparr>hi := b\<rparr>) d)" "good (upd_space sid (\<lambda>s. s\<lparr>ps_pending := g s\<rparr>) d)"
    if "good d" for b g d
    using that by (rule good_upd_space; simp add: space_core_def)+
  show ?thesis
    using good_on_ack_received [OF assms, of B now sid] assms upd
    by (cases f) (auto simp: early_frame_def Let_def case_prod_unfold)
qed

lemma good_data_frame:
  assumes "good c"
  shows "good (fst (data_frame B now sid len f c))"
  using good_on_ack_received [OF assms, of B now sid] good_immediate_ack(1) [OF assms, of sid] assms
  by (cases f) (auto simp: data_frame_def Let_def case_prod_unfold)

text \<open>Whatever every handler keeps, the loop over the frames keeps.\<close>

lemma frame_loop_keeps:
  assumes "\<And>f c. J c \<Longrightarrow> J (fst (handle f c))" "J c"
  shows "J (fst (frame_loop B handle p c))"
  using assms
proof (induction B handle p c rule: frame_loop.induct)
  case (1 B handle p c)
  show ?case
  proof (cases "\<exists>p' f d. (parser_next B p :: (_, transport_error) outcome) = Ok (p', Some (Ok f)) \<and> handle f c = (d, Ok True)")
    case True
    then obtain p' f d where eq: "(parser_next B p :: (_, transport_error) outcome) = Ok (p', Some (Ok f))" "handle f c = (d, Ok True)" by blast
    have "J d" using "1.prems"(1) [OF "1.prems"(2), of f] eq(2) by simp
    then have "J (fst (frame_loop B handle p' d))" using 1 eq by simp
    then show ?thesis by (subst frame_loop.simps) (simp add: eq)
  next
    case False
    have "J (fst (handle f c))" for f using "1.prems" by blast
    then have *: "J d" if "handle f c = (d, r)" for f d r using that by (metis fst_conv)
    show ?thesis
      using False "1.prems"(2)
      by (subst frame_loop.simps) (auto split: outcome.split option.split prod.split bool.split dest: *)
  qed
qed

lemma process_packet_keeps:
  assumes "\<And>sid f c. J c \<Longrightarrow> J (fst (early_frame B now sid f c))" "\<And>sid len f c. J c \<Longrightarrow> J (fst (data_frame B now sid len f c))" "J c"
  shows "J (fst (process_packet B now num h payload c))"
proof -
  have frames: "J (fst (process_frames B handle payload c))" if "\<And>f c. J c \<Longrightarrow> J (fst (handle f c))" for handle
    using frame_loop_keeps [of J handle c] that assms(3) by (cases "frame_parser_new payload") (simp_all add: process_frames_def)
  have "J (fst (process_frames B (early_frame B now sid) payload c))" for sid
    by (rule frames) (rule assms(1))
  moreover have "J (fst (process_frames B (data_frame B now sid len) payload c))" for sid len
    by (rule frames) (rule assms(2))
  ultimately show ?thesis
    using assms(3)
    by (simp add: process_packet_def process_early_payload_def process_payload_def Let_def case_prod_unfold
        split: space_id.split option.split)
qed

lemma good_process_packet: "good c \<Longrightarrow> good (fst (process_packet B now num h payload c))"
  by (rule process_packet_keeps [where J = good]) (auto intro: good_early_frame good_data_frame)

end
