(* ===== verification/Packet_Build.thy ===== *)
theory Packet_Build
  imports Connection_Inv
begin

text \<open>
  Outgoing packets: what the encoders write never exceeds the buffer they are given, and the
  part of \<open>poll_transmit\<close> that builds packets keeps the invariant of the connection.
\<close>

section \<open>Writers\<close>

text \<open>
  All encoders write by \<open>put_slice\<close>: what a single \<open>put_slice\<close> keeps of the buffer, every
  encoder and every loop that fills a packet keeps.
\<close>

locale writer_keeps =
  fixes J :: "writer \<Rightarrow> bool"
  assumes appended: "J w \<Longrightarrow> length bs \<le> w_left w \<Longrightarrow> J (w\<lparr>w_bytes := w_bytes w @ bs, w_left := w_left w - length bs\<rparr>)"
begin

lemma keeps_put:
  assumes "J w"
  shows "post (put_slice bs w) J" "post (put_uint B n v w) J" "post (put_varint B v w) J"
    "post (cid_encode B cid w) J" "post (put_bytes_with_varint_length B bs w) J" "post (pn_encode B pn w) J"
proof -
  have slice: "post (put_slice bs w) J" if "J w" for bs w
    using that by (auto simp: post_def put_slice_eq_Ok appended)
  have varint: "post (put_varint B v w) J" if "J w" for v w
    using slice [OF that] by (auto simp: post_def put_varint_Ok)
  show "post (put_slice bs w) J" "post (put_uint B n v w) J" "post (put_varint B v w) J"
    "post (cid_encode B cid w) J" "post (put_bytes_with_varint_length B bs w) J" "post (pn_encode B pn w) J"
    using assms slice varint
    by (auto simp: put_uint_def cid_encode_def put_bytes_with_varint_length_def pn_encode_eq intro!: post_bind [where Q = "J"])
qed

lemma keeps_header_encode: "J w \<Longrightarrow> post (header_encode B h w) J"
  by (cases h) (auto intro!: post_bind [where Q = "J"] keeps_put)

lemma keeps_ack_encode_rest: "J w \<Longrightarrow> post (ack_encode_rest B p rs w) J"
  by (induction rs arbitrary: p w)
    (auto simp: Let_def intro!: post_bind [where Q = "J"] keeps_put post_Ok)

lemma keeps_frame_encode:
  assumes "J w"
  shows "post (ack_encode B delay ranges None w) J" "post (reset_stream_encode B r w) J"
    "post (stop_sending_encode B s w) J" "post (stream_meta_encode B m len w) J" "post (put_hello B w) J"
  using assms
  by (auto simp: ack_encode_def reset_stream_encode_def stop_sending_encode_def stream_meta_encode_def put_hello_def Let_def
      split: list.split intro!: post_bind [where Q = "J"] keeps_put keeps_ack_encode_rest post_Ok post_Panic)

lemma keeps_write_resets: "J w \<Longrightarrow> post (write_resets B m w rs t) (\<lambda>(w, _). J w)"
  by (induction rs arbitrary: w t)
    (auto split: option.split intro!: post_Ok post_bind [where Q = "J"] keeps_frame_encode)

lemma keeps_write_stops: "J w \<Longrightarrow> post (write_stops B w ss t) (\<lambda>(w, _). J w)"
  by (induction ss arbitrary: w t)
    (auto intro!: post_Ok post_bind [where Q = "J"] keeps_frame_encode)

lemma keeps_write_control_frames: "J w \<Longrightarrow> post (write_control_frames B st w pending t) (\<lambda>(w, _). J w)"
  unfolding write_control_frames_def
  by (rule post_bind [OF keeps_write_resets]) (auto intro!: post_bind [OF keeps_write_stops] post_Ok)

lemma keeps_wsf_emit: "J w \<Longrightarrow> post (wsf_emit B fair st w s meta el) (\<lambda>(_, w, _). J w)"
  unfolding wsf_emit_def
  apply (rule post_bind [where Q = "J"], erule keeps_frame_encode)
  apply (rule post_bind [where Q = "J"])
   apply (simp add: post_Ok keeps_put)
  apply (auto intro!: post_Ok simp: reinsert_pending_def post_def)
  done

lemma keeps_wsf_step: "J w \<Longrightarrow> post (wsf_step B fair st w) (\<lambda>(_, w, _). J w)"
  unfolding wsf_step_def Let_def
  by (auto split: prod.split option.split intro!: post_Ok post_bind [where Q = "\<lambda>_. True"] keeps_wsf_emit)
    (simp add: post_def)

lemma keeps_wsf_loop:
  "J w \<Longrightarrow> wsf_loop B fair fuel st w = Some r \<Longrightarrow> post r (\<lambda>(_, w, _). J w)"
proof (induction fuel arbitrary: st w r)
  case (Suc fuel)
  note step = keeps_wsf_step [OF Suc.prems(1), of B fair st]
  show ?case
    using Suc.prems(2) step Suc.IH
    by (fastforce simp: post_def split: outcome.splits if_splits prod.splits option.splits simp: bindO_eq_Ok)
qed simp

lemma keeps_write_stream_frames: "J w \<Longrightarrow> post (write_stream_frames B st w fair) (\<lambda>(_, w, _). J w)"
  unfolding write_stream_frames_def
  by (auto split: option.split intro!: post_Panic dest: keeps_wsf_loop)

end

text \<open>What was written and what is left add up to the size of the buffer.\<close>

definition cap :: "nat \<Rightarrow> writer \<Rightarrow> bool" where
  "cap T w \<longleftrightarrow> length (w_bytes w) + w_left w = T"

interpretation cap: writer_keeps "cap T" for T
  by unfold_locales (simp add: cap_def)

text \<open>What was written stays in front.\<close>

definition starts :: "bytes \<Rightarrow> writer \<Rightarrow> bool" where
  "starts bs w \<longleftrightarrow> (\<exists>rest. w_bytes w = bs @ rest)"

interpretation starts: writer_keeps "starts bs" for bs
  by unfold_locales (auto simp: starts_def)

lemmas cap_put [post_intros] = cap.keeps_put
  and cap_header_encode [post_intros] = cap.keeps_header_encode
  and cap_frame_encode [post_intros] = cap.keeps_frame_encode
  and cap_write_control_frames = cap.keeps_write_control_frames
  and cap_write_stream_frames = cap.keeps_write_stream_frames

section \<open>Building a packet\<close>

lemma ars_max_le:
  assumes "space_ok s" "rx_packet s < 2 ^ 62" "ars_max (pa_ranges (ps_pending_acks s)) = Some n"
  shows "n \<le> rx_packet s"
proof -
  let ?rs = "pa_ranges (ps_pending_acks s)"
  have le: "\<forall>x\<in>elems ?rs. x \<le> rx_packet s" "rs_wf ?rs" using assms(1) by (auto simp: space_ok_def acks_inv_def)
  then have "\<forall>x\<in>elems ?rs. x < u64_max" using assms(2) by (auto simp: u64_max_def)
  then have "elems ?rs \<noteq> {}" "n = Max (elems ?rs)"
    using ars_max_eq [OF le(2)] assms(3) by (auto split: if_splits)
  then show ?thesis using le(1) by simp
qed

lemma populate_acks_post:
  assumes "space_ok s" "rx_packet s < 2 ^ 62" "cap T w"
  shows "post (populate_acks B now sent s w)
    (\<lambda>(sent', w'). cap T w' \<and> (\<forall>n. fr_largest_acked sent' = Some n \<longrightarrow> n \<le> rx_packet s))"
  unfolding populate_acks_def Let_def
  by (rule post_bind [OF cap_frame_encode(1) [OF assms(3)]]) (auto intro!: post_Ok dest: ars_max_le [OF assms(1,2)])

lemma conn_core_upd_space:
  assumes "space_core (f (cn_spaces c sid)) = space_core (cn_spaces c sid)"
  shows "conn_core (upd_space sid f c) = conn_core c"
  using assms by (auto simp: conn_core_def)

lemma populate_packet_post:
  assumes "space_ok (cn_spaces c sid)" "rx_packet (cn_spaces c sid) < 2 ^ 62" "cap T w"
  shows "post (populate_packet B now sid c w)
    (\<lambda>(c', sent, w'). cap T w' \<and> conn_core c' = conn_core c \<and> cn_path c' = cn_path c \<and> cn_state c' = cn_state c \<and>
       (\<forall>n. fr_largest_acked sent = Some n \<longrightarrow> n \<le> rx_packet (cn_spaces c sid)))"
  unfolding populate_packet_def
proof (rule post_bind [where Q = "\<lambda>(sent, w). cap T w \<and> (\<forall>n. fr_largest_acked sent = Some n \<longrightarrow> n \<le> rx_packet (cn_spaces c sid))"],
    goal_cases)
  case 1
  show ?case
    using populate_acks_post [OF assms] assms(3) by (auto intro!: post_Ok simp: sent_frames_default_def)
next
  case (2 x)
  have hello: "conn_core (upd_space k (\<lambda>s. s\<lparr>ps_pending := f s, hi := b\<rparr>) d) = conn_core d"
    "conn_core (upd_space k (\<lambda>s. s\<lparr>ping_pending := b\<rparr>) d) = conn_core d"
    "conn_core (upd_space k (\<lambda>s. s\<lparr>ps_pending := f s\<rparr>) d) = conn_core d" "conn_core (d\<lparr>cn_streams := st\<rparr>) = conn_core d"
    for f b d st k
    by (simp_all add: conn_core_upd_space space_core_def, simp add: conn_core_def)
  obtain sent w where x: "x = (sent, w)" "cap T w" "\<forall>n. fr_largest_acked sent = Some n \<longrightarrow> n \<le> rx_packet (cn_spaces c sid)"
    using 2 by auto
  show ?case unfolding x(1) prod.case
  proof (rule post_bind [where Q = "\<lambda>(c', sent', w). cap T w \<and> conn_core c' = conn_core c \<and> cn_path c' = cn_path c \<and> cn_state c' = cn_state c \<and>
      fr_largest_acked sent' = fr_largest_acked sent"], goal_cases)
    case 1
    show ?case
      using x(2) by (auto intro!: post_Ok post_bind [OF cap_frame_encode(5)] simp: hello)
  next
    case (2 y)
    then obtain c1 sent1 w1 where y: "y = (c1, sent1, w1)" "cap T w1" "conn_core c1 = conn_core c" "cn_path c1 = cn_path c" "cn_state c1 = cn_state c"
      "fr_largest_acked sent1 = fr_largest_acked sent" by (cases y) auto
    show ?case unfolding y(1) prod.case
      by (rule post_bind [where Q = "\<lambda>(c', w). cap T w \<and> conn_core c' = conn_core c \<and> cn_path c' = cn_path c \<and> cn_state c' = cn_state c"])
        (use x y in \<open>auto intro!: post_Ok post_bind [OF cap_put(2)] post_bind [OF cap_write_control_frames]
          post_bind [OF cap_write_stream_frames] simp: hello Let_def\<close>)
  qed
qed

text \<open>A packet with a fresh number is put at the end of the queue.\<close>

lemma good_enqueue:
  assumes "good c" "get_tx_number (cn_spaces c sid) = (Ok (s, n) :: (_, 'e) outcome)" "n < 2 ^ 40"
    and c': "cn_spaces c' = (cn_spaces c)(sid := s')" "space_core s' = space_core s"
      "path_core (cn_path c') = (sending_queue (cn_path c) @ [q], if_bytes (np_in_flight (cn_path c)), first_packet (cn_path c))"
    and q: "packet_key q = (sid, n)" "packet_ok (cn_spaces c sid) (sch_meta q)" "length (sch_packet q) \<le> INITIAL_MTU"
  shows "good c'"
proof -
  let ?s = "cn_spaces c sid"
  have ok: "\<And>k. space_ok (cn_spaces c k)" "path_ok (cn_spaces c) (cn_path c)" "bounded c"
    using assms(1) by (auto simp: good_def conn_inv_def)
  have tx: "space_inv s" "n = next_packet_number ?s" "next_packet_number s = Suc n" "map_of (sent_packets s) n = None"
    using get_tx_number_inv [OF _ assms(2)] ok(1) [of sid] by (auto simp: space_ok_def)
  have s: "s = ?s\<lparr>next_packet_number := Suc n\<rparr>"
    using assms(2) tx(3) by (auto simp: get_tx_number_def split: if_splits)
  have "space_ok s" using ok(1) [of sid] tx(1) by (simp add: space_ok_def s packet_ok_def)
  then have s': "space_ok s'" using space_ok_cong [OF c'(2)] by simp
  have fields: "sent_packets s' = sent_packets ?s" "ps_in_flight s' = ps_in_flight ?s" "next_packet_number s' = Suc n"
    "rx_packet s' = rx_packet ?s"
    using c'(2) by (auto simp: space_core_def s)
  have queued: "queued_ok (cn_spaces c') q'" if "queued_ok (cn_spaces c) q'" for q'
    using that fields tx(2) by (auto simp: queued_ok_def packet_ok_def c'(1) Let_def)
  have fresh: "packet_key q \<notin> packet_key ` set (sending_queue (cn_path c))"
    using ok(2) tx(2) q(1) by (fastforce simp: path_ok_def queued_ok_def packet_key_def Let_def)
  have "queued_ok (cn_spaces c') q"
    using q fields tx(4) by (auto simp: queued_ok_def packet_key_def packet_ok_def c'(1) Let_def s)
  moreover have "spaces_in_flight (cn_spaces c') = spaces_in_flight (cn_spaces c)"
    using in_flight_le [of "cn_spaces c" sid] by (simp add: c'(1) spaces_in_flight_upd fields)
  moreover have "first_ok (cn_spaces c') (cn_path c')"
  proof (cases "first_packet (cn_path c)")
    case None
    moreover from None have "\<forall>k. sent_packets (cn_spaces c k) = []"
      "case sending_queue (cn_path c) of [] \<Rightarrow> \<forall>k. next_packet_number (cn_spaces c k) = 0 | q # _ \<Rightarrow> sp_number (sch_meta q) = 0"
      using ok(2) by (auto simp: path_ok_def first_ok_def)
    ultimately show ?thesis
      using c' fields tx(2) q(1)
      by (cases "sending_queue (cn_path c)") (auto simp: first_ok_def path_core_def packet_key_def)
  next
    case (Some x)
    then show ?thesis using ok(2) c' by (simp add: path_ok_def first_ok_def path_core_def)
  qed
  ultimately have "path_ok (cn_spaces c') (cn_path c')"
    using ok(2) c'(3) queued fresh by (auto simp: path_ok_def path_core_def)
  moreover have "bounded c'" using ok(3) fields assms(3) by (auto simp: bounded_def c'(1))
  ultimately show ?thesis using ok(1) s' by (auto simp: good_def conn_inv_def c'(1))
qed

text \<open>What a built packet looks like, and that building it keeps the invariant while numbers last.\<close>

definition built :: "space_id \<Rightarrow> bool \<Rightarrow> connection \<Rightarrow> connection \<Rightarrow> bool" where
  "built sid ack_eliciting c c' \<longleftrightarrow>
     (\<exists>q. sending_queue (cn_path c') = sending_queue (cn_path c) @ [q] \<and>
        packet_key q = (sid, next_packet_number (cn_spaces c sid)) \<and> sp_ack_eliciting (sch_meta q) = ack_eliciting \<and>
        length (sch_packet q) \<le> INITIAL_MTU) \<and>
     (\<forall>k. next_packet_number (cn_spaces c' k) = next_packet_number (cn_spaces c k) + of_bool (k = sid) \<and>
        rx_packet (cn_spaces c' k) = rx_packet (cn_spaces c k)) \<and>
     np_in_flight (cn_path c') = np_in_flight (cn_path c) \<and> cn_state c' = cn_state c \<and>
     (next_packet_number (cn_spaces c sid) < 2 ^ 40 \<longrightarrow> good c')"

lemma good_bounds: "good c \<Longrightarrow> space_ok (cn_spaces c sid) \<and> rx_packet (cn_spaces c sid) < 2 ^ 62"
  by (simp add: good_def conn_inv_def bounded_def)

lemma ack_bookkeeping:
  fixes b :: bool and c :: connection and sid :: space_id
  defines "c' \<equiv> if b then stop_timer MaxAckDelay (upd_acks sid acks_sent c) else c"
  shows "conn_core c' = conn_core c" "cn_path c' = cn_path c" "cn_state c' = cn_state c"
proof -
  have "conn_core (stop_timer MaxAckDelay (upd_acks sid acks_sent c)) = conn_core (upd_acks sid acks_sent c)"
    by (simp add: conn_core_def)
  also have "\<dots> = conn_core c"
    unfolding upd_acks_def by (rule conn_core_upd_space) (simp add: space_core_def acks_sent_def)
  finally show "conn_core c' = conn_core c" by (simp add: c'_def)
qed (simp_all add: c'_def)

lemma build_packet_built:
  assumes good: "good c"
  shows "post (build_packet B now close ack_eliciting sid c :: (_, 'e) outcome) (built sid ack_eliciting c)"
  unfolding build_packet_def
proof (rule post_bind [where Q = "\<lambda>x. get_tx_number (cn_spaces c sid) = (Ok x :: (_, 'e) outcome)"], goal_cases)
  case (2 x)
  obtain s n where x: "x = (s, n)" "get_tx_number (cn_spaces c sid) = (Ok (s, n) :: (_, 'e) outcome)" using 2 by (cases x) auto
  define c1 where "c1 = upd_space sid (\<lambda>_. s) c"
  have n: "n = next_packet_number (cn_spaces c sid)" and s: "s = (cn_spaces c sid)\<lparr>next_packet_number := Suc n\<rparr>"
    using get_tx_number_inv [OF _ x(2)] good x(2)
    by (auto simp: good_def conn_inv_def space_ok_def get_tx_number_def split: if_splits)
  have s_ok: "space_ok (cn_spaces c1 sid)" "rx_packet (cn_spaces c1 sid) < 2 ^ 62"
  proof -
    have "space_inv s" using get_tx_number_inv [OF _ x(2)] good_bounds [OF good] by (auto simp: space_ok_def)
    then show "space_ok (cn_spaces c1 sid)" "rx_packet (cn_spaces c1 sid) < 2 ^ 62"
      using good_bounds [OF good, of sid] by (simp_all add: c1_def s space_ok_def packet_ok_def)
  qed
  have finish: "built sid ack_eliciting c (c3\<lparr>cn_path := (cn_path c3)\<lparr>sending_queue := sending_queue (cn_path c3) @ [q]\<rparr>\<rparr>)"
    if "conn_core c3 = conn_core c1" "cn_path c3 = cn_path c1" "cn_state c3 = cn_state c1" "packet_key q = (sid, n)"
      "sp_ack_eliciting (sch_meta q) = ack_eliciting" "packet_ok (cn_spaces c sid) (sch_meta q)" "length (sch_packet q) \<le> INITIAL_MTU"
    for c3 q
  proof -
    let ?c' = "c3\<lparr>cn_path := (cn_path c3)\<lparr>sending_queue := sending_queue (cn_path c3) @ [q]\<rparr>\<rparr>"
    let ?c'' = "c1\<lparr>cn_path := (cn_path c)\<lparr>sending_queue := sending_queue (cn_path c) @ [q]\<rparr>\<rparr>"
    have core: "conn_core ?c' = conn_core ?c''" using that(1,2) by (simp add: conn_core_def c1_def)
    have "good ?c''" if "n < 2 ^ 40"
      by (rule good_enqueue [OF good x(2) that, where q = q and s' = s])
        (use \<open>packet_key q = _\<close> \<open>packet_ok _ _\<close> \<open>length _ \<le> _\<close> in \<open>simp_all add: c1_def path_core_def\<close>)
    moreover have "space_core (cn_spaces ?c' k) = space_core (cn_spaces c1 k)" for k
      using that(1) by (simp add: conn_core_def fun_eq_iff)
    then have "next_packet_number (cn_spaces ?c' k) = next_packet_number (cn_spaces c k) + of_bool (k = sid) \<and>
        rx_packet (cn_spaces ?c' k) = rx_packet (cn_spaces c k)" for k
      by (auto simp: space_core_def c1_def s n)
    ultimately show ?thesis
      using that good_cong [OF core] n by (auto simp: built_def c1_def)
  qed
  have acks: "post (if \<not> ars_is_empty (pa_ranges (ps_pending_acks (cn_spaces c1 sid)))
      then bindO (populate_acks B now sent_frames_default (cn_spaces c1 sid) w) (\<lambda>(_, w). Ok w)
      else Ok w :: (_, 'e) outcome) (cap INITIAL_MTU)" if "cap INITIAL_MTU w" for w
    by (rule post_if, rule post_bind [OF populate_acks_post [OF s_ok that]]) (auto intro!: post_Ok that)
  show ?case
    unfolding x(1) prod.case Let_def c1_def [symmetric]
    apply (rule post_bind [where Q = "\<lambda>_. True"], simp add: post_def)
    apply (rule post_bind [where Q = "\<lambda>_. True"], simp add: post_def)
    apply (rule post_bind [OF cap_header_encode [where T = INITIAL_MTU]], simp add: cap_def)
    apply (rule post_bind [where Q = "\<lambda>(c', sent, w'). cap INITIAL_MTU w' \<and> conn_core c' = conn_core c1 \<and> cn_path c' = cn_path c1 \<and>
      cn_state c' = cn_state c1 \<and> (\<forall>n. fr_largest_acked sent = Some n \<longrightarrow> n \<le> rx_packet (cn_spaces c1 sid))"])
    subgoal for num cid w
      apply (rule post_if)
       apply (rule post_bind [OF acks], assumption, rule post_Ok)
       apply (simp add: sent_frames_default_def conn_core_def)
      apply (rule populate_packet_post [OF s_ok], assumption)
      done
    subgoal for num cid w y
      unfolding case_prod_unfold
      by (rule post_Ok, rule finish)
        (auto simp: ack_bookkeeping packet_key_def packet_ok_def cap_def c1_def s simp del: if_split)
    done
qed (simp add: post_def)

section \<open>Polling\<close>

text \<open>
  What one or several turns of the loop of \<open>poll_transmit\<close> do: packets are appended to the
  queue, none of them ack-eliciting when the congestion window is full; numbers only grow.
\<close>

definition polled :: "bool \<Rightarrow> connection \<Rightarrow> connection \<Rightarrow> bool" where
  "polled blocked c c' \<longleftrightarrow>
     (\<exists>qs. sending_queue (cn_path c') = sending_queue (cn_path c) @ qs \<and>
        (\<forall>q\<in>set qs. length (sch_packet q) \<le> INITIAL_MTU \<and> (blocked \<longrightarrow> \<not> sp_ack_eliciting (sch_meta q)))) \<and>
     (\<forall>k. next_packet_number (cn_spaces c k) \<le> next_packet_number (cn_spaces c' k) \<and>
        rx_packet (cn_spaces c' k) = rx_packet (cn_spaces c k)) \<and>
     cn_state c' = cn_state c \<and> ((\<forall>k. next_packet_number (cn_spaces c' k) \<le> 2 ^ 40) \<longrightarrow> good c')"

lemma polled_refl: "good c \<Longrightarrow> polled blocked c c"
  by (simp add: polled_def)

lemma polled_trans:
  assumes "polled blocked c d" "polled blocked d e"
  shows "polled blocked c e"
  using assms unfolding polled_def by (auto intro: le_trans)

lemma built_polled:
  assumes "built sid ae c c'" "good c" "blocked \<longrightarrow> \<not> ae"
  shows "polled blocked c c'"
proof -
  have "next_packet_number (cn_spaces c' sid) = Suc (next_packet_number (cn_spaces c sid))"
    using assms(1) by (simp add: built_def)
  moreover have "next_packet_number (cn_spaces c sid) < 2 ^ 40 \<longrightarrow> good c'" "cn_state c' = cn_state c"
    using assms(1) unfolding built_def by blast+
  ultimately have "(\<forall>k. next_packet_number (cn_spaces c' k) \<le> 2 ^ 40) \<longrightarrow> good c'" "cn_state c' = cn_state c"
    by (metis Suc_le_lessD)+
  moreover obtain q where "sending_queue (cn_path c') = sending_queue (cn_path c) @ [q]"
    "sp_ack_eliciting (sch_meta q) = ae" "length (sch_packet q) \<le> INITIAL_MTU"
    using assms(1) unfolding built_def by blast
  then have "\<exists>qs. sending_queue (cn_path c') = sending_queue (cn_path c) @ qs \<and>
      (\<forall>q\<in>set qs. length (sch_packet q) \<le> INITIAL_MTU \<and> (blocked \<longrightarrow> \<not> sp_ack_eliciting (sch_meta q)))"
    using assms(3) by (intro exI [of _ "[q]"]) simp
  moreover have "\<forall>k. next_packet_number (cn_spaces c k) \<le> next_packet_number (cn_spaces c' k) \<and>
      rx_packet (cn_spaces c' k) = rx_packet (cn_spaces c k)"
    using assms(1) by (simp add: built_def)
  ultimately show ?thesis unfolding polled_def by blast
qed

lemma discard_space_queue: "sending_queue (cn_path (discard_space sid c)) = sending_queue (cn_path c)"
proof -
  have "sending_queue (foldl (\<lambda>path (n, p). fst (remove_in_flight path n p)) path ps) = sending_queue path" for path ps
    by (induction ps arbitrary: path) (auto simp: remove_in_flight_def split: prod.split)
  then show ?thesis by (simp add: discard_space_cn_path)
qed

lemma discard_polled: "good c \<Longrightarrow> polled blocked c (discard_space sid c)"
  using good_discard_space by (auto simp: polled_def discard_space_queue)

lemma poll_space_polled:
  assumes "polled blocked c0 c" "\<forall>k. next_packet_number (cn_spaces c k) \<le> 2 ^ 40"
  shows "post (poll_space B now close blocked sid (c, sent) :: (_, 'e) outcome)
    (\<lambda>(c', sent'). polled blocked c0 c' \<and>
      (\<forall>k. next_packet_number (cn_spaces c' k) \<le> next_packet_number (cn_spaces c k) + of_bool (k = sid)))"
proof -
  have good: "good c" using assms by (simp add: polled_def)
  define d where "d = (if cn_side c = Client \<and> sid = SHandshake \<and> hi (cn_spaces c SInitial) then discard_space SInitial c else c)"
  have d: "polled blocked c d" "good d" "\<And>k. next_packet_number (cn_spaces d k) = next_packet_number (cn_spaces c k)"
    using discard_polled polled_refl good_discard_space good by (auto simp: d_def)
  have limit: "polled blocked c (d\<lparr>app_limited := l\<rparr>)" for l using d by (simp add: polled_def)
  define R where "R = (\<lambda>(c', sent' :: bool). polled blocked c0 c' \<and>
      (\<forall>k. next_packet_number (cn_spaces c' k) \<le> next_packet_number (cn_spaces c k) + of_bool (k = sid)))"
  have build: "post (bindO (build_packet B now close ae sid d) (\<lambda>c. Ok (c, True)) :: (_, 'e) outcome) R"
    if "blocked \<longrightarrow> \<not> ae" for ae
  proof (rule post_bind [OF build_packet_built [OF d(2)]], goal_cases)
    case (1 c')
    then have "polled blocked c0 c'" using built_polled [OF 1 d(2) that] d(1) assms(1) polled_trans by blast
    moreover have "\<forall>k. next_packet_number (cn_spaces c' k) \<le> next_packet_number (cn_spaces c k) + of_bool (k = sid)"
      using 1 d(3) by (simp add: built_def)
    ultimately show ?case by (intro post_Ok) (simp add: R_def)
  qed
  have "R (c, sent)" "R (d\<lparr>app_limited := l\<rparr>, sent)" for l
    using assms(1) polled_trans [OF assms(1) limit] d(3) by (simp_all add: R_def)
  then show ?thesis
    unfolding poll_space_def prod.case Let_def d_def [symmetric] R_def [symmetric]
    using build by (auto intro!: post_Ok)
qed

text \<open>The range in which no counter can overflow during the next call.\<close>

definition roomy :: "connection \<Rightarrow> bool" where
  "roomy c \<longleftrightarrow> (\<forall>k. next_packet_number (cn_spaces c k) < 2 ^ 40 \<and> rx_packet (cn_spaces c k) < 2 ^ 62)"

lemma roomy_bounded: "roomy c \<Longrightarrow> bounded c"
  by (auto simp: roomy_def bounded_def less_imp_le)

definition window_full :: "connection \<Rightarrow> bool" where
  "window_full c \<longleftrightarrow> nr_window (congestion (cn_path c)) \<le> if_bytes (np_in_flight (cn_path c))"

lemma poll_transmit_polled:
  assumes "conn_inv c" "roomy c"
  shows "post (poll_transmit B now c :: (_, 'e) outcome) (\<lambda>(c', again). polled (window_full c) c c' \<and> good c')"
proof -
  let ?n = "\<lambda>c k. next_packet_number (cn_spaces c k)"
  have good: "good c" using assms roomy_bounded by (simp add: good_def)
  have room: "?n c k < 2 ^ 40" for k using assms(2) by (simp add: roomy_def)
  define Q where "Q sids = (\<lambda>(c', sent :: bool). polled (window_full c) c c' \<and> (\<forall>k. ?n c' k \<le> ?n c k + of_bool (k \<in> sids)))" for sids
  have bound: "\<forall>k. ?n c' k \<le> 2 ^ 40" if "Q sids (c', sent)" for sids c' sent
  proof
    fix k
    have "?n c' k \<le> ?n c k + of_bool (k \<in> sids)" using that by (simp add: Q_def)
    also have "\<dots> \<le> 2 ^ 40" using room [of k] by (cases "k \<in> sids") auto
    finally show "?n c' k \<le> 2 ^ 40" .
  qed
  have turn: "post (poll_space B now close (window_full c) sid cs :: (_, 'e) outcome) (Q (insert sid sids))"
    if Q: "Q sids cs" "sid \<notin> sids" for close sid cs sids
  proof -
    obtain d sent where cs: "cs = (d, sent)" by (cases cs)
    have le: "?n d k \<le> ?n c k + of_bool (k \<in> sids)" for k using Q(1) cs by (simp add: Q_def)
    have "post (poll_space B now close (window_full c) sid (d, sent) :: (_, 'e) outcome)
        (\<lambda>(c', sent'). polled (window_full c) c c' \<and> (\<forall>k. ?n c' k \<le> ?n d k + of_bool (k = sid)))"
      using Q cs bound by (intro poll_space_polled) (auto simp: Q_def)
    then show ?thesis unfolding cs
    proof (rule post_weaken, clarify)
      fix c' sent'
      assume *: "polled (window_full c) c c'" "\<forall>k. ?n c' k \<le> ?n d k + of_bool (k = sid)"
      have "?n c' k \<le> ?n c k + of_bool (k \<in> insert sid sids)" for k
        using *(2) [rule_format, of k] le [of k] Q(2) by (cases "k = sid") auto
      then show "Q (insert sid sids) (c', sent')" using *(1) by (simp add: Q_def)
    qed
  qed
  have start: "Q {} (c, False)" using polled_refl [OF good] by (simp add: Q_def)
  have final: "polled (window_full c) c d \<and> good d" if "Q sids (d, sent)" for sids d sent
    using bound [OF that] that by (simp add: Q_def polled_def)
  have limit: "polled (window_full c) c (d\<lparr>app_limited := l\<rparr>)" if "polled (window_full c) c d" for d l
    using that by (simp add: polled_def)
  show ?thesis
    unfolding poll_transmit_unfold Let_def window_full_def [symmetric]
    apply (rule post_if)
     apply (rule post_Ok, simp add: good polled_refl)
    apply (rule post_if)
     apply (rule post_Ok, simp add: good polled_refl)
    apply (rule post_bind [OF turn [OF start]], simp)
    apply (erule post_bind [OF turn], simp)
    apply (erule post_bind [OF turn], simp)
    apply (auto intro!: post_Ok limit dest!: final)
    done
qed

end
