(* ===== verification/Connection_Task.thy ===== *)
theory Connection_Task
  imports Connection
begin

text \<open>
  The task of a connection (\<open>run_connection\<close> in \<open>core/src/connection/mod.rs\<close>): one turn of its
  loop, the calls the application may make from its handler, and the connections that can be
  reached by such turns.  The clock, the result of every \<open>send_to\<close> on the socket and what the
  application decides to do are arguments of a turn.
\<close>

section \<open>Calls of the application\<close>

text \<open>
  The public methods of \<open>Connection\<close> and of its stream handles.  An error is returned to the
  application and leaves the connection usable; a failed assertion ends the task.
\<close>

datatype app_call =
    AppOpen dir
  | AppWrite stream_id bytes
  | AppFinish stream_id
  | AppReset stream_id nat
  | AppPriority stream_id int
  | AppRead stream_id bool "nat list"
  | AppStop stream_id nat
  | AppReceivedReset stream_id
  | AppClose instant nat bytes

text \<open>The pending frames of the application data space, which the handles borrow.\<close>

definition data_pending :: "connection \<Rightarrow> retransmits" where
  "data_pending c = ps_pending (cn_spaces c SData)"

definition set_data_pending :: "retransmits \<Rightarrow> connection \<Rightarrow> connection" where
  "set_data_pending r c = upd_space SData (\<lambda>s. s\<lparr>ps_pending := r\<rparr>) c"

text \<open>\<open>RecvStream::read\<close>, calls of \<open>next\<close> with the given lengths, and the drop of the \<open>Chunks\<close>.\<close>

fun next_calls :: "chunks \<Rightarrow> nat list \<Rightarrow> (chunks, 'e) outcome" where
  "next_calls ch [] = Ok ch"
| "next_calls ch (n # ns) = bindO (chunks_next ch n) (\<lambda>(ch, _). next_calls ch ns)"

definition read_stream :: "stream_id \<Rightarrow> bool \<Rightarrow> nat list \<Rightarrow> streams_state \<Rightarrow> (streams_state, 'e) outcome" where
  "read_stream sid ordered lens st =
     (case chunks_new st sid ordered of
        (st, Panic) \<Rightarrow> Panic
      | (st, Err e) \<Rightarrow> Ok st
      | (st, Ok ch) \<Rightarrow> bindO (next_calls ch lens) (\<lambda>ch. Ok (chunks_drop st ch)))"

text \<open>A result the application looks at: on an error nothing was changed.\<close>

definition or_else :: "connection \<Rightarrow> (connection, 'x) outcome \<Rightarrow> (connection, unit) outcome" where
  "or_else c r = (case r of Ok c' \<Rightarrow> Ok c' | Err _ \<Rightarrow> Ok c | Panic \<Rightarrow> Panic)"

text \<open>The two handles that borrow the pending frames of the data space.\<close>

definition with_pending :: "connection \<Rightarrow> (streams_state \<times> retransmits, 'x) outcome \<Rightarrow> (connection, unit) outcome" where
  "with_pending c r = or_else c (bindO r (\<lambda>(st, p). Ok (set_data_pending p (c\<lparr>cn_streams := st\<rparr>))))"

definition with_streams :: "connection \<Rightarrow> (streams_state, 'x) outcome \<Rightarrow> (connection, unit) outcome" where
  "with_streams c r = or_else c (bindO r (\<lambda>st. Ok (c\<lparr>cn_streams := st\<rparr>)))"

fun app_exec :: "app_call \<Rightarrow> connection \<Rightarrow> (connection, unit) outcome" where
  "app_exec (AppOpen d) c = bindO (conn_open_stream d c) (\<lambda>(c, sid). Ok c)"
| "app_exec (AppWrite sid data) c = bindO (conn_write sid data c) (\<lambda>(c, r). if r = Panic then Panic else Ok c)"
| "app_exec (AppFinish sid) c = or_else c (conn_finish sid c)"
| "app_exec (AppReset sid code) c =
     (if \<not> may_send c sid then Panic
      else with_pending c (sstream_reset (cn_streams c) (data_pending c) sid code))"
| "app_exec (AppPriority sid priority) c =
     (if \<not> may_send c sid then Panic
      else with_streams c (sstream_set_priority (cn_streams c) sid priority))"
| "app_exec (AppRead sid ordered lens) c =
     (if \<not> may_recv c sid then Panic
      else with_streams c (read_stream sid ordered lens (cn_streams c) :: (_, unit) outcome))"
| "app_exec (AppStop sid code) c =
     (if \<not> may_recv c sid then Panic
      else with_pending c (rstream_stop (cn_streams c) (data_pending c) sid code))"
| "app_exec (AppReceivedReset sid) c =
     (if \<not> may_recv c sid then Panic
      else with_streams c (bindO (rstream_received_reset (cn_streams c) sid) (\<lambda>(st, _). Ok st)))"
| "app_exec (AppClose now code reason) c = Ok (conn_close now code reason c)"

fun app_execs :: "app_call list \<Rightarrow> connection \<Rightarrow> (connection, unit) outcome" where
  "app_execs [] c = Ok c"
| "app_execs (a # as) c = bindO (app_exec a c) (app_execs as)"

section \<open>One turn of the task\<close>

text \<open>At most 128 calls of \<open>poll_transmit\<close>, as long as there is more to send.\<close>

definition BURST :: nat where "BURST = 128"

fun poll_burst :: "bytes_api \<Rightarrow> instant \<Rightarrow> nat \<Rightarrow> connection \<Rightarrow> (connection, unit) outcome" where
  "poll_burst B now 0 c = Ok c"
| "poll_burst B now (Suc n) c =
     bindO (poll_transmit B now c) (\<lambda>(c, again). if again then poll_burst B now n c else Ok c)"

text \<open>One call of \<open>send_one\<close>, with what the loop does after it.\<close>

definition send_next :: "instant option \<Rightarrow> connection \<Rightarrow> (connection \<times> bytes option, unit) outcome" where
  "send_next sent_at c =
     bindO (send_one (cn_path c) (cn_spaces c) sent_at) (\<lambda>(path, spaces, r).
     let c = c\<lparr>cn_path := path, cn_spaces := spaces\<rparr> in
     case r of
       None \<Rightarrow> Ok (c, None)
     | Some (packet, info) \<Rightarrow> Ok (if psi_ack_eliciting info then set_loss_detection_timer c else c, Some packet))"

text \<open>The loop until the queue is empty; \<open>n\<close> is its length and \<open>sent_at k\<close> the time of the datagram with \<open>k\<close> after it.\<close>

fun send_queued :: "(nat \<Rightarrow> instant option) \<Rightarrow> nat \<Rightarrow> connection \<Rightarrow> (connection \<times> bytes list, unit) outcome" where
  "send_queued sent_at 0 c = Ok (c, [])"
| "send_queued sent_at (Suc n) c =
     bindO (send_next (sent_at n) c) (\<lambda>(c, r).
       case r of
         None \<Rightarrow> Ok (c, [])
       | Some packet \<Rightarrow> bindO (send_queued sent_at n c) (\<lambda>(c, out). Ok (c, packet # out)))"

text \<open>
  The biased \<open>select!\<close>: an event of the channel, else a timer that is due, else a datagram.
  \<open>app\<close> is what the application does on an event.
\<close>

definition select_next :: "bytes_api \<Rightarrow> (event \<Rightarrow> app_call list) \<Rightarrow> instant \<Rightarrow> (instant \<times> bytes) list \<Rightarrow> connection \<Rightarrow>
    (connection \<times> (instant \<times> bytes) list, unit) outcome" where
  "select_next B app now inbox c =
     (case st_events (cn_streams c) of
        ev # evs \<Rightarrow>
          bindO (app_execs (app ev) (c\<lparr>cn_streams := (cn_streams c)\<lparr>st_events := evs\<rparr>\<rparr>)) (\<lambda>c. Ok (c, inbox))
      | [] \<Rightarrow>
          (case timer_poll (cn_timers c) now of
             (tt, Some t) \<Rightarrow> Ok (handle_timeout t now (c\<lparr>cn_timers := tt\<rparr>), inbox)
           | (tt, None) \<Rightarrow>
               (case inbox of
                  [] \<Rightarrow> Ok (c\<lparr>cn_timers := tt\<rparr>, [])
                | (at, data) # rest \<Rightarrow> bindO (handle_data B at data (c\<lparr>cn_timers := tt\<rparr>)) (\<lambda>c. Ok (c, rest)))))"

definition run_turn :: "bytes_api \<Rightarrow> (event \<Rightarrow> app_call list) \<Rightarrow> instant \<Rightarrow> (nat \<Rightarrow> instant option) \<Rightarrow> instant \<Rightarrow>
    (instant \<times> bytes) list \<Rightarrow> connection \<Rightarrow> (connection \<times> (instant \<times> bytes) list \<times> bytes list, unit) outcome" where
  "run_turn B app now sent_at woken inbox c =
     (if cn_state c = CDrained then Ok (c, inbox, [])
      else
        bindO (poll_burst B now BURST c) (\<lambda>c.
        bindO (send_queued sent_at (length (sending_queue (cn_path c))) c) (\<lambda>(c, out).
        bindO (select_next B app woken inbox c) (\<lambda>(c, inbox). Ok (c, inbox, out)))))"

end
