(* ===== verification/Connection_Steps.thy ===== *)
theory Connection_Steps
  imports Packet_Build Connection_Task
begin

text \<open>
  The connections a task can reach.  A step is one call the loop of \<open>run_connection\<close> makes: a
  call of \<open>poll_transmit\<close>, one datagram handed to the socket, one event taken from the channel,
  one call of the application, one timeout, one datagram received.  A turn of the loop is a
  sequence of such steps.  The invariant of the connection holds in every state they reach.
\<close>

section \<open>Sending\<close>

lemma good_send_next: "good c \<Longrightarrow> post (send_next sent_at c) (\<lambda>(c', r). good c' \<and> cn_state c' = cn_state c)"
proof (cases "sending_queue (cn_path c)")
  case Nil
  then show "good c \<Longrightarrow> ?thesis" by (simp add: send_next_def send_one_def post_Ok good_def conn_inv_def bounded_def)
next
  case (Cons q rest)
  assume good: "good c"
  show ?thesis
  proof (cases sent_at)
    case None
    then show ?thesis using Cons by (simp add: send_next_def send_one_def post_Panic)
  next
    case (Some at)
    define m where "m = (sch_meta q)\<lparr>time_sent := at\<rparr>"
    define sid where "sid = sp_space_id m"
    let ?s = "cn_spaces c sid"
    define s where "s = fst (ps_sent ?s m)"
    have ok: "\<And>k. space_ok (cn_spaces c k)" "path_ok (cn_spaces c) (cn_path c)" "bounded c"
      using good by (auto simp: good_def conn_inv_def)
    have q: "sp_number m < next_packet_number ?s" "map_of (sent_packets ?s) (sp_number m) = None" "packet_ok ?s m"
      using ok(2) Cons by (auto simp: path_ok_def queued_ok_def Let_def m_def sid_def packet_ok_def)
    have small: "ps_in_flight ?s \<le> 2 ^ 56" "spaces_in_flight (cn_spaces c) \<le> 2 ^ 58" "sp_size m < 2 ^ 16"
      using in_flight_small [of c] good q(3) by (auto simp: good_def packet_ok_def)
    then have fits: "ps_in_flight ?s + sp_size m < 2 ^ 64" "spaces_in_flight (cn_spaces c) + sp_size m < 2 ^ 64" by simp_all
    have inv: "space_inv s" "ps_in_flight s = ps_in_flight ?s + sp_size m"
      "map_of (sent_packets s) = (map_of (sent_packets ?s))(sp_number m \<mapsto> m)"
      unfolding s_def using ps_sent_inv [OF _ q(2,1) fits(1)] ok(1) [of sid] by (auto simp: space_ok_def)
    have same: "next_packet_number s = next_packet_number ?s" "rx_packet s = rx_packet ?s"
      "ps_pending_acks s = ps_pending_acks ?s"
      by (simp_all add: s_def ps_sent_def Let_def)
    have freed: "snd (ps_sent ?s m) = 0" by (simp add: ps_sent_def Let_def)
    have s: "space_ok s"
      using ok(1) [of sid] inv(1,3) same q(3) by (auto simp: space_ok_def packet_ok_def)
    define p where "p = (cn_path c)\<lparr>sending_queue := rest, np_in_flight := in_flight_insert (np_in_flight (cn_path c)) m\<rparr>"
    have p_first: "first_packet p = first_packet (cn_path c)" by (simp add: p_def)
    define path where "path = (if first_packet p = None then p\<lparr>first_packet := Some (sp_number m)\<rparr> else p)"
    have path [simp]: "sending_queue path = rest" "np_in_flight path = in_flight_insert (np_in_flight (cn_path c)) m"
      "first_packet path = Some (case first_packet (cn_path c) of None \<Rightarrow> sp_number m | Some n \<Rightarrow> n)"
      by (auto simp: path_def p_def)
    have key: "packet_key q = (sid, sp_number m)" by (simp add: packet_key_def sid_def m_def)
    have "queued_ok ((cn_spaces c)(sid := s)) q'" if "q' \<in> set rest" for q'
    proof -
      have "packet_key q \<notin> packet_key ` set rest" "queued_ok (cn_spaces c) q'"
        using ok(2) Cons that by (simp_all add: path_ok_def)
      moreover from this(1) have "packet_key q' \<noteq> packet_key q" using that by (metis image_eqI)
      ultimately show ?thesis using inv(3) same key by (auto simp: queued_ok_def packet_ok_def packet_key_def Let_def)
    qed
    moreover have "first_ok ((cn_spaces c)(sid := s)) path"
      using ok(2) Cons by (auto simp: path_ok_def first_ok_def m_def split: option.splits)
    moreover have "if_bytes (np_in_flight path) = spaces_in_flight ((cn_spaces c)(sid := s))"
      using ok(2) fits(2) inv(2) in_flight_le [of "cn_spaces c" sid]
      by (simp add: in_flight_insert_def path_ok_def spaces_in_flight_upd add64_small)
    ultimately have "path_ok ((cn_spaces c)(sid := s)) path"
      using ok(2) Cons by (simp add: path_ok_def)
    then have new: "good (c\<lparr>cn_path := path, cn_spaces := (cn_spaces c)(sid := s)\<rparr>)"
      using ok s same by (simp add: good_def conn_inv_def bounded_def)
    have "send_next sent_at c =
        (let c' = c\<lparr>cn_path := path, cn_spaces := (cn_spaces c)(sid := s)\<rparr> in
         Ok (if sp_ack_eliciting m then set_loss_detection_timer c' else c', Some (sch_packet q)))"
      unfolding send_next_def send_one_def Cons Some
      using freed
      by (simp add: Let_def m_def [symmetric] case_prod_unfold sid_def [symmetric] s_def [symmetric]
          saturating_sub_def p_def [symmetric] del: path) (auto simp: path_def p_first)
    then show ?thesis using new by (simp add: Let_def post_Ok)
  qed
qed

section \<open>What the handlers do to the state\<close>

text \<open>
  Handlers of frames keep the packet numbers.  They change the state of the connection only
  from the handshake to established or to drained, and once it is closed they leave its timers alone.
\<close>

definition calm :: "connection \<Rightarrow> connection \<Rightarrow> bool" where
  "calm c c' \<longleftrightarrow>
     (\<forall>k. next_packet_number (cn_spaces c' k) = next_packet_number (cn_spaces c k) \<and>
        rx_packet (cn_spaces c' k) = rx_packet (cn_spaces c k)) \<and>
     (cn_state c' = cn_state c \<or> cn_state c = CHandshake \<and> cn_state c' = CEstablished \<or> cn_state c' = CDrained) \<and>
     (is_closed (cn_state c) \<and> cn_state c' \<noteq> CDrained \<longrightarrow> cn_timers c' = cn_timers c)"

lemma calm_refl [simp]: "calm c c"
  by (simp add: calm_def)

lemma calm_trans: "calm c d \<Longrightarrow> calm d e \<Longrightarrow> calm c e"
  by (auto simp: calm_def)

lemma calm_upd [simp]:
  "calm c (upd_acks sid f d) = calm c d" "calm c (d\<lparr>cn_streams := st\<rparr>) = calm c d" "calm c (d\<lparr>cn_path := path\<rparr>) = calm c d"
  "calm c (d\<lparr>highest_space := h\<rparr>) = calm c d" "calm c (emit ev d) = calm c d"
  by (auto simp: calm_def)

lemma calm_upd_space:
  assumes "calm c d" "next_packet_number (f (cn_spaces d sid)) = next_packet_number (cn_spaces d sid)"
    "rx_packet (f (cn_spaces d sid)) = rx_packet (cn_spaces d sid)"
  shows "calm c (upd_space sid f d)"
  using assms by (simp add: calm_def)

lemma set_loss_detection_timer_closed: "is_closed (cn_state c) \<Longrightarrow> set_loss_detection_timer c = c"
  by (simp add: set_loss_detection_timer_def)

lemma calm_timer: "calm c d \<Longrightarrow> calm c (set_loss_detection_timer d)"
  by (auto simp: calm_def set_loss_detection_timer_closed)

lemma ps_take_same:
  "next_packet_number (fst (ps_take s n)) = next_packet_number s" "rx_packet (fst (ps_take s n)) = rx_packet s"
  by (simp_all add: ps_take_def split: option.split)

lemma calm_lose_packet: "calm c d \<Longrightarrow> calm c (lose_packet now sid d np)"
  by (auto simp: lose_packet_def Let_def ps_take_same intro!: calm_upd_space split: prod.split)

lemma calm_lose_packets: "calm c d \<Longrightarrow> calm c (foldl (lose_packet now sid) d nps)"
  by (induction nps arbitrary: d) (auto intro: calm_lose_packet)

lemma calm_detect: "calm c d \<Longrightarrow> calm c (detect_lost_packets now sid d)"
  by (auto simp: detect_lost_packets_def Let_def intro!: calm_upd_space calm_timer calm_lose_packets split: option.split)

lemma calm_ack_packet: "calm c d \<Longrightarrow> calm c (fst (ack_packet sid (d, l) n))"
proof -
  assume c: "calm c d"
  have "calm c (upd_space sid (\<lambda>_. s) d)" if "ps_take (cn_spaces d sid) n = (s, p)" for s p
    using ps_take_same [of "cn_spaces d sid" n] that by (intro calm_upd_space c) simp_all
  then show ?thesis
    by (auto simp: ack_packet_def Let_def c split: prod.split option.split)
qed

lemma calm_ack_packets: "calm c d \<Longrightarrow> calm c (fst (foldl (ack_packet sid) (d, l) ns))"
proof (induction ns arbitrary: d l)
  case (Cons n ns)
  then show ?case using calm_ack_packet [of c d sid l n] by (cases "ack_packet sid (d, l) n") simp
qed simp

lemma calm_on_ack_received: "calm c (fst (on_ack_received B now sid a c))"
proof -
  have "calm c d" if "foldl (ack_packet sid) (c, None) ns = (d, l)" for ns d l
    using calm_ack_packets [OF calm_refl, of c sid None ns] that by simp
  then show ?thesis
    by (auto simp: on_ack_received_def Let_def intro!: calm_timer calm_detect calm_upd_space
        split: outcome.split prod.split option.split)
qed

lemma calm_kill: "calm c (kill e c)"
  by (simp add: calm_def kill_def conn_error_def)

lemma calm_early_frame: "calm c (fst (early_frame B now sid f c))"
proof -
  have est: "calm c (d\<lparr>cn_state := CEstablished\<rparr>)" if "calm c d" "is_handshake (cn_state c)" "cn_state d = cn_state c" for d
    using that by (cases "cn_state c") (auto simp: calm_def)
  show ?thesis
    using calm_on_ack_received [of c B now sid] calm_kill [of c]
    by (cases f) (auto simp: early_frame_def Let_def case_prod_unfold intro!: est calm_upd_space)
qed

lemma calm_data_frame: "calm c (fst (data_frame B now sid len f c))"
  using calm_on_ack_received [of c B now sid] calm_kill [of c]
  by (cases f) (auto simp: data_frame_def Let_def case_prod_unfold)

lemma calm_process_packet: "calm c (fst (process_packet B now num h payload c))"
  by (rule process_packet_keeps [where J = "calm c"]) (auto intro: calm_trans calm_early_frame calm_data_frame)

section \<open>The phases of a connection\<close>

fun phase :: "conn_state \<Rightarrow> nat" where
  "phase CHandshake = 0"
| "phase CEstablished = 1"
| "phase (CClosed _) = 2"
| "phase CDraining = 2"
| "phase CDrained = 3"

lemma phase_closed: "is_closed st \<longleftrightarrow> 2 \<le> phase st"
  by (cases st) simp_all

lemma phase_drained: "st = CDrained \<longleftrightarrow> phase st = 3"
  by (cases st) simp_all

text \<open>A connection that is closed but not yet drained has only its closing timer running.\<close>

definition only_close :: "connection \<Rightarrow> bool" where
  "only_close c \<longleftrightarrow> (\<exists>t. cn_timers c = (\<lambda>_. None)(Close_timer := Some t))"

definition closing_ok :: "connection \<Rightarrow> bool" where
  "closing_ok c \<longleftrightarrow> (is_closed (cn_state c) \<and> cn_state c \<noteq> CDrained \<longrightarrow> only_close c)"

lemma close_timers: "cn_timers (set_close_timer now (close_common c)) = (\<lambda>_. None)(Close_timer := Some (now + CLOSE_TIMEOUT))"
  by (auto simp: set_close_timer_def set_timer_def timer_set_def fun_eq_iff)

lemma on_packet_authenticated_fields:
  "cn_state (on_packet_authenticated now sid num c) = cn_state c"
  "next_packet_number (cn_spaces (on_packet_authenticated now sid num c) k) = next_packet_number (cn_spaces c k)"
  "num = Some n \<Longrightarrow> n \<le> rx_packet (cn_spaces (on_packet_authenticated now sid num c) sid)"
  by (cases num; simp add: on_packet_authenticated_def Let_def case_prod_unfold)+

text \<open>The end of \<open>handle_data\<close>.\<close>

lemma settle_Ok:
  assumes "settle now was_closed was_drained (d, r) = Ok c'"
  shows "cn_spaces c' = cn_spaces d" "cn_path c' = cn_path d"
    "cn_state c' = (case r of Err e \<Rightarrow> error_state e | _ \<Rightarrow> cn_state d)"
    "is_closed (cn_state c') \<Longrightarrow> cn_state c' \<noteq> CDrained \<Longrightarrow> \<not> was_closed \<Longrightarrow> only_close c'"
    "was_closed \<Longrightarrow> cn_state c' \<noteq> CDrained \<Longrightarrow> cn_timers c' = cn_timers d"
proof -
  define e where "e = (case r of Err e \<Rightarrow> (conn_error e d)\<lparr>cn_state := error_state e\<rparr> | _ \<Rightarrow> d)"
  have e: "cn_spaces e = cn_spaces d" "cn_path e = cn_path d" "cn_timers e = cn_timers d"
    "cn_state e = (case r of Err e \<Rightarrow> error_state e | _ \<Rightarrow> cn_state d)"
    by (cases r; simp add: e_def conn_error_def)+
  have drained: "is_drained st \<longleftrightarrow> st = CDrained" for st by (cases st) simp_all
  have r: "r \<noteq> Panic" using assms by (auto simp: settle_def)
  have c': "c' = (let c = (if \<not> was_closed \<and> is_closed (cn_state e)
         then if \<not> is_drained (cn_state e) then set_close_timer now (close_common e) else close_common e else e)
       in if \<not> was_drained \<and> is_drained (cn_state c) then stop_timer Close_timer c else c)"
    using assms r unfolding settle_def e_def by (cases r) (auto simp: Let_def simp del: if_split cong: if_cong)
  note defs = c' Let_def set_close_timer_def e drained
  show "cn_spaces c' = cn_spaces d" "cn_path c' = cn_path d"
    "cn_state c' = (case r of Err e \<Rightarrow> error_state e | _ \<Rightarrow> cn_state d)"
    by (simp_all add: defs)
  then show "is_closed (cn_state c') \<Longrightarrow> cn_state c' \<noteq> CDrained \<Longrightarrow> \<not> was_closed \<Longrightarrow> only_close c'"
    "was_closed \<Longrightarrow> cn_state c' \<noteq> CDrained \<Longrightarrow> cn_timers c' = cn_timers d"
    using close_timers [of now e] by (auto simp: c' Let_def e drained only_close_def set_close_timer_def)
qed

lemma good_settle:
  assumes "settle now was_closed was_drained (d, r) = Ok c'" "good d"
  shows "good c'"
proof -
  have "conn_core c' = conn_core d" using settle_Ok(1,2) [OF assms(1)] by (simp add: conn_core_def)
  then show ?thesis using assms(2) good_cong by blast
qed

text \<open>Only a CONNECTION_CLOSE frame drains the connection, and it ends the loop without an error.\<close>

definition drains_cleanly :: "connection \<Rightarrow> connection \<times> ('a, transport_error) outcome \<Rightarrow> bool" where
  "drains_cleanly c res \<longleftrightarrow> (cn_state c \<noteq> CDrained \<and> cn_state (fst res) = CDrained \<longrightarrow> (\<exists>x. snd res = Ok x))"

lemma detect_lost_packets_state [simp]: "cn_state (detect_lost_packets now sid c) = cn_state c"
proof -
  have lose: "cn_state (foldl (lose_packet now sid) d nps) = cn_state d" for d nps
    by (induction nps arbitrary: d) (auto simp: lose_packet_def Let_def split: prod.split)
  show ?thesis by (auto simp: detect_lost_packets_def Let_def lose split: option.split)
qed

lemma on_ack_received_state: "cn_state (fst (on_ack_received B now sid a c)) = cn_state c"
proof -
  have ack: "cn_state (fst (foldl (ack_packet sid) (d, l) ns)) = cn_state d" for d l ns
  proof (induction ns arbitrary: d l)
    case (Cons n ns)
    have "cn_state (fst (ack_packet sid (d, l) n)) = cn_state d"
      by (auto simp: ack_packet_def Let_def split: prod.split option.split)
    then show ?case using Cons.IH by (cases "ack_packet sid (d, l) n") simp
  qed simp
  have "cn_state d = cn_state c" if "foldl (ack_packet sid) (c, None) ns = (d, l)" for ns d l
    using ack [of c None ns] that by simp
  then show ?thesis
    by (auto simp: on_ack_received_def Let_def split: outcome.split prod.split option.split)
qed

lemma frame_drains:
  assumes "cn_state c \<noteq> CDrained" "cn_state (fst (early_frame B now sid f c)) = CDrained"
  shows "snd (early_frame B now sid f c) = Ok False"
  using assms on_ack_received_state [of B now sid]
  by (cases f) (auto simp: early_frame_def Let_def case_prod_unfold split: if_splits)

lemma data_frame_drains:
  assumes "cn_state c \<noteq> CDrained" "cn_state (fst (data_frame B now sid len f c)) = CDrained"
  shows "snd (data_frame B now sid len f c) = Ok False"
  using assms on_ack_received_state [of B now sid]
  by (cases f) (auto simp: data_frame_def Let_def case_prod_unfold split: if_splits)

lemma frame_loop_drains:
  assumes "\<And>f c. cn_state c \<noteq> CDrained \<Longrightarrow> cn_state (fst (handle f c)) = CDrained \<Longrightarrow> snd (handle f c) = Ok False"
  shows "drains_cleanly c (frame_loop B handle p c)"
  using assms
proof (induction B handle p c rule: frame_loop.induct)
  case (1 B handle p c)
  have *: "cn_state d \<noteq> CDrained" if "cn_state c \<noteq> CDrained" "handle f c = (d, r)" "r \<noteq> Ok False" for f d r
    using "1.prems" [OF that(1), of f] that(2,3) by auto
  show ?case
  proof (cases "\<exists>p' f d. (parser_next B p :: (_, transport_error) outcome) = Ok (p', Some (Ok f)) \<and> handle f c = (d, Ok True)")
    case True
    then obtain p' f d where eq: "(parser_next B p :: (_, transport_error) outcome) = Ok (p', Some (Ok f))" "handle f c = (d, Ok True)" by blast
    have "drains_cleanly d (frame_loop B handle p' d)" using 1 eq by simp
    then show ?thesis using * [OF _ eq(2)] by (subst frame_loop.simps) (simp add: eq drains_cleanly_def)
  next
    case False
    then show ?thesis
      by (subst frame_loop.simps)
        (auto simp: drains_cleanly_def split: outcome.split option.split prod.split bool.split dest: *)
  qed
qed

lemma process_packet_drains:
  assumes "cn_state c \<noteq> CDrained" "cn_state (fst (process_packet B now num h payload c)) = CDrained"
  shows "snd (process_packet B now num h payload c) = Ok ()"
proof -
  have early: "drains_cleanly c (process_frames B (early_frame B now sid) payload c)" for sid
    using frame_loop_drains [where handle = "early_frame B now sid", OF frame_drains]
    by (auto simp: process_frames_def drains_cleanly_def split: outcome.split)
  have data: "drains_cleanly c (process_frames B (data_frame B now sid len) payload c)" for sid len
    using frame_loop_drains [where handle = "data_frame B now sid len", OF data_frame_drains]
    by (auto simp: process_frames_def drains_cleanly_def split: outcome.split)
  show ?thesis
    using assms early data
    unfolding process_packet_def process_early_payload_def process_payload_def Let_def case_prod_unfold drains_cleanly_def
    by (fastforce split: space_id.splits option.splits)
qed

text \<open>One step of the task keeps the invariant and moves the phase forward only.\<close>

definition sound_step :: "connection \<Rightarrow> connection \<Rightarrow> bool" where
  "sound_step c c' \<longleftrightarrow> good c' \<and> phase (cn_state c) \<le> phase (cn_state c') \<and> closing_ok c'"

lemma error_phase: "2 \<le> phase (error_state e)"
  by (cases e) simp_all

lemma calm_phase: "calm c d \<Longrightarrow> phase (cn_state c) \<le> phase (cn_state d)"
  by (cases "cn_state c") (auto simp: calm_def)

lemma settle_sound:
  assumes "settle now (is_closed (cn_state c)) was_drained (d, r) = Ok c'" "good d" "calm c d" "closing_ok c" "cn_state c \<noteq> CDrained"
    "cn_state d = CDrained \<longrightarrow> r = Ok ()"
  shows "sound_step c c'"
proof -
  note s = settle_Ok [OF assms(1)]
  have "phase (cn_state c) \<le> 2" using assms(5) by (cases "cn_state c") simp_all
  then have "phase (cn_state c) \<le> phase (cn_state c')"
    using s(3) calm_phase [OF assms(3)] error_phase by (cases r) (simp_all add: le_trans)
  moreover have "closing_ok c'"
  proof (cases "is_closed (cn_state c)")
    case True
    have "cn_state d \<noteq> CDrained" if "cn_state c' \<noteq> CDrained" using that s(3) assms(6) by auto
    then have "cn_timers c' = cn_timers c" if "cn_state c' \<noteq> CDrained"
      using s(5) that assms(3) True by (simp add: calm_def)
    then show ?thesis using True assms(4,5) by (auto simp: closing_ok_def only_close_def)
  next
    case False
    then show ?thesis using s(4) by (auto simp: closing_ok_def)
  qed
  ultimately show ?thesis using good_settle [OF assms(1,2)] by (simp add: sound_step_def)
qed

lemma calm_dedup: "calm c (upd_space sid (\<lambda>s. s\<lparr>ps_dedup := d\<rparr>) c)"
  by (simp add: calm_def)

lemma good_dedup: "good c \<Longrightarrow> good (upd_space sid (\<lambda>s. s\<lparr>ps_dedup := d\<rparr>) c)"
  by (rule good_upd_space) (simp_all add: space_core_def)


lemma upd_dedup_same: "upd_space sid (\<lambda>s. s\<lparr>ps_dedup := ps_dedup (cn_spaces c sid)\<rparr>) c = c"
proof -
  have "(cn_spaces c sid)\<lparr>ps_dedup := ps_dedup (cn_spaces c sid)\<rparr> = cn_spaces c sid" by (cases "cn_spaces c sid") simp
  then show ?thesis by (simp add: upd_space_def)
qed

text \<open>A datagram is ignored but for the duplicate filter, or processed and settled.\<close>

lemma handle_data_cases:
  assumes "handle_data B now data c = Ok c'"
  obtains sid num d h payload c0 where "c0 = upd_space sid (\<lambda>s. s\<lparr>ps_dedup := d\<rparr>) c"
    "c' = c0 \<or> settle now (is_closed (cn_state c)) (is_drained (cn_state c)) (process_packet B now num h payload
      (if \<not> is_closed (cn_state c) then on_packet_authenticated now sid num c0 else c0)) = Ok c'"
proof (cases "header_decode B data (length FAKE_CID) SUPPORTED_VERSIONS")
  case (Ok hp)
  obtain h payload where hp: "hp = (h, payload)" by (cases hp)
  define sid where "sid = header_space h"
  define num where "num = map_option (\<lambda>n. pn_expand n (add64 (rx_packet (cn_spaces c sid)) 1)) (header_number h)"
  define cd where "cd = (case num of None \<Rightarrow> (c, False)
    | Some n \<Rightarrow> (case dedup_insert (ps_dedup (cn_spaces c sid)) n of (d, dup) \<Rightarrow> (upd_space sid (\<lambda>s. s\<lparr>ps_dedup := d\<rparr>) c, dup)))"
  define c0 where "c0 = fst cd"
  obtain d where c0: "c0 = upd_space sid (\<lambda>s. s\<lparr>ps_dedup := d\<rparr>) c"
  proof (cases num)
    case None
    then show ?thesis using that [of "ps_dedup (cn_spaces c sid)"] upd_dedup_same [of sid c] by (simp add: c0_def cd_def)
  next
    case (Some n)
    then show ?thesis using that by (simp add: c0_def cd_def case_prod_unfold)
  qed
  then have "cn_state c0 = cn_state c" by simp
  then have "handle_data B now data c = (if snd cd then Ok c0 else if is_handshake (cn_state c) \<and> is_1rtt h then Ok c0
      else settle now (is_closed (cn_state c)) (is_drained (cn_state c)) (process_packet B now num h payload
        (if \<not> is_closed (cn_state c) then on_packet_authenticated now sid num c0 else c0)))"
    unfolding handle_data_def Ok hp outcome.case prod.case Let_def sid_def [symmetric] num_def [symmetric] cd_def [symmetric]
    by (simp add: case_prod_unfold c0_def cong: if_cong)
  then show ?thesis using that [OF c0, of num h payload] assms by (auto split: if_splits)
qed (use assms that [OF upd_dedup_same [symmetric]] in \<open>auto simp: handle_data_def\<close>)

text \<open>A packet that is processed has a number in range, so that the bookkeeping before it keeps the invariant.\<close>

lemma authenticated_good:
  assumes "good c0" "c1 = (if \<not> closed then on_packet_authenticated now sid num c0 else c0)"
    "settle now was_closed was_drained (process_packet B now num h payload c1) = Ok c'"
    "\<forall>k. rx_packet (cn_spaces c' k) < 2 ^ 62"
  shows "good c1"
proof -
  obtain d r where dr: "process_packet B now num h payload c1 = (d, r)" by force
  have calm: "calm c1 d" using calm_process_packet [of c1 B now num h payload] dr by simp
  have "n < 2 ^ 62" if "num = Some n" "\<not> closed" for n
  proof -
    have "n \<le> rx_packet (cn_spaces c1 sid)" using that on_packet_authenticated_fields(3) assms(2) by simp
    also have "\<dots> = rx_packet (cn_spaces c' sid)" using calm settle_Ok(1) [OF assms(3) [unfolded dr]] by (simp add: calm_def)
    also have "\<dots> < 2 ^ 62" using assms(4) by blast
    finally show ?thesis .
  qed
  then show ?thesis using good_on_packet_authenticated [OF assms(1), of num] assms(1,2) by simp
qed

lemma handle_data_sound:
  assumes "good c" "closing_ok c" "cn_state c \<noteq> CDrained" and data: "handle_data B now data c = Ok c'"
    and rx: "\<forall>k. rx_packet (cn_spaces c' k) < 2 ^ 62"
  shows "sound_step c c'"
  using data
proof (cases rule: handle_data_cases)
  case (1 sid num d h payload c0)
  define c1 where "c1 = (if \<not> is_closed (cn_state c) then on_packet_authenticated now sid num c0 else c0)"
  define pr where "pr = process_packet B now num h payload c1"
  have c0: "good c0" "cn_state c0 = cn_state c" "cn_timers c0 = cn_timers c"
    using good_dedup [OF assms(1)] 1(1) by auto
  then have ok0: "closing_ok c0" using assms(2) by (simp add: closing_ok_def only_close_def)
  show ?thesis
  proof (cases "c' = c0")
    case True
    then show ?thesis using c0 ok0 by (simp add: sound_step_def)
  next
    case False
    obtain d r where dr: "pr = (d, r)" by (cases pr)
    have state: "cn_state c1 = cn_state c" using c0 by (simp add: c1_def on_packet_authenticated_fields)
    then have settled: "settle now (is_closed (cn_state c1)) (is_drained (cn_state c)) (d, r) = Ok c'"
      using False 1(2) dr by (simp add: pr_def c1_def)
    have calm: "calm c1 d" using calm_process_packet [of c1 B now num h payload] dr by (simp add: pr_def)
    have c1: "good c1" "closing_ok c1"
      using authenticated_good [OF c0(1) c1_def _ rx] 1(2) False c0 ok0
      by (auto simp: c1_def on_packet_authenticated_fields closing_ok_def)
    have "good d" using good_process_packet [OF c1(1), of B now num h payload] dr by (simp add: pr_def)
    moreover have "cn_state d = CDrained \<longrightarrow> r = Ok ()"
      using process_packet_drains [of c1 B now num h payload] state assms(3) dr by (simp add: pr_def)
    ultimately have "sound_step c1 c'"
      using settle_sound [OF settled _ calm c1(2)] state assms(3) by simp
    then show ?thesis using state by (simp add: sound_step_def)
  qed
qed

section \<open>The other steps\<close>

lemma discard_space_timers: "is_closed (cn_state c) \<Longrightarrow> cn_timers (discard_space sid c) = cn_timers c"
proof -
  assume closed: "is_closed (cn_state c)"
  have "cn_timers (foldl (\<lambda>c (pn, p). c\<lparr>cn_path := fst (remove_in_flight (cn_path c) pn p)\<rparr>) d ps) = cn_timers d" for d :: connection and ps
    by (induction ps arbitrary: d) (auto split: prod.split)
  then show ?thesis using closed by (simp add: discard_space_def set_loss_detection_timer_closed discard_space_path)
qed

lemma build_close_timers:
  "post (build_packet B now True ae sid c) (\<lambda>c'. cn_timers c' = cn_timers c \<and> cn_state c' = cn_state c)"
  unfolding build_packet_def
  by (auto simp: post_def bindO_eq_Ok sent_frames_default_def Let_def split: if_splits)

lemma poll_space_close_timers:
  assumes "is_closed (cn_state c)"
  shows "post (poll_space B now True blocked sid (c, sent) :: (_, 'e) outcome)
    (\<lambda>(c', sent'). cn_timers c' = cn_timers c \<and> cn_state c' = cn_state c)"
proof -
  define d where "d = (if cn_side c = Client \<and> sid = SHandshake \<and> hi (cn_spaces c SInitial) then discard_space SInitial c else c)"
  have d: "cn_timers d = cn_timers c" "cn_state d = cn_state c"
    using discard_space_timers [OF assms] by (simp_all add: d_def)
  have "post (bindO (build_packet B now True ae sid d) (\<lambda>c. Ok (c, True)) :: (_, 'e) outcome)
      (\<lambda>(c', sent'). cn_timers c' = cn_timers c \<and> cn_state c' = cn_state c)" for ae
    by (rule post_bind [OF build_close_timers]) (simp add: post_Ok d)
  then show ?thesis
    unfolding poll_space_def prod.case Let_def d_def [symmetric] by (auto intro!: post_Ok simp: d)
qed

lemma poll_transmit_timers:
  assumes "closing_ok c"
  shows "post (poll_transmit B now c :: (_, 'e) outcome) (\<lambda>(c', again). cn_state c' = cn_state c \<longrightarrow> closing_ok c')"
proof (cases "is_closed (cn_state c) \<and> cn_state c \<noteq> CDrained")
  case True
  then have close: "(case cn_state c of CDraining \<Rightarrow> True | CClosed _ \<Rightarrow> True | _ \<Rightarrow> False) = True"
    by (cases "cn_state c") simp_all
  define Q where "Q = (\<lambda>(c' :: connection, sent :: bool). cn_timers c' = cn_timers c \<and> cn_state c' = cn_state c)"
  have turn: "post (poll_space B now True blocked sid cs :: (_, 'e) outcome) Q" if "Q cs" for blocked sid cs
  proof -
    obtain d sent where cs: "cs = (d, sent)" by (cases cs)
    have "is_closed (cn_state d)" using that True cs by (simp add: Q_def)
    then have "post (poll_space B now True blocked sid (d, sent) :: (_, 'e) outcome) (\<lambda>(c', sent'). cn_timers c' = cn_timers d \<and> cn_state c' = cn_state d)"
      by (rule poll_space_close_timers)
    then show ?thesis unfolding cs by (rule post_weaken) (use that cs in \<open>auto simp: Q_def\<close>)
  qed
  have Q: "Q (c, False)" by (simp add: Q_def)
  have ok: "closing_ok c'" if "cn_timers c' = cn_timers c" "cn_state c' = cn_state c" for c'
    using that assms by (simp add: closing_ok_def only_close_def)
  show ?thesis
    unfolding poll_transmit_unfold Let_def close
    apply (rule post_if, simp add: post_Ok assms)
    apply (rule post_if, simp add: post_Ok assms)
    apply (rule post_bind [OF turn [OF Q]])
    apply (erule post_bind [OF turn])
    apply (erule post_bind [OF turn])
    apply (auto simp: Q_def intro!: post_Ok ok)
    done
qed (auto simp: post_def closing_ok_def)

lemma poll_transmit_sound:
  assumes "good c" "closing_ok c" "roomy c"
  shows "post (poll_transmit B now c :: (_, unit) outcome) (\<lambda>(c', again). sound_step c c')"
proof -
  have "post (poll_transmit B now c :: (_, unit) outcome) (\<lambda>(c', again). polled (window_full c) c c' \<and> good c')"
    using poll_transmit_polled assms(1,3) by (auto simp: good_def)
  then show ?thesis using poll_transmit_timers [OF assms(2), of B now]
    by (auto simp: post_def sound_step_def polled_def)
qed

lemma send_next_sound:
  assumes "good c" "closing_ok c"
  shows "post (send_next sent_at c) (\<lambda>(c', r). sound_step c c')"
proof -
  have "post (send_next sent_at c) (\<lambda>(c', r). cn_timers c' = cn_timers c)" if "is_closed (cn_state c)"
    unfolding send_next_def Let_def
    by (rule post_bind [where Q = "\<lambda>_. True"])
      (use that in \<open>auto simp: post_def set_loss_detection_timer_closed split: option.splits prod.splits if_splits\<close>)
  then show ?thesis
    using good_send_next [OF assms(1), of sent_at] assms(2)
    by (auto simp: post_def sound_step_def closing_ok_def only_close_def)
qed

lemma timer_poll_only_close:
  assumes "only_close c" "timer_poll (cn_timers c) now = (tt, Some t)"
  shows "t = Close_timer"
  using assms by (auto simp: only_close_def timer_poll_def timer_variants_def List.map_filter_def split: if_splits)

lemma timeout_state: "t \<noteq> Close_timer \<Longrightarrow> cn_state (handle_timeout t now c) = cn_state c"
  by (cases t) (auto simp: handle_timeout_def on_loss_detection_timeout_def space_variants_def split: option.split)

lemma good_handle_timeout: "good c \<Longrightarrow> good (handle_timeout t now c)"
  by (cases t) (auto simp: handle_timeout_def on_loss_detection_timeout_def space_variants_def
      intro!: good_detect_lost_packets good_immediate_ack split: option.split)

lemma timeout_sound:
  assumes "good c" "closing_ok c" "timer_poll (cn_timers c) now = (tt, Some t)"
  shows "sound_step c (handle_timeout t now (c\<lparr>cn_timers := tt\<rparr>))"
proof -
  have "t = Close_timer" if "is_closed (cn_state c)" "cn_state c \<noteq> CDrained"
    using timer_poll_only_close assms(2,3) that by (auto simp: closing_ok_def)
  moreover have "cn_state (handle_timeout Close_timer now d) = CDrained" for d by (simp add: handle_timeout_def)
  moreover have "phase st \<le> 3" for st by (cases st) simp_all
  ultimately show ?thesis
    using assms(1) good_handle_timeout [of "c\<lparr>cn_timers := tt\<rparr>" t now] timeout_state [of t now "c\<lparr>cn_timers := tt\<rparr>"]
    by (cases "t = Close_timer") (auto simp: sound_step_def closing_ok_def)
qed

text \<open>Calls of the application that do not close the connection leave its core, state and timers alone.\<close>

definition same_core :: "connection \<Rightarrow> connection \<Rightarrow> bool" where
  "same_core c c' \<longleftrightarrow> conn_core c' = conn_core c \<and> cn_state c' = cn_state c \<and> cn_timers c' = cn_timers c"

lemma same_core_sound: "same_core c c' \<Longrightarrow> good c \<Longrightarrow> closing_ok c \<Longrightarrow> sound_step c c'"
  using good_cong [of c c'] by (auto simp: same_core_def sound_step_def closing_ok_def only_close_def)

lemma same_core_streams: "same_core c (c\<lparr>cn_streams := st\<rparr>)" "same_core c c"
  by (simp_all add: same_core_def conn_core_def)

lemma post_with_streams: "post (with_streams c r) (same_core c)"
  using same_core_streams by (auto simp: with_streams_def or_else_def post_def bindO_eq_Ok split: outcome.splits)

lemma post_with_pending: "post (with_pending c r) (same_core c)"
proof -
  have "same_core c (set_data_pending p (c\<lparr>cn_streams := st\<rparr>))" for p st
    by (auto simp: same_core_def conn_core_def set_data_pending_def space_core_def)
  then show ?thesis
    using same_core_streams by (auto simp: with_pending_def or_else_def post_def bindO_eq_Ok split: outcome.splits)
qed

lemma app_exec_sound:
  assumes "good c" "closing_ok c"
  shows "post (app_exec a c) (sound_step c)"
proof -
  have close: "sound_step c (conn_close now code reason c)" for now code reason
    using assms close_timers [of now c] phase_closed [of "cn_state c"]
    by (auto simp: sound_step_def closing_ok_def only_close_def conn_close_def set_close_timer_def)
  have "post (app_exec a c) (same_core c)" if "\<forall>now code reason. a \<noteq> AppClose now code reason"
  proof (cases a)
    case (AppOpen d)
    then show ?thesis
      using same_core_streams by (auto simp: conn_open_stream_def post_def bindO_eq_Ok split: if_splits prod.splits)
  next
    case (AppWrite sid data)
    then show ?thesis
      using same_core_streams by (auto simp: conn_write_def post_def bindO_eq_Ok split: if_splits prod.splits)
  next
    case (AppFinish sid)
    then show ?thesis
      using same_core_streams
      by (auto simp: conn_finish_def or_else_def post_def bindO_eq_Ok split: if_splits outcome.splits)
  qed (use that in \<open>auto simp: post_with_streams post_with_pending post_Panic\<close>)
  then show ?thesis
    using close same_core_sound [OF _ assms] by (cases a) (auto simp: post_Ok intro: post_weaken)
qed

section \<open>Reachable connections\<close>

inductive conn_step :: "bytes_api \<Rightarrow> connection \<Rightarrow> connection \<Rightarrow> bool" for B where
  poll: "cn_state c \<noteq> CDrained \<Longrightarrow> poll_transmit B now c = (Ok (c', again) :: (_, unit) outcome) \<Longrightarrow> conn_step B c c'"
| send: "cn_state c \<noteq> CDrained \<Longrightarrow> send_next sent_at c = Ok (c', r) \<Longrightarrow> conn_step B c c'"
| event: "cn_state c \<noteq> CDrained \<Longrightarrow> st_events (cn_streams c) = ev # evs \<Longrightarrow>
    conn_step B c (c\<lparr>cn_streams := (cn_streams c)\<lparr>st_events := evs\<rparr>\<rparr>)"
| app: "cn_state c \<noteq> CDrained \<Longrightarrow> app_exec a c = Ok c' \<Longrightarrow> conn_step B c c'"
| timeout: "cn_state c \<noteq> CDrained \<Longrightarrow> timer_poll (cn_timers c) now = (tt, Some t) \<Longrightarrow>
    conn_step B c (handle_timeout t now (c\<lparr>cn_timers := tt\<rparr>))"
| data: "cn_state c \<noteq> CDrained \<Longrightarrow> handle_data B now data c = Ok c' \<Longrightarrow> conn_step B c c'"

lemma conn_step_sound:
  assumes "conn_step B c c'" "good c" "closing_ok c" "roomy c" "roomy c'"
  shows "sound_step c c'"
  using assms
proof (induction rule: conn_step.induct)
  case (poll c now c' again)
  then show ?case using poll_transmit_sound [of c B now] by (simp add: post_def)
next
  case (send c sent_at c' r)
  then show ?case using send_next_sound [of c sent_at] by (simp add: post_def)
next
  case (event c ev evs)
  then show ?case using same_core_sound [OF same_core_streams(1)] by simp
next
  case (app c a c')
  then show ?case using app_exec_sound [of c a] by (simp add: post_def)
next
  case (timeout c now tt t)
  then show ?case using timeout_sound by simp
next
  case (data c now data c')
  then show ?case using handle_data_sound by (simp add: roomy_def)
qed

text \<open>
  The connections of a client or a server: fresh ones, those that took the first packet of a
  client, and what the steps make of them.  The side condition \<open>roomy\<close> keeps the counters in
  the range in which they do not overflow.
\<close>

inductive conn_reach :: "bytes_api \<Rightarrow> connection \<Rightarrow> bool" for B where
  new: "conn_reach B (conn_new s now)"
| first: "handle_first_packet B now ih payload (conn_new Server created) = (c, Ok ()) \<Longrightarrow> roomy c \<Longrightarrow> conn_reach B c"
| step: "conn_reach B c \<Longrightarrow> conn_step B c c' \<Longrightarrow> roomy c' \<Longrightarrow> conn_reach B c'"

lemma conn_new_sound: "good (conn_new s now)" "closing_ok (conn_new s now)" "roomy (conn_new s now)"
proof -
  let ?c = "\<lparr>cn_side = s, cn_state = CHandshake, cn_path = path_new now, cn_spaces = (\<lambda>_. packet_space_new now),
    highest_space = SInitial, cn_timers = timer_table_default, cn_streams = streams_new s, pending_close = False, app_limited = False\<rparr>"
  have space: "space_ok (packet_space_new now)" "sent_packets (packet_space_new now) = []" "ps_in_flight (packet_space_new now) = 0"
    "next_packet_number (packet_space_new now) = 0" "rx_packet (packet_space_new now) = 0"
    using packet_space_new_inv pending_acks_new_inv
    by (auto simp: space_ok_def packet_space_new_def pending_acks_new_def)
  then have "good ?c"
    by (simp add: good_def conn_inv_def path_ok_def first_ok_def path_new_def spaces_in_flight_def in_flight_default_def bounded_def)
  then show "good (conn_new s now)"
    by (auto simp: conn_new_def Let_def space_core_def intro!: good_upd_space)
  show "closing_ok (conn_new s now)" by (simp add: conn_new_def closing_ok_def Let_def)
  show "roomy (conn_new s now)" using space by (auto simp: roomy_def conn_new_def Let_def)
qed

lemma first_packet_good:
  assumes "handle_first_packet B now ih payload (conn_new s created) = (c, Ok ())" "roomy c"
  shows "good (on_packet_authenticated now SInitial (Some (pn_expand (ih_number ih) 0)) (conn_new s created))"
    "c = fst (process_packet B now (Some (pn_expand (ih_number ih) 0)) (HInitial ih) payload
       (on_packet_authenticated now SInitial (Some (pn_expand (ih_number ih) 0)) (conn_new s created)))"
proof -
  define n where "n = pn_expand (ih_number ih) 0"
  define d where "d = on_packet_authenticated now SInitial (Some n) (conn_new s created)"
  have c: "c = fst (process_packet B now (Some n) (HInitial ih) payload d)"
    using assms(1) by (simp add: handle_first_packet_def n_def d_def Let_def)
  have calm: "calm d c" unfolding c by (rule calm_process_packet)
  have "n \<le> rx_packet (cn_spaces d SInitial)" by (simp add: d_def on_packet_authenticated_fields)
  then have "n < 2 ^ 62" using calm assms(2) by (simp add: calm_def roomy_def le_less_trans)
  then have "good d" unfolding d_def using conn_new_sound(1) by (intro good_on_packet_authenticated) auto
  then show "good (on_packet_authenticated now SInitial (Some (pn_expand (ih_number ih) 0)) (conn_new s created))"
    "c = fst (process_packet B now (Some (pn_expand (ih_number ih) 0)) (HInitial ih) payload
       (on_packet_authenticated now SInitial (Some (pn_expand (ih_number ih) 0)) (conn_new s created)))"
    using c by (simp_all add: d_def n_def)
qed

lemma handle_first_packet_sound:
  assumes "handle_first_packet B now ih payload (conn_new s created) = (c, Ok ())" "roomy c"
  shows "good c" "closing_ok c"
proof -
  define d where "d = on_packet_authenticated now SInitial (Some (pn_expand (ih_number ih) 0)) (conn_new s created)"
  note c = first_packet_good [OF assms, folded d_def]
  show "good c" by (subst c(2)) (rule good_process_packet [OF c(1)])
  have "cn_state d = CHandshake" by (simp add: d_def on_packet_authenticated_fields conn_new_def Let_def)
  moreover have "calm d c" by (subst c(2)) (rule calm_process_packet)
  ultimately show "closing_ok c" by (auto simp: calm_def closing_ok_def)
qed

lemma conn_reach_sound: "conn_reach B c \<Longrightarrow> good c \<and> closing_ok c \<and> roomy c"
proof (induction rule: conn_reach.induct)
  case (new s now)
  then show ?case using conn_new_sound by blast
next
  case (first now ih payload created c)
  then show ?case using handle_first_packet_sound by blast
next
  case (step c c')
  then show ?case using conn_step_sound by (auto simp: sound_step_def)
qed

section \<open>A turn is a sequence of steps\<close>

lemma post_any: "post m (\<lambda>_. True)"
  by (simp add: post_def)

text \<open>Packet numbers only grow, also where nothing is known of the connection.\<close>

definition grows :: "connection \<Rightarrow> connection \<Rightarrow> bool" where
  "grows c c' \<longleftrightarrow> (\<forall>k. next_packet_number (cn_spaces c k) \<le> next_packet_number (cn_spaces c' k) \<and>
     rx_packet (cn_spaces c k) \<le> rx_packet (cn_spaces c' k))"

definition still :: "connection \<Rightarrow> connection \<Rightarrow> bool" where
  "still c c' \<longleftrightarrow> cn_state c' = cn_state c \<and> grows c c'"

lemma grows_trans: "grows c d \<Longrightarrow> grows d e \<Longrightarrow> grows c e"
  unfolding grows_def by (meson le_trans)

lemma still_refl [simp]: "still c c"
  by (simp add: still_def grows_def)

lemma still_trans: "still c d \<Longrightarrow> still d e \<Longrightarrow> still c e"
  using grows_trans by (auto simp: still_def)

lemma still_upd [simp]:
  "still c (upd_acks sid f d) = still c d" "still c (d\<lparr>cn_streams := st\<rparr>) = still c d" "still c (d\<lparr>cn_path := path\<rparr>) = still c d"
  "still c (d\<lparr>app_limited := l\<rparr>) = still c d" "still c (d\<lparr>pending_close := l\<rparr>) = still c d" "still c (stop_timer t d) = still c d"
  "still c (set_timer t i d) = still c d" "still c (set_loss_detection_timer d) = still c d" "still c (emit ev d) = still c d"
  by (auto simp: still_def grows_def)

lemma still_upd_space:
  assumes "still c d" "next_packet_number (cn_spaces d sid) \<le> next_packet_number (f (cn_spaces d sid))"
    "rx_packet (cn_spaces d sid) \<le> rx_packet (f (cn_spaces d sid))"
  shows "still c (upd_space sid f d)"
  using assms unfolding still_def grows_def by (auto intro: le_trans)

lemma still_discard: "still c (discard_space sid c)"
  by (auto simp: still_def grows_def)

lemma populate_packet_still: "post (populate_packet B now sid c w) (\<lambda>(c', fr, w'). still c c')"
  unfolding populate_packet_def
  apply (rule post_bind [OF post_any], clarify)
  apply (rule post_bind [where Q = "\<lambda>(c', fr, w'). still c c'"])
   apply (auto intro!: post_bind [OF post_any] post_Ok still_upd_space)[1]
  apply clarify
  apply (rule post_bind [where Q = "\<lambda>(c', w'). still c c'"])
   apply (auto intro!: post_bind [OF post_any] post_Ok still_upd_space)[1]
  apply (auto intro!: post_bind [OF post_any] post_Ok still_upd_space simp: Let_def)
  done

lemma build_packet_still: "post (build_packet B now close ae sid c :: (_, 'e) outcome) (still c)"
  unfolding build_packet_def
proof (rule post_bind [where Q = "\<lambda>x. get_tx_number (cn_spaces c sid) = (Ok x :: (_, 'e) outcome)"], goal_cases)
  case (2 x)
  then obtain s n where x: "x = (s, n)" "get_tx_number (cn_spaces c sid) = (Ok (s, n) :: (_, 'e) outcome)" by (cases x) auto
  have s: "still c (upd_space sid (\<lambda>_. s) c)"
    by (rule still_upd_space) (use x(2) in \<open>auto simp: get_tx_number_def add64_small split: if_splits\<close>)
  have populate: "post (populate_packet B now sid (upd_space sid (\<lambda>_. s) c) w :: (_, 'e) outcome) (\<lambda>(c', fr, w'). still c c')" for w
    by (rule post_weaken [OF populate_packet_still]) (auto intro: still_trans [OF s])
  show ?case
    unfolding x(1) prod.case Let_def
    apply (rule post_bind [OF post_any], rule post_bind [OF post_any], rule post_bind [OF post_any])
    apply (rule post_bind [where Q = "\<lambda>(c', fr, w'). still c c'"])
     apply (rule post_if, rule post_bind [OF post_any], simp add: post_Ok s)
     apply (rule populate)
    apply (auto intro!: post_Ok)
    done
qed (simp add: post_def)

lemma poll_transmit_still: "post (poll_transmit B now c :: (_, 'e) outcome) (\<lambda>(c', again). still c c')"
proof -
  define Q where "Q = (\<lambda>(c' :: connection, sent :: bool). still c c')"
  have turn: "post (poll_space B now close blocked sid cs :: (_, 'e) outcome) Q" if "Q cs" for close blocked sid cs
  proof -
    obtain d sent where cs: "cs = (d, sent)" by (cases cs)
    have "post (bindO (build_packet B now close ae sid e) (\<lambda>c. Ok (c, True)) :: (_, 'e) outcome) Q"
      if "still c e" for ae e
      by (rule post_bind [OF build_packet_still]) (auto simp: Q_def intro!: post_Ok intro: still_trans [OF that])
    then show ?thesis using that still_trans [OF _ still_discard]
      unfolding poll_space_def cs prod.case Let_def by (auto intro!: post_Ok simp: Q_def)
  qed
  have Q: "Q (c, False)" by (simp add: Q_def)
  show ?thesis
    unfolding poll_transmit_unfold Let_def
    apply (rule post_if, simp add: post_Ok)
    apply (rule post_if, simp add: post_Ok)
    apply (rule post_bind [OF turn [OF Q]])
    apply (erule post_bind [OF turn])
    apply (erule post_bind [OF turn])
    apply (auto simp: Q_def intro!: post_Ok)
    done
qed

lemma send_next_still: "post (send_next sent_at c) (\<lambda>(c', r). still c c')"
proof -
  have spaces: "still c (c\<lparr>cn_path := path, cn_spaces := spaces\<rparr>)"
    if "send_one (cn_path c) (cn_spaces c) sent_at = (Ok (path, spaces, r) :: (_, unit) outcome)" for path spaces r
  proof -
    have "spaces = cn_spaces c \<or> (\<exists>m. spaces = (cn_spaces c)(sp_space_id m := fst (ps_sent (cn_spaces c (sp_space_id m)) m)))"
    proof (cases "sending_queue (cn_path c)")
      case (Cons q qs)
      then show ?thesis
        using that by (cases sent_at) (auto simp: send_one_def Let_def case_prod_unfold
          intro!: disjI2 exI [of _ "(sch_meta q)\<lparr>time_sent := the sent_at\<rparr>"])
    qed (use that in \<open>simp add: send_one_def\<close>)
    moreover have "next_packet_number (fst (ps_sent s m)) = next_packet_number s" "rx_packet (fst (ps_sent s m)) = rx_packet s" for s m
      by (simp_all add: ps_sent_def Let_def)
    ultimately show ?thesis by (auto simp: still_def grows_def)
  qed
  show ?thesis
    unfolding send_next_def Let_def
    by (rule post_bind [where Q = "\<lambda>(path, spaces, r). send_one (cn_path c) (cn_spaces c) sent_at = (Ok (path, spaces, r) :: (_, unit) outcome)"])
      (auto simp: post_def spaces split: option.splits prod.splits if_splits)
qed

lemma app_exec_state: "post (app_exec a c) (\<lambda>c'. cn_state c \<noteq> CDrained \<longrightarrow> cn_state c' \<noteq> CDrained)"
  by (cases a) (auto simp: post_def conn_close_def conn_open_stream_def conn_write_def conn_finish_def with_pending_def with_streams_def or_else_def set_data_pending_def bindO_eq_Ok split: if_splits outcome.splits prod.splits)


lemma poll_burst_steps:
  "poll_burst B now n c = Ok c' \<Longrightarrow> cn_state c \<noteq> CDrained \<Longrightarrow> (conn_step B)\<^sup>*\<^sup>* c c' \<and> cn_state c' = cn_state c"
proof (induction n arbitrary: c)
  case (Suc n)
  then obtain d again where d: "poll_transmit B now c = (Ok (d, again) :: (_, unit) outcome)"
      "(if again then poll_burst B now n d else Ok d) = Ok c'"
    by (auto simp: bindO_eq_Ok)
  have "conn_step B c d" "cn_state d = cn_state c"
    using conn_step.poll [OF Suc.prems(2) d(1)] poll_transmit_still [of B now c] d(1) by (auto simp: post_def still_def)
  then show ?case using Suc.IH [of d] Suc.prems(2) d(2) by (cases again) (auto intro: converse_rtranclp_into_rtranclp)
qed simp

lemma send_queued_steps:
  "send_queued sent_at n c = Ok (c', out) \<Longrightarrow> cn_state c \<noteq> CDrained \<Longrightarrow> (conn_step B)\<^sup>*\<^sup>* c c' \<and> cn_state c' = cn_state c"
proof (induction n arbitrary: c out)
  case (Suc n)
  then obtain d r where d: "send_next (sent_at n) c = Ok (d, r)" "r = None \<and> c' = d \<or> (\<exists>out. send_queued sent_at n d = Ok (c', out))"
    by (fastforce simp: bindO_eq_Ok split: option.splits)
  have "conn_step B c d" "cn_state d = cn_state c"
    using conn_step.send [OF Suc.prems(2) d(1)] send_next_still [of "sent_at n" c] d(1) by (auto simp: post_def still_def)
  then show ?case using Suc.IH [of d] Suc.prems(2) d(2) by (auto intro: converse_rtranclp_into_rtranclp)
qed simp

lemma app_execs_steps:
  "app_execs as c = Ok c' \<Longrightarrow> cn_state c \<noteq> CDrained \<Longrightarrow> (conn_step B)\<^sup>*\<^sup>* c c'"
proof (induction as arbitrary: c)
  case (Cons a as)
  then obtain d where d: "app_exec a c = Ok d" "app_execs as d = Ok c'" by (auto simp: bindO_eq_Ok)
  have "conn_step B c d" "cn_state d \<noteq> CDrained"
    using conn_step.app [OF Cons.prems(2) d(1)] app_exec_state [of a c] d(1) Cons.prems(2) by (auto simp: post_def)
  then show ?case using Cons.IH [OF d(2)] by (auto intro: converse_rtranclp_into_rtranclp)
qed simp

lemma timer_poll_None: "timer_poll tt now = (tt', None) \<Longrightarrow> tt' = tt"
  by (auto simp: timer_poll_def split: option.splits prod.splits if_splits)

lemma select_next_steps:
  assumes "select_next B app now inbox c = Ok (c', inbox')" "cn_state c \<noteq> CDrained"
  shows "(conn_step B)\<^sup>*\<^sup>* c c'"
proof (cases "st_events (cn_streams c)")
  case (Cons ev evs)
  let ?d = "c\<lparr>cn_streams := (cn_streams c)\<lparr>st_events := evs\<rparr>\<rparr>"
  have "app_execs (app ev) ?d = Ok c'" using assms(1) Cons by (auto simp: select_next_def bindO_eq_Ok)
  then show ?thesis
    using app_execs_steps [of "app ev" ?d] conn_step.event [OF assms(2) Cons] assms(2)
    by (auto intro: converse_rtranclp_into_rtranclp)
next
  case Nil
  obtain tt t where poll: "timer_poll (cn_timers c) now = (tt, t)" by fastforce
  show ?thesis
  proof (cases t)
    case (Some x)
    then show ?thesis using assms Nil poll conn_step.timeout by (force simp: select_next_def)
  next
    case None
    then have "tt = cn_timers c" using timer_poll_None poll by blast
    then show ?thesis
      using assms Nil poll None
      by (auto simp: select_next_def bindO_eq_Ok split: list.splits intro!: r_into_rtranclp [of "conn_step B"] conn_step.data [of _ B])
  qed
qed

lemma run_turn_steps:
  assumes "run_turn B app now sent_at woken inbox c = Ok (c', inbox', out)"
  shows "(conn_step B)\<^sup>*\<^sup>* c c'"
proof (cases "cn_state c = CDrained")
  case False
  then obtain d e where turn: "poll_burst B now BURST c = Ok d"
      "send_queued sent_at (length (sending_queue (cn_path d))) d = Ok (e, out)" "select_next B app woken inbox e = Ok (c', inbox')"
    using assms by (auto simp: run_turn_def bindO_eq_Ok)
  then have "(conn_step B)\<^sup>*\<^sup>* c d" "(conn_step B)\<^sup>*\<^sup>* d e" "(conn_step B)\<^sup>*\<^sup>* e c'"
    using poll_burst_steps [OF turn(1) False] send_queued_steps [OF turn(2)] select_next_steps [OF turn(3)] False by auto
  then show ?thesis by (metis rtranclp_trans)
qed (use assms in \<open>simp add: run_turn_def\<close>)

lemma calm_grows: "calm c d \<Longrightarrow> grows c d"
  by (simp add: calm_def grows_def)

lemma authenticated_grows: "grows c (on_packet_authenticated now sid num c)"
  by (auto simp: grows_def on_packet_authenticated_def Let_def case_prod_unfold split: option.split)

lemma handle_data_grows:
  assumes "handle_data B now data c = Ok c'"
  shows "grows c c'"
  using assms
proof (cases rule: handle_data_cases)
  case (1 sid num d h payload c0)
  define c1 where "c1 = (if \<not> is_closed (cn_state c) then on_packet_authenticated now sid num c0 else c0)"
  obtain e r where er: "process_packet B now num h payload c1 = (e, r)" by fastforce
  have "grows c c0" by (simp add: 1(1) grows_def)
  moreover have "grows c0 c1" using authenticated_grows by (simp add: c1_def grows_def)
  moreover have "calm c1 e" using calm_process_packet [of c1 B now num h payload] er by simp
  then have "grows c1 c'" if "c' \<noteq> c0"
    using settle_Ok(1) [of now _ _ e r c'] 1(2) that er by (simp add: c1_def calm_def grows_def)
  ultimately show ?thesis using grows_trans by blast
qed

lemma conn_step_grows: "conn_step B c c' \<Longrightarrow> grows c c'"
proof (induction rule: conn_step.induct)
  case (poll c now c' again)
  then show ?case using poll_transmit_still [of B now c, where 'e = unit] by (auto simp: post_def still_def)
next
  case (send c sent_at c' r)
  then show ?case using send_next_still [of sent_at c] by (simp add: post_def still_def)
next
  case (app c a c')
  have "post (app_exec a c) (grows c)"
    by (cases a) (auto simp: post_def conn_close_def conn_open_stream_def conn_write_def conn_finish_def with_pending_def
        with_streams_def or_else_def set_data_pending_def set_close_timer_def bindO_eq_Ok grows_def split: if_splits outcome.splits prod.splits)
  then show ?case using app by (simp add: post_def)
next
  case (timeout c now tt t)
  have "calm d (handle_timeout t now d)" if "t \<noteq> Close_timer" for d
    using that by (cases t) (auto simp: handle_timeout_def on_loss_detection_timeout_def space_variants_def
        intro!: calm_timer calm_detect split: option.split)
  then have "grows d (handle_timeout t now d)" for d
    using calm_grows by (cases "t = Close_timer") (auto simp: handle_timeout_def grows_def)
  from this [of "c\<lparr>cn_timers := tt\<rparr>"] show ?case by (simp add: grows_def)
next
  case (data c now data c')
  then show ?case by (simp add: handle_data_grows)
qed (simp add: grows_def)

lemma reach_steps:
  assumes "(conn_step B)\<^sup>*\<^sup>* c c'" "conn_reach B c" "roomy c'"
  shows "conn_reach B c'"
  using assms
proof (induction rule: rtranclp_induct)
  case (step d e)
  have "roomy d" using conn_step_grows [OF step.hyps(2)] step.prems(2) unfolding grows_def roomy_def by (meson le_less_trans)
  then show ?case using step conn_reach.step by blast
qed

lemma steps_phase:
  assumes "(conn_step B)\<^sup>*\<^sup>* c c'" "conn_reach B c" "roomy c'"
  shows "phase (cn_state c) \<le> phase (cn_state c')"
  using assms
proof (induction rule: rtranclp_induct)
  case (step d e)
  have d: "roomy d" using conn_step_grows [OF step.hyps(2)] step.prems(2) unfolding grows_def roomy_def by (meson le_less_trans)
  then have "conn_reach B d" using reach_steps [OF step.hyps(1) step.prems(1)] by blast
  then have "sound_step d e" using conn_step_sound [OF step.hyps(2)] conn_reach_sound [of B d] step.prems(2) by blast
  then show ?case using step.IH [OF step.prems(1) d] by (simp add: sound_step_def)
qed simp

section \<open>What an acknowledgement removes\<close>

text \<open>The packets in flight, by space and number.\<close>

definition in_flight_map :: "connection \<Rightarrow> space_id \<Rightarrow> nat \<Rightarrow> sent_packet option" where
  "in_flight_map c k = map_of (sent_packets (cn_spaces c k))"

lemma in_flight_map_upd [simp]:
  "in_flight_map (c\<lparr>cn_path := p\<rparr>) = in_flight_map c" "in_flight_map (c\<lparr>cn_streams := st\<rparr>) = in_flight_map c"
  "in_flight_map (set_loss_detection_timer c) = in_flight_map c"
  by (simp_all add: in_flight_map_def fun_eq_iff)

lemma in_flight_map_space:
  "in_flight_map (upd_space sid f c) k = (if k = sid then map_of (sent_packets (f (cn_spaces c sid))) else in_flight_map c k)"
  by (simp add: in_flight_map_def)

lemma in_flight_map_acks [simp]: "in_flight_map (upd_acks sid f c) = in_flight_map c"
  by (simp add: in_flight_map_def fun_eq_iff)

lemma ps_take_lookup: "map_of (sent_packets (fst (ps_take s n))) = (map_of (sent_packets s))(n := None)"
  by (auto simp: ps_take_def map_of_bt_remove fun_eq_iff split: option.split)

lemma lose_packet_in_flight:
  "in_flight_map (lose_packet now sid c (n, p)) k = (in_flight_map c k)(n := if k = sid then None else in_flight_map c k n)"
  by (auto simp: lose_packet_def Let_def in_flight_map_space ps_take_lookup case_prod_unfold)
    (simp add: in_flight_map_def)

lemma ack_packet_in_flight:
  "in_flight_map (fst (ack_packet sid (c, l) n)) k = (in_flight_map c k)(n := if k = sid then None else in_flight_map c k n)"
proof -
  have "map_of (sent_packets (cn_spaces c sid)) n = None" if "snd (ps_take (cn_spaces c sid) n) = None"
    using that by (simp add: ps_take_def split: option.splits)
  then show ?thesis
    using ps_take_lookup [of "cn_spaces c sid" n]
    by (auto simp: ack_packet_def Let_def in_flight_map_space case_prod_unfold split: prod.split option.split)
      (simp_all add: in_flight_map_def fun_upd_idem)
qed

lemma ack_packets_in_flight:
  "in_flight_map (fst (foldl (ack_packet sid) (c, l) ns)) k n = (if k = sid \<and> n \<in> set ns then None else in_flight_map c k n)"
proof (induction ns arbitrary: c l)
  case (Cons m ns)
  then show ?case using ack_packet_in_flight [of sid c l m k] by (cases "ack_packet sid (c, l) m") auto
qed simp

lemma lose_packets_in_flight:
  "in_flight_map (foldl (lose_packet now sid) c nps) k n = (if k = sid \<and> n \<in> fst ` set nps then None else in_flight_map c k n)"
proof (induction nps arbitrary: c)
  case (Cons np nps)
  then show ?case using lose_packet_in_flight [of now sid c "fst np" "snd np" k] by auto
qed simp

text \<open>Loss detection only forgets packets of its space that are not above the largest acknowledged one.\<close>

lemma detect_in_flight:
  "in_flight_map (detect_lost_packets now sid c) k n = in_flight_map c k n \<or>
     in_flight_map (detect_lost_packets now sid c) k n = None \<and> k = sid \<and>
     (\<exists>m. largest_acked_packet (cn_spaces c sid) = Some m \<and> n \<le> m)"
proof -
  have same: "in_flight_map (upd_space sid (\<lambda>s. s\<lparr>loss_time := t\<rparr>) c) = in_flight_map c" for t
    by (auto simp: in_flight_map_def fun_eq_iff)
  show ?thesis
    by (auto simp: detect_lost_packets_def Let_def lose_packets_in_flight same dest!: set_takeWhileD split: option.split)
qed

lemma on_ack_received_in_flight:
  assumes "on_ack_received B now sid a c = (c', Ok ())" "ack_ranges B a = (Ok rs :: (_, transport_error) outcome)"
  shows "in_flight_map c' k n = (if k = sid \<and> n \<in> set (range_numbers rs) then None else in_flight_map c k n) \<or>
    in_flight_map c' k n = None \<and> k = sid"
proof -
  obtain d l where d: "foldl (ack_packet sid) (c, None) (range_numbers rs) = (d, l)" by fastforce
  have acked: "in_flight_map d k n = (if k = sid \<and> n \<in> set (range_numbers rs) then None else in_flight_map c k n)"
    using ack_packets_in_flight [of sid c None "range_numbers rs" k n] d by simp
  have same: "in_flight_map (upd_space sid f d) = in_flight_map d" if "\<And>s. sent_packets (f s) = sent_packets s" for f
    using that by (auto simp: in_flight_map_def fun_eq_iff)
  show ?thesis
  proof (cases l)
    case None
    then show ?thesis using assms d acked by (auto simp: on_ack_received_def split: if_splits)
  next
    case (Some p)
    define e where "e = (upd_space sid (\<lambda>s. s\<lparr>largest_acked_packet := Some (case largest_acked_packet s of None \<Rightarrow> ack_largest a
        | Some prev \<Rightarrow> max prev (ack_largest a)), largest_acked_packet_sent := now\<rparr>) d)"
    have "\<exists>path. c' = set_loss_detection_timer (detect_lost_packets now sid (e\<lparr>cn_path := path\<rparr>))"
      using assms d Some by (auto simp: on_ack_received_def Let_def e_def split: if_splits)
    then obtain path where c': "c' = set_loss_detection_timer (detect_lost_packets now sid (e\<lparr>cn_path := path\<rparr>))" by blast
    show ?thesis
      using detect_in_flight [of now sid "e\<lparr>cn_path := path\<rparr>" k n] acked same by (auto simp: c' e_def)
  qed
qed

section \<open>Properties\<close>

text \<open>
  C2. In every state a connection can reach, by any interleaving of polling, sending, events, calls of
  the application, timeouts and arbitrary datagrams from the network, its parts agree: in each of the three
  packet number spaces the packets in flight are numbered below the next number and their sizes add up to
  the counter of the space, the queued packets have numbers nobody else uses and fit the MTU, and
  the path counts exactly the bytes the three spaces have in flight.
\<close>

theorem reachable_connection_ok:
  assumes "conn_reach B c"
  shows "conn_inv c \<and> if_bytes (np_in_flight (cn_path c)) =
    ps_in_flight (cn_spaces c SInitial) + ps_in_flight (cn_spaces c SHandshake) + ps_in_flight (cn_spaces c SData)"
  using conn_reach_sound [OF assms] by (auto simp: good_def conn_inv_def path_ok_def spaces_in_flight_def)

theorem reachable_connection_ok_witness:
  "conn_inv (conn_close 5 7 [] (conn_new Client 0))"
proof -
  have "app_exec (AppClose 5 7 []) (conn_new Client 0) = Ok (conn_close 5 7 [] (conn_new Client 0))" by simp
  moreover have "roomy (conn_close 5 7 [] (conn_new Client 0))"
    using conn_new_sound(3) [of Client 0] by (simp add: roomy_def conn_close_def set_close_timer_def)
  moreover have "cn_state (conn_new Client 0) \<noteq> CDrained" by (simp add: conn_new_def Let_def)
  ultimately have "conn_reach std_bytes (conn_close 5 7 [] (conn_new Client 0))"
    using conn_reach.step conn_reach.new conn_step.app by blast
  from reachable_connection_ok [OF this] show ?thesis by simp
qed

text \<open>
  C7. A turn of the loop of \<open>run_connection\<close> - the burst of polls, sending the queue, and an event, a
  timeout or a datagram - leads from a reachable connection to a reachable one, and never back to an earlier
  phase: handshake, established, closed, drained.
\<close>

theorem turn_reaches:
  assumes "conn_reach B c" "run_turn B app now sent_at woken inbox c = Ok (c', inbox', out)" "roomy c'"
  shows "conn_reach B c' \<and> phase (cn_state c) \<le> phase (cn_state c')"
  using reach_steps [OF run_turn_steps [OF assms(2)] assms(1,3)] steps_phase [OF run_turn_steps [OF assms(2)] assms(1,3)] ..

lemma idle_server_turn:
  "run_turn std_bytes (\<lambda>_. []) 1 (\<lambda>_. Some 1) 2 [] (conn_new Server 0) = Ok (conn_new Server 0, [], [])"
proof -
  have idle_space: "sendable_is_empty (space_can_send (conn_new Server 0) sid)" for sid
    by (cases sid) (simp_all add: space_can_send_def conn_new_def Let_def packet_space_new_def ps_can_send_def acks_can_send_def
        sendable_is_empty_def retransmits_is_empty_def retransmits_default_def pending_acks_new_def can_send_stream_data_def
        streams_new_def pq_iter_def pending_queue_new_def)
  have state: "cn_state (conn_new Server 0) = CHandshake" by (simp add: conn_new_def Let_def)
  have turn: "poll_space std_bytes 1 False blocked sid (conn_new Server 0, False) = (Ok (conn_new Server 0, False) :: (_, unit) outcome)"
    for blocked sid by (simp only: poll_space_def Let_def prod.case idle_space simp_thms if_True)
  from state have "poll_transmit std_bytes 1 (conn_new Server 0) = (Ok (conn_new Server 0, False) :: (_, unit) outcome)"
    by (simp only: poll_transmit_unfold Let_def state turn) (simp add: Let_def turn del: One_nat_def)
  then have burst: "poll_burst std_bytes 1 BURST (conn_new Server 0) = Ok (conn_new Server 0)"
    using poll_burst.simps(2) [of std_bytes 1 127] by (simp add: BURST_def)
  have idle: "timer_poll (cn_timers (conn_new Server 0)) 2 = (cn_timers (conn_new Server 0), None)"
    "sending_queue (cn_path (conn_new Server 0)) = []" "st_events (cn_streams (conn_new Server 0)) = []"
    by (simp_all add: timer_poll_def conn_new_def Let_def timer_table_default_def timer_variants_def List.map_filter_def
        path_new_def streams_new_def)
  have "select_next std_bytes (\<lambda>_. []) 2 [] (conn_new Server 0) = Ok (conn_new Server 0, [])"
    by (simp add: select_next_def idle)
  then show ?thesis
    using state by (simp add: run_turn_def burst [simplified] idle)
qed

theorem turn_reaches_witness: "conn_reach std_bytes (conn_new Server 0)"
  using turn_reaches [OF conn_reach.new idle_server_turn conn_new_sound(3)] ..

text \<open>
  C8. A connection that was closed, by either side or by an error, ends up drained: in every reachable
  closed state the closing timer is armed and it is the only timer, so that once its time has come the next
  timeout is the closing timeout, which drains the connection and ends its task.
\<close>

theorem closed_connection_drains:
  assumes "conn_reach B c" "is_closed (cn_state c)" "cn_state c \<noteq> CDrained"
  shows "\<exists>t. \<forall>now. timer_poll (cn_timers c) now = (if t \<le> now then (\<lambda>_. None, Some Close_timer) else (cn_timers c, None)) \<and>
    cn_state (handle_timeout Close_timer now (c\<lparr>cn_timers := \<lambda>_. None\<rparr>)) = CDrained"
proof -
  obtain t where "cn_timers c = (\<lambda>_. None)(Close_timer := Some t)"
    using conn_reach_sound [OF assms(1)] assms(2,3) by (auto simp: closing_ok_def only_close_def)
  then show ?thesis
    by (intro exI [of _ t]) (auto simp: timer_poll_def timer_variants_def List.map_filter_def handle_timeout_def fun_eq_iff)
qed

theorem closed_connection_drains_witness:
  "\<exists>t. timer_poll (cn_timers (conn_close 5 7 [] (conn_new Client 0))) t = (\<lambda>_. None, Some Close_timer)"
proof -
  let ?c = "conn_close 5 7 [] (conn_new Client 0)"
  have new: "cn_state (conn_new Client 0) = CHandshake" by (simp add: conn_new_def Let_def)
  then have state: "is_closed (cn_state ?c)" "cn_state ?c \<noteq> CDrained" by (simp_all add: conn_close_def)
  have "roomy ?c" using conn_new_sound(3) [of Client 0] by (simp add: roomy_def conn_close_def set_close_timer_def)
  then have "conn_reach std_bytes ?c"
    using new by (intro conn_reach.step [OF conn_reach.new conn_step.app [of "conn_new Client 0" "AppClose 5 7 []"]]) simp_all
  from closed_connection_drains [OF this state] show ?thesis by (metis order_refl)
qed

text \<open>
  C9. \<open>poll_transmit\<close> respects the congestion window and the MTU: on a reachable connection it only appends to the
  sending queue packets of at most 1472 bytes, and none of them is ack-eliciting when the bytes in flight fill
  the window of the congestion controller; it changes neither the state nor what was received.
\<close>

theorem poll_respects_window:
  assumes "conn_reach B c"
  shows "case (poll_transmit B now c :: (_, 'e) outcome) of
      Ok (c', again) \<Rightarrow>
        \<exists>qs. sending_queue (cn_path c') = sending_queue (cn_path c) @ qs \<and>
          (\<forall>q\<in>set qs. length (sch_packet q) \<le> 1472 \<and>
             (nr_window (congestion (cn_path c)) \<le> if_bytes (np_in_flight (cn_path c)) \<longrightarrow> \<not> sp_ack_eliciting (sch_meta q))) \<and>
          cn_state c' = cn_state c \<and> (\<forall>k. rx_packet (cn_spaces c' k) = rx_packet (cn_spaces c k))
    | _ \<Rightarrow> True"
proof -
  have "post (poll_transmit B now c :: (_, 'e) outcome) (\<lambda>(c', again). polled (window_full c) c c' \<and> good c')"
    using conn_reach_sound [OF assms] by (intro poll_transmit_polled) (auto simp: good_def)
  then show ?thesis
    by (auto simp: post_def polled_def window_full_def INITIAL_MTU_def split: outcome.split)
qed

theorem poll_respects_window_witness:
  "case (poll_transmit std_bytes 1 (conn_new Client 0) :: (_, unit) outcome) of
      Ok (c', again) \<Rightarrow> \<exists>qs. sending_queue (cn_path c') = qs \<and> (\<forall>q\<in>set qs. length (sch_packet q) \<le> 1472)
    | _ \<Rightarrow> True"
proof -
  have "sending_queue (cn_path (conn_new Client 0)) = []" by (simp add: conn_new_def path_new_def Let_def)
  then show ?thesis
    using poll_respects_window [OF conn_reach.new [of std_bytes Client 0], of 1, where 'e = unit]
    by (auto split: outcome.splits)
qed


text \<open>A connection with one packet in flight, and the frame that acknowledges it.\<close>

definition one_in_flight :: connection where
  "one_in_flight = upd_space SData (\<lambda>s. s\<lparr>next_packet_number := 1, ps_in_flight := 30,
     sent_packets := [(0, \<lparr>time_sent = 3, sp_size = 30, sp_ack_eliciting = True, sp_largest_acked = None,
       sp_retransmits = None, sp_stream_frames = [], sp_number = 0, sp_space_id = SData\<rparr>)]\<rparr>) (conn_new Client 0)"

definition ack_of_one :: ack where
  "ack_of_one = \<lparr>ack_largest = 0, ack_delay = 0, ack_additional = [0], ack_ecn = None\<rparr>"


end
