(* ===== verification/Stream_Reliability.thy ===== *)
theory Stream_Reliability
  imports Connection_Steps
begin

text \<open>
  The sending halves never forget a byte: every byte that was sent once is released,
  acknowledged, marked for retransmission or carried by a packet, and a stream with something to
  send stands in the queue.  The lemmas say what each operation on the stream tables does to this
  account: writing STREAM frames moves bytes from a buffer to the frames, a lost frame gives them
  back, an acknowledged one settles them.
\<close>

section \<open>One send buffer\<close>

text \<open>The counters of a buffer agree with its segments.\<close>

definition sb_ok :: "send_buffer \<Rightarrow> bool" where
  "sb_ok sb \<longleftrightarrow> sb_offset sb < 2 ^ 62 \<and> unacked_len sb = length (concat (unacked_segments sb)) \<and>
     unacked_len sb \<le> sb_offset sb \<and> unsent sb \<le> sb_offset sb \<and> rs_wf (sb_acks sb) \<and> rs_wf (sb_retransmits sb)"

text \<open>Offsets that are released or acknowledged, and what is known of the bytes sent once.\<close>

definition sb_settled :: "send_buffer \<Rightarrow> nat set" where
  "sb_settled sb = {..<sb_base sb} \<union> elems (sb_acks sb)"

definition sb_covered :: "send_buffer \<Rightarrow> nat set \<Rightarrow> bool" where
  "sb_covered sb F \<longleftrightarrow> {..<unsent sb} \<subseteq> sb_settled sb \<union> elems (sb_retransmits sb) \<union> F"

abbreviation offsets :: "range \<Rightarrow> nat set" where
  "offsets r \<equiv> {fst r..<snd r}"

lemma sb_covered_mono: "sb_covered sb F \<Longrightarrow> F \<subseteq> G \<Longrightarrow> sb_covered sb G"
  by (auto simp: sb_covered_def)

lemma sb_default_ok: "sb_ok send_buffer_default" "sb_covered send_buffer_default F"
  by (simp_all add: sb_ok_def sb_covered_def send_buffer_default_def)

lemma sb_write_ok:
  assumes "sb_ok sb" "sb_covered sb F" "sb_offset (sb_write sb data) < 2 ^ 62" "length data < 2 ^ 62"
  shows "sb_ok (sb_write sb data) \<and> sb_covered (sb_write sb data) F"
proof -
  have add: "add64 (sb_offset sb) (length data) = sb_offset sb + length data"
    "add64 (unacked_len sb) (length data) = unacked_len sb + length data"
    using assms(1,4) by (simp_all add: sb_ok_def add64_small)
  have "unacked_len sb \<le> sb_offset sb" "sb_offset sb < 2 ^ 62" using assms(1) by (simp_all add: sb_ok_def)
  then have "sb_base (sb_write sb data) = sb_base sb"
    using assms(4) by (simp add: sb_base_def sb_write_def add sub64_small)
  moreover have w: "sb_write sb data = sb\<lparr>unacked_len := unacked_len sb + length data,
      sb_offset := sb_offset sb + length data, unacked_segments := unacked_segments sb @ [data]\<rparr>"
    by (simp add: sb_write_def add)
  have "sb_ok (sb_write sb data)" using assms(1,3) unfolding w by (simp add: sb_ok_def)
  moreover have "unsent (sb_write sb data) = unsent sb" "sb_acks (sb_write sb data) = sb_acks sb"
    "sb_retransmits (sb_write sb data) = sb_retransmits sb" by (simp_all add: sb_write_def)
  ultimately show ?thesis using assms(2) by (simp add: sb_covered_def sb_settled_def)
qed

lemma ack_free_length:
  assumes "freed + length (concat segs) < 2 ^ 64" "ack_free acks base freed segs = (freed', segs')"
  shows "freed \<le> freed' \<and> freed' + length (concat segs') = freed + length (concat segs)"
  using assms
proof (induction segs arbitrary: freed)
  case (Cons seg segs)
  have "add64 freed (length seg) = freed + length seg" using Cons.prems(1) by (simp add: add64_small)
  then show ?case using Cons.IH [of "freed + length seg"] Cons.prems by (auto simp: Let_def split: if_splits)
qed simp

lemma sb_ack_ok:
  assumes "sb_ok sb"
  shows "sb_ok (sb_ack sb r)" "sb_settled sb \<union> offsets r \<subseteq> sb_settled (sb_ack sb r)"
    "unsent (sb_ack sb r) = unsent sb" "sb_retransmits (sb_ack sb r) = sb_retransmits sb"
    "sb_offset (sb_ack sb r) = sb_offset sb"
proof -
  define acks where "acks = fst (rs_insert (sb_acks sb) r)"
  obtain f segs where free: "ack_free acks (sb_base sb) 0 (unacked_segments sb) = (f, segs)" by force
  have ok: "sb_offset sb < 2 ^ 62" "unacked_len sb = length (concat (unacked_segments sb))"
    "unacked_len sb \<le> sb_offset sb" "unsent sb \<le> sb_offset sb" "rs_wf (sb_acks sb)" "rs_wf (sb_retransmits sb)"
    using assms by (simp_all add: sb_ok_def)
  have f: "f + length (concat segs) = unacked_len sb"
    using ack_free_length [OF _ free] ok(1-3) by simp
  have acks: "rs_wf acks" "elems acks = elems (sb_acks sb) \<union> offsets r"
    using rs.invar_insert [OF ok(5)] rs.set_insert [OF ok(5)] by (simp_all add: acks_def)
  have small: "sub64 (unacked_len sb) f = length (concat segs)" "sb_base sb = sb_offset sb - unacked_len sb"
    "add64 (sb_base sb) f = sb_base sb + f"
    using f ok(1,3) by (auto simp: sub64_small sb_base_def add64_small)
  define sb' where "sb' = sb_ack sb r"
  have sb': "sb' = sb\<lparr>sb_acks := (if f > 0 then fst (rs_remove acks (sb_base sb, sb_base sb + f)) else acks),
      unacked_segments := segs, unacked_len := length (concat segs)\<rparr>"
    by (simp add: sb'_def sb_ack_def Let_def acks_def [symmetric] free small(1,3))
  have base': "sb_base sb' = sb_base sb + f"
    using f ok(1,3) small(2) by (simp add: sb' sb_base_def sub64_small)
  have acks': "rs_wf (sb_acks sb')" "elems acks \<subseteq> elems (sb_acks sb') \<union> {sb_base sb..<sb_base sb + f}"
    using acks(1) rs.invar_remove [OF acks(1)] rs.set_remove [OF acks(1)] by (auto simp: sb')
  show "sb_ok (sb_ack sb r)"
    unfolding sb'_def [symmetric] using ok acks'(1) f by (simp add: sb_ok_def sb')
  have "sb_settled sb \<union> offsets r \<subseteq> sb_settled sb'"
    using acks(2) acks'(2) base' by (auto simp: sb_settled_def)
  then show "sb_settled sb \<union> offsets r \<subseteq> sb_settled (sb_ack sb r)" by (simp only: sb'_def)
  show "unsent (sb_ack sb r) = unsent sb" "sb_retransmits (sb_ack sb r) = sb_retransmits sb"
    "sb_offset (sb_ack sb r) = sb_offset sb"
    unfolding sb'_def [symmetric] by (simp_all add: sb')
qed

lemma sb_ack_covered: "sb_ok sb \<Longrightarrow> sb_covered sb (F \<union> offsets r) \<Longrightarrow> sb_covered (sb_ack sb r) F"
  using sb_ack_ok(2) [of sb r] by (auto simp: sb_covered_def sb_ack_ok(3,4))

lemma sb_retransmit_ok:
  assumes "sb_ok sb" "sb_covered sb (F \<union> offsets r)"
  shows "sb_ok (sb_retransmit sb r) \<and> sb_covered (sb_retransmit sb r) F"
  using assms rs.invar_insert [of "sb_retransmits sb" r] rs.set_insert [of "sb_retransmits sb" r]
  by (auto simp: sb_ok_def sb_covered_def sb_settled_def sb_retransmit_def sb_base_def)

text \<open>\<open>poll_transmit\<close> hands a range over: what it takes out of the buffer is in the range.\<close>

lemma sb_poll_ok:
  assumes "sb_ok sb" "sb_covered sb F" "sb_poll_transmit sb max_len = (Ok (sb', r, enc) :: (_, 'e) outcome)"
  shows "sb_ok sb' \<and> sb_covered sb' (F \<union> offsets r)"
proof (cases "elems (sb_retransmits sb) = {}")
  case True
  have "rs_pop_min (sb_retransmits sb) = (sb_retransmits sb, None)"
    using rs.pop_min_None True assms(1) by (simp add: sb_ok_def)
  then obtain m where "sb' = sb\<lparr>unsent := min (sb_offset sb) (min u64_max (m + unsent sb))\<rparr>" "r = (unsent sb, unsent sb')"
    using assms(3) unfolding sb_poll_transmit_def
    by (cases "if unsent sb \<noteq> 0 then bindO (varint_len (unsent sb)) (\<lambda>l. Ok (sub64 max_len l)) else Ok max_len :: (_, 'e) outcome")
      (auto simp: Let_def)
  moreover from this have "{..<unsent sb'} \<subseteq> {..<unsent sb} \<union> offsets r" by auto
  moreover have "sb_settled sb' = sb_settled sb" by (simp add: calculation(1) sb_settled_def sb_base_def)
  ultimately show ?thesis
    using assms(1,2) unfolding sb_covered_def by (auto simp: sb_ok_def)
next
  case False
  obtain rts s t where pop: "rs_pop_min (sb_retransmits sb) = (rts, Some (s, t))"
    and rts: "rs_wf rts" "elems (sb_retransmits sb) = {s..<t} \<union> elems rts"
    using rs.pop_min_Some [OF _ False] assms(1) by (metis sb_ok_def prod.collapse)
  then obtain e where "sb' = sb\<lparr>sb_retransmits := (if e < t then fst (rs_insert rts (e, t)) else rts)\<rparr>" "r = (s, e)" "e \<le> t"
    using assms(3) unfolding sb_poll_transmit_def
    by (cases "if s \<noteq> 0 then bindO (varint_len s) (\<lambda>l. Ok (sub64 max_len l)) else Ok max_len :: (_, 'e) outcome")
      (auto simp: Let_def)
  then show ?thesis
    using assms(1,2) rts rs.invar_insert [OF rts(1), of "(e, t)"] rs.set_insert [OF rts(1), of "(e, t)"]
    by (auto simp: sb_ok_def sb_covered_def sb_settled_def sb_base_def split: if_splits)
qed

section \<open>The stream tables\<close>

text \<open>The streams that stand in the queue.\<close>

definition queued :: "streams_state \<Rightarrow> stream_id set" where
  "queued st = ps_id ` set (pq_iter (st_pending st))"

text \<open>
  \<open>F sid\<close> are the offsets of the stream that packets carry.  Nothing is asked of streams that
  were reset.
\<close>

definition send_safe :: "stream_id set \<Rightarrow> stream_id \<Rightarrow> send \<Rightarrow> nat set \<Rightarrow> bool" where
  "send_safe Q sid s F \<longleftrightarrow> send_is_reset s \<or>
     sb_ok (snd_pending s) \<and> sb_covered (snd_pending s) F \<and> (send_is_pending s \<longrightarrow> sid \<in> Q)"

definition streams_safe :: "streams_state \<Rightarrow> (stream_id \<Rightarrow> nat set) \<Rightarrow> bool" where
  "streams_safe st F \<longleftrightarrow> (\<forall>sid s. st_send st sid = Some s \<longrightarrow> send_safe (queued st) sid s (F sid))"

text \<open>The offsets of frames, by stream.\<close>

definition metas_of :: "stream_meta list \<Rightarrow> stream_id \<Rightarrow> nat set" where
  "metas_of ms sid = (\<Union>m\<in>{m \<in> set ms. sm_id m = sid}. offsets (sm_offsets m))"

lemma metas_of_simps [simp]:
  "metas_of [] sid = {}"
  "metas_of (m # ms) sid = (if sm_id m = sid then offsets (sm_offsets m) else {}) \<union> metas_of ms sid"
  "metas_of (ms @ ns) sid = metas_of ms sid \<union> metas_of ns sid"
  by (auto simp: metas_of_def)

lemma send_safe_mono: "send_safe Q sid s F \<Longrightarrow> Q \<subseteq> R \<Longrightarrow> F \<subseteq> G \<Longrightarrow> send_safe R sid s G"
  by (auto simp: send_safe_def intro: sb_covered_mono)

lemma send_safe_default: "send_safe Q sid send_default F"
  using sb_default_ok
  by (simp add: send_safe_def send_default_def send_is_pending_def has_unsent_data_def send_buffer_default_def rs_is_empty_def)

lemma streams_safe_mono: "streams_safe st F \<Longrightarrow> (\<And>sid. F sid \<subseteq> G sid) \<Longrightarrow> streams_safe st G"
  unfolding streams_safe_def using send_safe_mono by blast

lemma streams_safe_cong:
  "st_send st' = st_send st \<Longrightarrow> st_pending st' = st_pending st \<Longrightarrow> streams_safe st' F = streams_safe st F"
  by (simp add: streams_safe_def queued_def)

lemma streams_safe_upd:
  assumes "streams_safe st F" "st_send st' = (st_send st)(sid := x)" "queued st \<subseteq> queued st'"
    "\<And>k. k \<noteq> sid \<Longrightarrow> F k \<subseteq> G k" "\<And>s. x = Some s \<Longrightarrow> send_safe (queued st') sid s (G sid)"
  shows "streams_safe st' G"
  unfolding streams_safe_def
proof (intro allI impI)
  fix k s
  assume s: "st_send st' k = Some s"
  show "send_safe (queued st') k s (G k)"
  proof (cases "k = sid")
    case True
    then show ?thesis using s assms(2,5) by simp
  next
    case False
    then show ?thesis
      using s assms(1,2) send_safe_mono [OF _ assms(3) assms(4)] by (simp add: streams_safe_def)
  qed
qed

lemma streams_safe_at: "streams_safe st F \<Longrightarrow> st_send st sid = Some s \<Longrightarrow> send_safe (queued st) sid s (F sid)"
  by (simp add: streams_safe_def)

lemma queued_push [simp]: "queued (st\<lparr>st_pending := push_pending q sid i\<rparr>) = insert sid (queued (st\<lparr>st_pending := q\<rparr>))"
  by (auto simp: queued_def push_pending_def pq_iter_def Let_def)

lemma queued_same [simp]:
  "queued (st\<lparr>st_send := m\<rparr>) = queued st" "queued (st\<lparr>st_events := es\<rparr>) = queued st"
  "queued (st\<lparr>st_recv := r\<rparr>) = queued st" "queued (st\<lparr>st_next := n\<rparr>) = queued st"
  "queued (st\<lparr>st_pending := st_pending st\<rparr>) = queued st" "queued (send_event st ev) = queued st"
  by (simp_all add: queued_def send_event_def)

lemma queued_pop:
  assumes "pq_pop (st_pending st) = (q, Some p)"
  shows "queued st \<subseteq> insert (ps_id p) (queued (st\<lparr>st_pending := q\<rparr>))"
proof (cases "pq_next (st_pending st)")
  case None
  then obtain xs where "heap_pop (pq_streams (st_pending st)) = (xs, Some p)" "q = (st_pending st)\<lparr>pq_streams := xs\<rparr>"
    using assms by (auto simp: pq_pop_def split: prod.splits)
  then have "set (pq_iter (st_pending st)) \<subseteq> insert p (set (pq_iter q))"
    using None heap_pop_Some [of "pq_streams (st_pending st)" xs p]
    by (auto simp: pq_iter_def) (metis in_set_remove1)
  then show ?thesis by (auto simp: queued_def)
next
  case (Some p')
  then show ?thesis using assms by (auto simp: pq_pop_def queued_def pq_iter_def)
qed

subsection \<open>Acknowledged and lost frames\<close>

lemma received_ack_of_safe:
  assumes "streams_safe st (\<lambda>sid. F sid \<union> metas_of [m] sid)"
  shows "streams_safe (received_ack_of st m) F"
proof (cases "st_send st (sm_id m)")
  case None
  then show ?thesis using streams_safe_upd [OF assms, of st "sm_id m" None F]
    by (auto simp: received_ack_of_def fun_upd_idem)
next
  case (Some s)
  have safe: "send_safe (queued st) (sm_id m) s (F (sm_id m) \<union> offsets (sm_offsets m))"
    using streams_safe_at [OF assms Some] by simp
  show ?thesis
  proof (cases "send_is_reset s")
    case True
    then show ?thesis using streams_safe_upd [OF assms, of st "sm_id m" "Some s" F] Some
      by (auto simp: received_ack_of_def map_upd_triv send_safe_def)
  next
    case False
    obtain s' complete where ack: "send_ack s m = (s', complete)" by force
    then have s': "snd_pending s' = sb_ack (snd_pending s) (sm_offsets m)" "fin_pending s' = fin_pending s"
      by (auto simp: send_ack_def Let_def split: send_state.splits)
    have "sb_ok (snd_pending s)" using safe False by (simp add: send_safe_def)
    then have "send_safe (queued st) (sm_id m) s' (F (sm_id m))"
      using safe False sb_ack_ok [of "snd_pending s" "sm_offsets m"] sb_ack_covered [of "snd_pending s"]
      by (auto simp: send_safe_def s' send_is_pending_def has_unsent_data_def)
    then show ?thesis
      using False Some ack
      by (intro streams_safe_upd [OF assms, of _ "sm_id m" "if complete then None else Some s'"])
        (auto simp: received_ack_of_def send_event_def)
  qed
qed

lemma st_retransmit_safe:
  assumes "streams_safe st (\<lambda>sid. F sid \<union> metas_of [m] sid)"
  shows "streams_safe (st_retransmit st m) F"
proof (cases "st_send st (sm_id m)")
  case None
  then show ?thesis using streams_safe_upd [OF assms, of st "sm_id m" None F]
    by (auto simp: st_retransmit_def fun_upd_idem)
next
  case (Some s)
  have safe: "send_safe (queued st) (sm_id m) s (F (sm_id m) \<union> offsets (sm_offsets m))"
    using streams_safe_at [OF assms Some] by simp
  show ?thesis
  proof (cases "send_is_reset s")
    case True
    then show ?thesis using streams_safe_upd [OF assms, of st "sm_id m" "Some s" F] Some
      by (auto simp: st_retransmit_def map_upd_triv send_safe_def)
  next
    case False
    let ?s = "s\<lparr>snd_pending := sb_retransmit (snd_pending s) (sm_offsets m)\<rparr>"
    have "send_safe Q (sm_id m) ?s (F (sm_id m))" if "sm_id m \<in> Q" for Q
      using safe False that sb_retransmit_ok [of "snd_pending s" "F (sm_id m)" "sm_offsets m"] by (auto simp: send_safe_def send_is_reset_def)
    moreover have "sm_id m \<in> queued (st_retransmit st m)"
      using safe False Some by (auto simp: st_retransmit_def Let_def send_safe_def)
    ultimately show ?thesis
      using False Some
      by (intro streams_safe_upd [OF assms, of _ "sm_id m" "Some ?s"])
        (auto simp: st_retransmit_def Let_def)
  qed
qed

text \<open>Frames of a packet, all acknowledged or all lost.\<close>

lemma frames_safe:
  assumes "\<And>st F m. streams_safe st (\<lambda>sid. F sid \<union> metas_of [m] sid) \<Longrightarrow> streams_safe (f st m) F"
    "streams_safe st (\<lambda>sid. F sid \<union> metas_of ms sid)"
  shows "streams_safe (foldl f st ms) F"
  using assms(2)
proof (induction ms arbitrary: st)
  case (Cons m ms)
  have "streams_safe (f st m) (\<lambda>sid. F sid \<union> metas_of ms sid)"
    by (rule assms(1), rule streams_safe_mono [OF Cons.prems]) auto
  then show ?case using Cons.IH by simp
qed simp

lemmas acked_frames_safe = frames_safe [of received_ack_of, OF received_ack_of_safe]
  and lost_frames_safe = frames_safe [of st_retransmit, OF st_retransmit_safe]

subsection \<open>Writing STREAM frames\<close>

text \<open>
  While a stream is taken off the queue it alone may be pending without standing in it.
\<close>

lemma wsf_emit_safe:
  assumes others: "\<And>k s'. k \<noteq> sm_id m \<Longrightarrow> st_send st k = Some s' \<Longrightarrow> send_safe (queued st) k s' (F k)"
    and own: "st_send st (sm_id m) = Some s" "sb_ok (snd_pending s)"
      "sb_covered (snd_pending s) (F (sm_id m) \<union> offsets (sm_offsets m))"
  shows "post (wsf_emit B fair st w s m el) (\<lambda>(st', w', meta, again).
    meta = Some m \<and> streams_safe st' (\<lambda>sid. F sid \<union> metas_of [m] sid))"
proof -
  have safe: "streams_safe st' (\<lambda>sid. F sid \<union> metas_of [m] sid)"
    if "st_send st' = st_send st" "queued st \<subseteq> queued st'" "send_is_pending s \<Longrightarrow> sm_id m \<in> queued st'" for st'
    unfolding streams_safe_def
  proof (intro allI impI)
    fix k s'
    assume s': "st_send st' k = Some s'"
    show "send_safe (queued st') k s' (F k \<union> metas_of [m] k)"
    proof (cases "k = sm_id m")
      case True
      then show ?thesis using s' that own by (simp add: send_safe_def)
    next
      case False
      then show ?thesis using others [OF False] s' that send_safe_mono by fastforce
    qed
  qed
  have reinsert: "post (reinsert_pending (st_pending st) (sm_id m) i)
      (\<lambda>q. queued st \<subseteq> queued (st\<lparr>st_pending := q\<rparr>) \<and> sm_id m \<in> queued (st\<lparr>st_pending := q\<rparr>))" for i
    by (auto simp: reinsert_pending_def post_def queued_def pq_iter_def)
  show ?thesis
    unfolding wsf_emit_def
    by (rule post_bind [OF post_any], rule post_bind [OF post_any], intro post_if post_Ok post_bind [OF reinsert])
      (auto intro!: safe simp del: metas_of_simps)
qed

lemma wsf_step_safe:
  assumes "streams_safe st F"
  shows "post (wsf_step B fair st w :: (_, 'e) outcome) (\<lambda>(st', w', meta, again).
    streams_safe st' (\<lambda>sid. F sid \<union> metas_of (case meta of None \<Rightarrow> [] | Some m \<Rightarrow> [m]) sid))"
proof (cases "w_left w < STREAM_SIZE_BOUND")
  case True
  then show ?thesis using assms by (simp add: wsf_step_def post_Ok)
next
  case False
  obtain q r where pop: "pq_pop (st_pending st) = (q, r)" by force
  show ?thesis
  proof (cases r)
    case None
    have "pq_iter q = [] \<and> pq_iter (st_pending st) = []"
      using pop None heap_pop_None by (fastforce simp: pq_pop_def pq_iter_def split: option.splits prod.splits)
    then have "streams_safe (st\<lparr>st_pending := q\<rparr>) F" using assms by (simp add: streams_safe_def queued_def)
    then show ?thesis using False None pop by (simp add: wsf_step_def post_Ok)
  next
    case (Some p)
    define st1 where "st1 = st\<lparr>st_pending := q\<rparr>"
    have q: "queued st \<subseteq> insert (ps_id p) (queued st1)" using queued_pop pop Some by (simp add: st1_def)
    have send1: "st_send st1 = st_send st" by (simp add: st1_def)
    have others: "send_safe (queued st1) k s' (F k)" if "k \<noteq> ps_id p" "st_send st k = Some s'" for k s'
      using streams_safe_at [OF assms that(2)] q that(1) by (auto simp: send_safe_def)
    have skip: "streams_safe st1 F"
      if "\<And>s. st_send st (ps_id p) = Some s \<Longrightarrow> send_is_reset s \<or> \<not> send_is_pending s"
      unfolding streams_safe_def send1
    proof (intro allI impI)
      fix k s
      assume s: "st_send st k = Some s"
      show "send_safe (queued st1) k s (F k)"
      proof (cases "k = ps_id p")
        case True
        then show ?thesis using that [of s] streams_safe_at [OF assms s] s by (auto simp: send_safe_def)
      qed (use others s in auto)
    qed
    show ?thesis
    proof (cases "\<exists>s. st_send st (ps_id p) = Some s \<and> \<not> send_is_reset s \<and> send_is_pending s")
      case no: False
      then have "streams_safe st1 F" using skip by blast
      then show ?thesis using no False Some pop
        by (cases "st_send st (ps_id p)") (auto simp: wsf_step_def Let_def st1_def [symmetric] send1 intro!: post_Ok)
    next
      case True
      then obtain s where s: "st_send st (ps_id p) = Some s" "\<not> send_is_reset s" "send_is_pending s" by blast
      have ok: "sb_ok (snd_pending s)" "sb_covered (snd_pending s) (F (ps_id p))"
        using streams_safe_at [OF assms s(1)] s(2) by (simp_all add: send_safe_def)
      have poll: "post (sb_poll_transmit (snd_pending s) (w_left w)) (\<lambda>(sb, r, el).
          sb_ok sb \<and> sb_covered sb (F (ps_id p) \<union> offsets r))"
        by (auto simp: post_def dest!: sb_poll_ok [OF ok])
      have step: "wsf_step B fair st w =
          bindO (sb_poll_transmit (snd_pending s) (w_left w)) (\<lambda>(sb, r, el).
            let s = s\<lparr>snd_pending := sb\<rparr>; fin = (fin_pending s \<and> snd r = sb_offset sb);
                s = (if fin then s\<lparr>fin_pending := False\<rparr> else s); st = st1\<lparr>st_send := (st_send st1)(ps_id p \<mapsto> s)\<rparr> in
            if range_is_empty r \<and> \<not> fin
            then Ok (st\<lparr>st_pending := push_pending (st_pending st) (ps_id p) (snd_priority s)\<rparr>, w, None, False)
            else wsf_emit B fair st w s \<lparr>sm_id = ps_id p, sm_offsets = r, sm_fin = fin\<rparr> el)"
        using False Some pop s by (simp add: wsf_step_def Let_def st1_def [symmetric] send1)
      show ?thesis
        unfolding step
      proof (rule post_bind [OF poll], goal_cases)
        case (1 x)
        obtain sb r el where x: "x = (sb, r, el)" by (cases x)
        define fin where "fin = (fin_pending s \<and> snd r = sb_offset sb)"
        define s2 where "s2 = (if fin then s\<lparr>snd_pending := sb, fin_pending := False\<rparr> else s\<lparr>snd_pending := sb\<rparr>)"
        define st2 where "st2 = st1\<lparr>st_send := (st_send st1)(ps_id p \<mapsto> s2)\<rparr>"
        have sb: "sb_ok (snd_pending s2)" "sb_covered (snd_pending s2) (F (ps_id p) \<union> offsets r)"
          using 1 by (auto simp: x s2_def)
        have o: "send_safe (queued st2) k s' (F k)" if "k \<noteq> ps_id p" "st_send st2 k = Some s'" for k s'
          using others that by (simp add: st2_def send1)
        let ?push = "st2\<lparr>st_pending := push_pending (st_pending st2) (ps_id p) (snd_priority s2)\<rparr>"
        have push: "streams_safe ?push F" if "range_is_empty r"
          unfolding streams_safe_def
        proof (intro allI impI)
          fix k s'
          assume s': "st_send ?push k = Some s'"
          have "offsets r = {}" using that by (auto simp: range_is_empty_def)
          then show "send_safe (queued ?push) k s' (F k)"
            using s' sb o [of k s'] by (cases "k = ps_id p") (auto simp: send_safe_def st2_def)
        qed
        have emit: "post (wsf_emit B fair st2 w s2 \<lparr>sm_id = ps_id p, sm_offsets = r, sm_fin = fin\<rparr> el)
            (\<lambda>(st', w', meta, again). meta = Some \<lparr>sm_id = ps_id p, sm_offsets = r, sm_fin = fin\<rparr> \<and>
              streams_safe st' (\<lambda>sid. F sid \<union> metas_of [\<lparr>sm_id = ps_id p, sm_offsets = r, sm_fin = fin\<rparr>] sid))"
          by (rule wsf_emit_safe) (use sb o in \<open>auto simp: st2_def\<close>)
        have body: "(let s = s\<lparr>snd_pending := sb\<rparr>; fin = (fin_pending s \<and> snd r = sb_offset sb);
              s = (if fin then s\<lparr>fin_pending := False\<rparr> else s); st = st1\<lparr>st_send := (st_send st1)(ps_id p \<mapsto> s)\<rparr> in
            if range_is_empty r \<and> \<not> fin
            then Ok (st\<lparr>st_pending := push_pending (st_pending st) (ps_id p) (snd_priority s)\<rparr>, w, None, False)
            else wsf_emit B fair st w s \<lparr>sm_id = ps_id p, sm_offsets = r, sm_fin = fin\<rparr> el) =
          (if range_is_empty r \<and> \<not> fin then Ok (?push, w, None, False)
           else wsf_emit B fair st2 w s2 \<lparr>sm_id = ps_id p, sm_offsets = r, sm_fin = fin\<rparr> el)"
          by (cases "fin_pending s \<and> snd r = sb_offset sb") (simp_all add: Let_def fin_def s2_def st2_def)
        show ?case
          unfolding x prod.case body
          by (rule post_if, rule post_Ok, use push in simp) (rule post_weaken [OF emit], clarsimp simp del: metas_of_simps)
      qed
    qed
  qed
qed

lemma wsf_loop_safe:
  "streams_safe st F \<Longrightarrow> case wsf_loop B fair fuel st w :: (_, 'e) outcome option of
     Some r \<Rightarrow> post r (\<lambda>(st', w', ms). streams_safe st' (\<lambda>sid. F sid \<union> metas_of ms sid)) | None \<Rightarrow> True"
proof (induction fuel arbitrary: st w F)
  case (Suc fuel)
  show ?case
  proof (cases "wsf_step B fair st w :: (_, 'e) outcome")
    case (Ok x)
    obtain st1 w1 m again where x: "x = (st1, w1, m, again)" by (cases x)
    let ?ms = "case m of None \<Rightarrow> [] | Some m \<Rightarrow> [m]"
    have step: "streams_safe st1 (\<lambda>sid. F sid \<union> metas_of ?ms sid)"
      using wsf_step_safe [OF Suc.prems, of B fair w, where 'e = 'e] Ok by (simp add: post_def x)
    note IH = Suc.IH [OF step, of w1]
    show ?thesis
    proof (cases again)
      case True
      show ?thesis
      proof (cases "wsf_loop B fair fuel st1 w1 :: (_, 'e) outcome option")
        case (Some r)
        have "post r (\<lambda>(st', w', ms). streams_safe st' (\<lambda>sid. F sid \<union> metas_of (?ms @ ms) sid))"
          using IH Some by (simp add: Un_assoc)
        then have "post (bindO r (\<lambda>(st', w', ms). Ok (st', w', ?ms @ ms)))
            (\<lambda>(st', w', ms). streams_safe st' (\<lambda>sid. F sid \<union> metas_of ms sid))"
          by (rule post_bind) (auto intro!: post_Ok simp del: metas_of_simps)
        moreover have "wsf_loop B fair (Suc fuel) st w = Some (bindO r (\<lambda>(st', w', ms). Ok (st', w', ?ms @ ms)))"
          using Ok x True Some by (cases m) simp_all
        ultimately show ?thesis by simp
      qed (use Ok x True in simp)
    qed (use step Ok x in \<open>simp add: post_def\<close>)
  qed (simp_all add: post_def)
qed simp

lemma write_stream_frames_safe:
  assumes "streams_safe st F"
  shows "post (write_stream_frames B st w fair :: (_, 'e) outcome) (\<lambda>(st', w', ms). streams_safe st' (\<lambda>sid. F sid \<union> metas_of ms sid))"
  using wsf_loop_safe [OF assms, of B fair "wsf_fuel st w" w, where 'e = 'e]
  by (auto simp: write_stream_frames_def post_Panic split: option.splits)

subsection \<open>The application's calls\<close>

text \<open>
  No stream has more than \<open>2\<^sup>6\<^sup>2\<close> bytes, the limit of the protocol; the bound also keeps the
  counters of the buffer from wrapping around.
\<close>

definition streams_short :: "streams_state \<Rightarrow> bool" where
  "streams_short st \<longleftrightarrow> (\<forall>sid s. st_send st sid = Some s \<longrightarrow>
     sb_offset (snd_pending s) < 2 ^ 62 \<and> length (concat (unacked_segments (snd_pending s))) < 2 ^ 62)"

lemma sstream_write_safe:
  assumes "streams_safe st F" "streams_short (fst (sstream_write closed st sid data))"
  shows "streams_safe (fst (sstream_write closed st sid data)) F"
proof (cases closed)
  case False
  define s where "s = (case st_send st sid of Some s \<Rightarrow> s | None \<Rightarrow> send_default)"
  have safe: "send_safe (queued st) sid s (F sid)"
    using streams_safe_at [OF assms(1), of sid] send_safe_default by (auto simp: s_def split: option.splits)
  define st1 where "st1 = st\<lparr>st_send := (st_send st)(sid \<mapsto> s)\<rparr>"
  have st1: "streams_safe st1 F"
    by (rule streams_safe_upd [OF assms(1), of _ sid "Some s"]) (use safe in \<open>auto simp: st1_def\<close>)
  show ?thesis
  proof (cases "send_write s data")
    case (Ok s')
    then have s': "is_writable s" "s' = s\<lparr>snd_pending := sb_write (snd_pending s) data\<rparr>"
      by (auto simp: send_write_def split: if_splits option.splits)
    then have ready: "\<not> send_is_reset s" "\<not> send_is_reset s'" by (auto simp: is_writable_def send_is_reset_def)
    define st2 where "st2 = fst (sstream_write closed st sid data)"
    have st2: "st_send st2 = (st_send st)(sid \<mapsto> s')" "queued st \<subseteq> queued st2" "send_is_pending s \<longrightarrow> queued st2 = queued st"
      "\<not> send_is_pending s \<longrightarrow> sid \<in> queued st2"
      using False Ok by (auto simp: st2_def sstream_write_def Let_def s_def [symmetric])
    have "sb_offset (snd_pending s') < 2 ^ 62 \<and> length (concat (unacked_segments (snd_pending s'))) < 2 ^ 62"
      using assms(2) [folded st2_def, unfolded streams_short_def, rule_format, of sid s'] st2(1) by simp
    then have "sb_ok (snd_pending s') \<and> sb_covered (snd_pending s') (F sid)"
      using sb_write_ok [of "snd_pending s" "F sid" data] safe ready(1) by (simp add: s' send_safe_def) (simp add: sb_write_def)
    moreover have "sid \<in> queued st2" using st2(3,4) safe ready(1) by (auto simp: send_safe_def)
    ultimately have "streams_safe st2 F"
      by (intro streams_safe_upd [OF assms(1) st2(1,2)]) (auto simp: send_safe_def)
    then show ?thesis by (simp add: st2_def)
  qed (use False st1 in \<open>auto simp: sstream_write_def Let_def s_def [symmetric] st1_def\<close>)
qed (use assms(1) in \<open>simp add: sstream_write_def\<close>)

lemma sstream_finish_safe:
  assumes "streams_safe st F" "sstream_finish st sid = Ok st'"
  shows "streams_safe st' F"
proof -
  obtain s where s0: "st_send st sid = Some s" "snd_state s = Ready" "st' = (let st = st\<lparr>st_send := (st_send st)(sid \<mapsto>
      s\<lparr>snd_state := DataSent False, fin_pending := True\<rparr>)\<rparr> in
      if \<not> send_is_pending s then st\<lparr>st_pending := push_pending (st_pending st) sid (snd_priority s)\<rparr> else st)"
    using assms(2)
    by (auto simp: sstream_finish_def send_finish_def bindO_eq_Ok Let_def split: option.splits if_splits)
  then have s: "st_send st sid = Some s" "snd_state s = Ready"
    "st_send st' = (st_send st)(sid \<mapsto> s\<lparr>snd_state := DataSent False, fin_pending := True\<rparr>)"
    "queued st \<subseteq> queued st'" "\<not> send_is_pending s \<longrightarrow> sid \<in> queued st'"
    by (auto simp: Let_def)
  have "send_safe (queued st) sid s (F sid)" using streams_safe_at [OF assms(1) s(1)] .
  then show ?thesis
    using s by (intro streams_safe_upd [OF assms(1) s(3,4)]) (auto simp: send_safe_def send_is_reset_def)
qed

lemma sstream_reset_safe:
  assumes "streams_safe st F" "sstream_reset st pending sid code = Ok (st', pending')"
  shows "streams_safe st' F"
proof -
  obtain s where "st' = st\<lparr>st_send := (st_send st)(sid \<mapsto> send_reset s)\<rparr>"
    using assms(2) by (auto simp: sstream_reset_def split: option.splits if_splits)
  moreover have "send_is_reset (send_reset s)" by (auto simp: send_reset_def send_is_reset_def split: send_state.split)
  ultimately show ?thesis
    by (intro streams_safe_upd [OF assms(1), of _ sid "Some (send_reset s)"]) (auto simp: send_safe_def)
qed

lemma sstream_set_priority_safe:
  assumes "streams_safe st F" "sstream_set_priority st sid i = Ok st'"
  shows "streams_safe st' F"
proof -
  obtain s where s: "st_send st sid = Some s" "st' = st\<lparr>st_send := (st_send st)(sid \<mapsto> s\<lparr>snd_priority := i\<rparr>)\<rparr>"
    using assms(2) by (auto simp: sstream_set_priority_def split: option.splits)
  then have "send_safe (queued st) sid (s\<lparr>snd_priority := i\<rparr>) (F sid)"
    using streams_safe_at [OF assms(1) s(1)] by (simp add: send_safe_def send_is_reset_def send_is_pending_def)
  then show ?thesis
    by (intro streams_safe_upd [OF assms(1), of _ sid "Some (s\<lparr>snd_priority := i\<rparr>)"]) (auto simp: s(2))
qed

lemma open_stream_safe: "streams_safe st F \<Longrightarrow> streams_safe (fst (open_stream st d)) F"
  by (rule streams_safe_upd [of st F _ "stream_id_new (st_side st) d (st_next st d)" "Some send_default"])
    (auto simp: open_stream_def Let_def send_safe_default)

text \<open>The receiving halves are of no concern.\<close>

definition send_same :: "streams_state \<Rightarrow> streams_state \<Rightarrow> bool" where
  "send_same st st' \<longleftrightarrow> st_send st' = st_send st \<and> st_pending st' = st_pending st"

lemma send_same_safe: "send_same st st' \<Longrightarrow> streams_safe st' F = streams_safe st F"
  unfolding send_same_def by (intro streams_safe_cong) auto

lemma send_same_simps [simp]:
  "send_same st (st'\<lparr>st_recv := r\<rparr>) = send_same st st'" "send_same st (send_event st' ev) = send_same st st'"
  "send_same st (st'\<lparr>st_events := es\<rparr>) = send_same st st'" "send_same st st"
  by (simp_all add: send_same_def send_event_def)

lemma received_on_same: "send_same st st' \<Longrightarrow> send_same st (fst (received_on st' rs f n))"
  by (auto simp: received_on_def Let_def split: outcome.split prod.split)

lemma received_same: "send_same st (fst (received st f n))"
  by (auto simp: received_def Let_def received_on_same split: outcome.split option.split)

lemma received_reset_same: "send_same st (fst (received_reset st r))"
  by (auto simp: received_reset_def Let_def split: outcome.split option.split prod.split)

lemma rstream_same:
  "rstream_stop st pending sid code = Ok (st', pending') \<Longrightarrow> send_same st st'"
  "rstream_received_reset st sid = Ok (st', x) \<Longrightarrow> send_same st st'"
  by (auto simp: rstream_stop_def rstream_received_reset_def Let_def bindO_eq_Ok split: option.splits if_splits prod.splits)

lemma chunks_same: "send_same st (fst (chunks_new st sid ordered))" "send_same st' (chunks_drop st ch) = send_same st' st"
  by (auto simp: chunks_new_def chunks_drop_def Let_def split: option.split chunks_state.split)

lemma read_stream_same: "read_stream sid ordered lens st = Ok st' \<Longrightarrow> send_same st st'"
  using chunks_same(1) [of st sid ordered]
  by (cases "chunks_new st sid ordered") (auto simp: read_stream_def bindO_eq_Ok chunks_same(2) split: outcome.splits)

lemma received_stop_sending_safe:
  assumes "streams_safe st F"
  shows "streams_safe (fst (received_stop_sending st f)) F"
proof (cases "st_send st (stop_id f)")
  case None
  then have "send_same st (fst (received_stop_sending st f))" by (auto simp: received_stop_sending_def Let_def)
  then show ?thesis using assms send_same_safe by blast
next
  case (Some s)
  define s' where "s' = fst (try_stop s (stop_error_code f))"
  have "send_safe (queued st) (stop_id f) s' (F (stop_id f))"
    using streams_safe_at [OF assms Some]
    by (simp add: s'_def try_stop_def send_safe_def send_is_reset_def send_is_pending_def)
  then have "streams_safe (st\<lparr>st_send := (st_send st)(stop_id f \<mapsto> s')\<rparr>) F"
    by (intro streams_safe_upd [OF assms, of _ "stop_id f" "Some s'"]) auto
  moreover have "send_same st (fst (received_stop_sending st f)) \<or>
      send_same (st\<lparr>st_send := (st_send st)(stop_id f \<mapsto> s')\<rparr>) (fst (received_stop_sending st f))"
    using Some by (simp add: received_stop_sending_def Let_def s'_def case_prod_unfold)
  ultimately show ?thesis using assms send_same_safe by blast
qed

end
