(* ===== verification/Reliability.thy ===== *)
theory Reliability
  imports Stream_Reliability
begin

text \<open>
  No byte of a stream is forgotten, for whole connections.  Every byte the application wrote is at
  any time released or acknowledged, waiting on a stream that stands in the queue, or carried by a
  packet of the application data space that is queued or in flight; every step of a connection
  keeps this account.
\<close>

section \<open>Packets that carry a byte\<close>

definition carried :: "connection \<Rightarrow> stream_id \<Rightarrow> nat set" where
  "carried c sid =
     (\<Union>np\<in>set (sent_packets (cn_spaces c SData)). metas_of (sp_stream_frames (snd np)) sid) \<union>
     (\<Union>q\<in>{q \<in> set (sending_queue (cn_path c)). sp_space_id (sch_meta q) = SData}.
        metas_of (sp_stream_frames (sch_meta q)) sid)"

definition conn_safe :: "connection \<Rightarrow> bool" where
  "conn_safe c \<longleftrightarrow> streams_safe (cn_streams c) (carried c)"

text \<open>The fields the account reads.\<close>

definition safe_core where
  "safe_core c = (st_send (cn_streams c), st_pending (cn_streams c), sent_packets (cn_spaces c SData), sending_queue (cn_path c))"

lemma carried_cong:
  "sent_packets (cn_spaces c' SData) = sent_packets (cn_spaces c SData) \<Longrightarrow>
   sending_queue (cn_path c') = sending_queue (cn_path c) \<Longrightarrow> carried c' = carried c"
  by (simp add: carried_def fun_eq_iff)

lemma conn_safe_cong:
  assumes "safe_core c' = safe_core c"
  shows "conn_safe c' = conn_safe c"
proof -
  have "carried c' = carried c" by (rule carried_cong) (use assms in \<open>simp_all add: safe_core_def\<close>)
  moreover have "streams_safe (cn_streams c') F = streams_safe (cn_streams c) F" for F
    by (rule streams_safe_cong) (use assms in \<open>simp_all add: safe_core_def\<close>)
  ultimately show ?thesis by (simp add: conn_safe_def)
qed

lemma safe_core_upd [simp]:
  "safe_core (c\<lparr>cn_state := x\<rparr>) = safe_core c" "safe_core (c\<lparr>cn_timers := tt\<rparr>) = safe_core c"
  "safe_core (c\<lparr>app_limited := l\<rparr>) = safe_core c" "safe_core (c\<lparr>pending_close := l\<rparr>) = safe_core c"
  "safe_core (c\<lparr>highest_space := h\<rparr>) = safe_core c"
  "safe_core (set_timer t i c) = safe_core c" "safe_core (stop_timer t c) = safe_core c"
  "safe_core (emit ev c) = safe_core c" "safe_core (upd_acks sid f c) = safe_core c"
  "safe_core (set_loss_detection_timer c) = safe_core c" "safe_core (close_common c) = safe_core c"
  "safe_core (conn_error e c) = safe_core c" "safe_core (kill e c) = safe_core c"
  "safe_core (set_close_timer now c) = safe_core c"
  by (auto simp: safe_core_def emit_def conn_error_def kill_def set_close_timer_def)

lemma safe_core_space:
  "sent_packets (f (cn_spaces c sid)) = sent_packets (cn_spaces c sid) \<Longrightarrow> safe_core (upd_space sid f c) = safe_core c"
  by (auto simp: safe_core_def)

lemma safe_core_path: "sending_queue p = sending_queue (cn_path c) \<Longrightarrow> safe_core (c\<lparr>cn_path := p\<rparr>) = safe_core c"
  by (simp add: safe_core_def)

lemma safe_core_discard: "sid \<noteq> SData \<Longrightarrow> safe_core (discard_space sid c) = safe_core c"
  by (simp add: safe_core_def discard_space_queue)

section \<open>Lost and acknowledged packets\<close>

lemma ps_take_set: "set (sent_packets (fst (ps_take s n))) = {np \<in> set (sent_packets s). fst np \<noteq> n}"
  by (auto simp: ps_take_def bt_remove_def map_of_eq_None_iff split: option.split)

lemma remove_in_flight_queue [simp]: "sending_queue (fst (remove_in_flight path n p)) = sending_queue path"
  by (simp add: remove_in_flight_def)

text \<open>A packet that is taken out of flight leaves its frames to be accounted for.\<close>

lemma carried_take:
  assumes "sid = SData \<Longrightarrow> \<forall>p'. (n, p') \<in> set (sent_packets (cn_spaces c SData)) \<longrightarrow> p' = p"
    "sent_packets (cn_spaces c' SData) =
      (if sid = SData then sent_packets (fst (ps_take (cn_spaces c sid) n)) else sent_packets (cn_spaces c SData))"
    "sending_queue (cn_path c') = sending_queue (cn_path c)"
  shows "carried c k \<subseteq> carried c' k \<union> metas_of (sp_stream_frames p) k"
proof (cases "sid = SData")
  case True
  then have sent: "set (sent_packets (cn_spaces c' SData)) = {np \<in> set (sent_packets (cn_spaces c SData)). fst np \<noteq> n}"
    using assms(2) ps_take_set by simp
  show ?thesis
    using assms(1) [OF True] unfolding carried_def sent assms(3) by fastforce
next
  case False
  then show ?thesis using carried_cong [of c' c] assms(2,3) by auto
qed

lemma lose_packet_safe:
  assumes "conn_safe c" "sid = SData \<Longrightarrow> \<forall>p'. (n, p') \<in> set (sent_packets (cn_spaces c SData)) \<longrightarrow> p' = p"
  shows "conn_safe (lose_packet now sid c (n, p))"
proof -
  let ?c = "lose_packet now sid c (n, p)"
  have streams: "cn_streams ?c = foldl st_retransmit (cn_streams c) (sp_stream_frames p)"
    by (simp add: lose_packet_def Let_def split: prod.split)
  have "carried c k \<subseteq> carried ?c k \<union> metas_of (sp_stream_frames p) k" for k
  proof (rule carried_take [OF assms(2)])
    show "sent_packets (cn_spaces ?c SData) =
        (if sid = SData then sent_packets (fst (ps_take (cn_spaces c sid) n)) else sent_packets (cn_spaces c SData))"
      by (auto simp: lose_packet_def Let_def ps_take_def split: prod.split option.split)
    show "sending_queue (cn_path ?c) = sending_queue (cn_path c)"
      by (simp add: lose_packet_def Let_def case_prod_unfold)
  qed
  then show ?thesis
    unfolding conn_safe_def streams
    by (intro lost_frames_safe streams_safe_mono [OF assms(1) [unfolded conn_safe_def]]) auto
qed

lemma lose_packets_safe:
  assumes "conn_safe c"
    "sid = SData \<Longrightarrow> \<forall>(n, p)\<in>set nps. \<forall>p'. (n, p') \<in> set (sent_packets (cn_spaces c SData)) \<longrightarrow> p' = p"
  shows "conn_safe (foldl (lose_packet now sid) c nps)"
  using assms
proof (induction nps arbitrary: c)
  case (Cons np nps)
  obtain n p where np: "np = (n, p)" by (cases np)
  have "set (sent_packets (cn_spaces (lose_packet now sid c (n, p)) SData)) \<subseteq> set (sent_packets (cn_spaces c SData))"
    if "sid = SData" using that ps_take_set [of "cn_spaces c SData" n]
    by (auto simp: lose_packet_def Let_def ps_take_def split: prod.splits option.splits)
  then show ?case
    using Cons.IH [OF lose_packet_safe [OF Cons.prems(1), of sid n p now]] Cons.prems(2) by (fastforce simp: np)
qed simp

lemma sent_unique:
  assumes "good c" "(n, p) \<in> set (sent_packets (cn_spaces c sid))" "(n, p') \<in> set (sent_packets (cn_spaces c sid))"
  shows "p' = p"
proof -
  have "bt_ok (sent_packets (cn_spaces c sid))" using assms(1) by (auto simp: good_def conn_inv_def space_ok_def space_inv_def)
  then have "distinct (map fst (sent_packets (cn_spaces c sid)))" by (simp add: bt_ok_def strict_sorted_iff)
  then show ?thesis using assms(2,3) eq_key_imp_eq_value by metis
qed

lemma detect_lost_packets_safe:
  assumes "good c" "conn_safe c"
  shows "conn_safe (detect_lost_packets now sid c)"
proof -
  have upd: "safe_core (upd_space sid (\<lambda>s. s\<lparr>loss_time := t\<rparr>) c) = safe_core c" for t by (rule safe_core_space) simp
  then have *: "conn_safe (upd_space sid (\<lambda>s. s\<lparr>loss_time := t\<rparr>) c)" for t using conn_safe_cong assms(2) by blast
  have "conn_safe (foldl (lose_packet now sid) (upd_space sid (\<lambda>s. s\<lparr>loss_time := t\<rparr>) c)
      (filter P (takeWhile Q (sent_packets (cn_spaces c sid)))))" for t P Q
    using sent_unique [OF assms(1)]
    by (intro lose_packets_safe [OF *]) (fastforce dest!: set_takeWhileD)
  then have "conn_safe (set_loss_detection_timer (foldl (lose_packet now sid) (upd_space sid (\<lambda>s. s\<lparr>loss_time := t\<rparr>) c)
      (filter P (takeWhile Q (sent_packets (cn_spaces c sid))))))" for t P Q
    using conn_safe_cong [OF safe_core_upd(10)] by blast
  then show ?thesis
    unfolding detect_lost_packets_def Let_def using * by (simp split: option.split)
qed

lemma ack_packet_safe:
  assumes "good c" "conn_safe c"
  shows "conn_safe (fst (ack_packet sid (c, largest) n))"
proof (cases "map_of (sent_packets (cn_spaces c sid)) n")
  case None
  then show ?thesis using assms by (simp add: ack_packet_def ps_take_def)
next
  case (Some p)
  define c' where "c' = fst (ack_packet sid (c, largest) n)"
  obtain s where take: "ps_take (cn_spaces c sid) n = (s, Some p)" using Some by (simp add: ps_take_def)
  have fields: "cn_streams c' = foldl received_ack_of (cn_streams c) (sp_stream_frames p)"
    "sent_packets (cn_spaces c' SData) =
       (if sid = SData then sent_packets (fst (ps_take (cn_spaces c sid) n)) else sent_packets (cn_spaces c SData))"
    "sending_queue (cn_path c') = sending_queue (cn_path c)"
    unfolding c'_def ack_packet_def prod.case take option.case Let_def
    by (simp_all add: case_prod_unfold split: option.split)
  have "\<forall>p'. (n, p') \<in> set (sent_packets (cn_spaces c SData)) \<longrightarrow> p' = p" if "sid = SData"
    using sent_unique [OF assms(1) map_of_SomeD [OF Some]] that by blast
  from carried_take [OF this fields(2,3)] show ?thesis
    unfolding c'_def [symmetric] conn_safe_def fields(1)
    by (intro acked_frames_safe streams_safe_mono [OF assms(2) [unfolded conn_safe_def]]) auto
qed

lemma ack_packets_safe:
  "good c \<Longrightarrow> conn_safe c \<Longrightarrow> conn_safe (fst (foldl (ack_packet sid) (c, largest) ns))"
proof (induction ns arbitrary: c largest)
  case (Cons n ns)
  obtain d l where step: "ack_packet sid (c, largest) n = (d, l)" by force
  have "good d" "conn_safe d"
    using good_ack_packet [OF Cons.prems(1), of sid largest n] ack_packet_safe [OF Cons.prems, of sid largest n] step by simp_all
  then show ?case using Cons.IH step by simp
qed simp

lemma on_ack_received_safe:
  assumes "good c" "conn_safe c"
  shows "conn_safe (fst (on_ack_received B now sid a c))"
proof -
  have upd: "good ((upd_space sid f d)\<lparr>cn_path := (cn_path d)\<lparr>np_rtt := r\<rparr>\<rparr>)"
      "conn_safe ((upd_space sid f d)\<lparr>cn_path := (cn_path d)\<lparr>np_rtt := r\<rparr>\<rparr>)"
    if "good d" "conn_safe d" "\<And>s. space_core (f s) = space_core s" for d f r
  proof -
    let ?d = "(upd_space sid f d)\<lparr>cn_path := (cn_path d)\<lparr>np_rtt := r\<rparr>\<rparr>"
    have "conn_core ?d = conn_core d" using that(3) by (auto simp: conn_core_def path_core_def)
    then show "good ?d" using that(1) good_cong by blast
    have "safe_core ?d = safe_core d" using that(3) [of "cn_spaces d sid"] by (auto simp: safe_core_def space_core_def)
    then show "conn_safe ?d" using that(2) conn_safe_cong by blast
  qed
  have fold: "good d" "conn_safe d" if "foldl (ack_packet sid) (c, None) ns = (d, x)" for d ns x
    using good_ack_packets [OF assms(1), of sid None ns] ack_packets_safe [OF assms, of sid None ns] that by simp_all
  have timer: "conn_safe (set_loss_detection_timer d) = conn_safe d" for d by (rule conn_safe_cong) simp
  show ?thesis
    unfolding on_ack_received_def Let_def
    by (auto simp: assms timer space_core_def intro: fold intro!: detect_lost_packets_safe upd
        split: outcome.split prod.split option.split)
qed

section \<open>Incoming packets\<close>

definition good_safe :: "connection \<Rightarrow> bool" where
  "good_safe c \<longleftrightarrow> good c \<and> conn_safe c"

lemma conn_safe_streams:
  "(\<And>F. streams_safe (cn_streams c) F \<Longrightarrow> streams_safe st F) \<Longrightarrow> conn_safe c \<Longrightarrow> conn_safe (c\<lparr>cn_streams := st\<rparr>)"
  using carried_cong [of "c\<lparr>cn_streams := st\<rparr>" c] by (simp add: conn_safe_def)

lemma conn_safe_same: "send_same (cn_streams c) st \<Longrightarrow> conn_safe c \<Longrightarrow> conn_safe (c\<lparr>cn_streams := st\<rparr>)"
  using conn_safe_streams send_same_safe by blast

lemma early_frame_safe: "good_safe c \<Longrightarrow> good_safe (fst (early_frame B now sid f c))"
proof -
  assume c: "good_safe c"
  then have safe: "good c" "conn_safe c" by (simp_all add: good_safe_def)
  have "conn_safe (fst (early_frame B now sid f c))"
  proof (cases f)
    case (Ack a)
    then show ?thesis using on_ack_received_safe [OF safe] by (simp add: early_frame_def case_prod_unfold)
  next
    case (Crypto x)
    have "safe_core (fst (early_frame B now sid f c)) = safe_core c"
      by (simp add: Crypto early_frame_def Let_def safe_core_space)
    then show ?thesis using safe(2) conn_safe_cong by blast
  qed (use safe(2) conn_safe_cong [OF safe_core_upd(13), of _ c] in \<open>simp_all add: early_frame_def\<close>)
  then show ?thesis using safe(1) good_early_frame by (simp add: good_safe_def)
qed

lemma data_frame_safe: "good_safe c \<Longrightarrow> good_safe (fst (data_frame B now sid len f c))"
proof -
  assume c: "good_safe c"
  then have safe: "good c" "conn_safe c" by (simp_all add: good_safe_def)
  have "conn_safe (fst (data_frame B now sid len f c))"
  proof (cases f)
    case (Ack a)
    then show ?thesis using on_ack_received_safe [OF safe] by (simp add: data_frame_def case_prod_unfold)
  next
    case (Stream s)
    then show ?thesis using conn_safe_same [OF received_same safe(2)] by (simp add: data_frame_def case_prod_unfold)
  next
    case (ResetStream r)
    then show ?thesis using conn_safe_same [OF received_reset_same safe(2)] by (simp add: data_frame_def case_prod_unfold)
  next
    case (StopSending s)
    then show ?thesis
      using conn_safe_streams [OF received_stop_sending_safe safe(2)] by (simp add: data_frame_def case_prod_unfold)
  qed (use safe(2) conn_safe_cong [of "upd_acks sid set_immediate_ack_required c" c] conn_safe_cong [of "kill _ c" c]
    in \<open>simp_all add: data_frame_def\<close>)
  then show ?thesis using safe(1) good_data_frame by (simp add: good_safe_def)
qed

lemma process_packet_safe: "good_safe c \<Longrightarrow> good_safe (fst (process_packet B now num h payload c))"
  by (rule process_packet_keeps [where J = good_safe]) (auto intro: early_frame_safe data_frame_safe)

lemma on_packet_authenticated_safe:
  "conn_safe c \<Longrightarrow> conn_safe (on_packet_authenticated now sid num c)"
proof -
  have "safe_core (on_packet_authenticated now sid num c) = safe_core c"
  proof (cases num)
    case (Some n)
    define d where "d = (if cn_side c = Server \<and> hi (cn_spaces c SInitial) \<and> sid = SHandshake then discard_space SInitial c else c)"
    have "safe_core d = safe_core c" by (simp add: d_def safe_core_discard)
    then show ?thesis
      unfolding on_packet_authenticated_def Some option.case Let_def d_def [symmetric]
      by (simp add: case_prod_unfold safe_core_space)
  qed (simp add: on_packet_authenticated_def)
  then show "conn_safe c \<Longrightarrow> ?thesis" using conn_safe_cong by blast
qed

lemma settle_safe:
  assumes "settle now was_closed was_drained (d, r) = Ok c'"
  shows "conn_safe c' = conn_safe d"
proof (rule conn_safe_cong)
  define e where "e = (case r of Err e \<Rightarrow> (conn_error e d)\<lparr>cn_state := error_state e\<rparr> | _ \<Rightarrow> d)"
  have "safe_core e = safe_core d" by (simp add: e_def split: outcome.split)
  moreover have "r \<noteq> Panic" using assms by (auto simp: settle_def)
  ultimately show "safe_core c' = safe_core d"
    using assms by (cases r) (auto simp: settle_def Let_def)
qed

lemma handle_data_safe:
  assumes "good c" "conn_safe c" "handle_data B now data c = Ok c'" "\<forall>k. rx_packet (cn_spaces c' k) < 2 ^ 62"
  shows "conn_safe c'"
  using assms(3)
proof (cases rule: handle_data_cases)
  case (1 sid num d h payload c0)
  have "safe_core c0 = safe_core c" unfolding 1(1) by (rule safe_core_space) simp
  then have c0: "good c0" "conn_safe c0"
    using good_dedup [OF assms(1), of sid d] 1(1) conn_safe_cong [of c0 c] assms(2) by simp_all
  define c1 where "c1 = (if \<not> is_closed (cn_state c) then on_packet_authenticated now sid num c0 else c0)"
  show ?thesis
  proof (cases "c' = c0")
    case False
    obtain d r where dr: "process_packet B now num h payload c1 = (d, r)" by force
    have settled: "settle now (is_closed (cn_state c)) (is_drained (cn_state c)) (process_packet B now num h payload c1) = Ok c'"
      using False 1(2) by (simp add: c1_def)
    have "good_safe c1"
      using authenticated_good [OF c0(1) c1_def settled assms(4)] on_packet_authenticated_safe [OF c0(2)] c0(2)
      by (simp add: good_safe_def c1_def)
    then have "conn_safe d" using process_packet_safe [of c1 B now num h payload] dr by (simp add: good_safe_def)
    then show ?thesis using settle_safe [OF settled [unfolded dr]] by simp
  qed (use c0 in simp)
qed

section \<open>Outgoing packets\<close>

lemma carried_enqueue:
  "carried (c\<lparr>cn_path := (cn_path c)\<lparr>sending_queue := sending_queue (cn_path c) @ [q]\<rparr>\<rparr>) =
     (\<lambda>k. carried c k \<union> (if sp_space_id (sch_meta q) = SData then metas_of (sp_stream_frames (sch_meta q)) k else {}))"
  by (auto simp: carried_def fun_eq_iff)

text \<open>What filling a packet leaves: the frames written account for what left the buffers.\<close>

definition filled :: "space_id \<Rightarrow> connection \<Rightarrow> connection \<Rightarrow> stream_meta list \<Rightarrow> bool" where
  "filled sid c c' ms \<longleftrightarrow> sent_packets (cn_spaces c' SData) = sent_packets (cn_spaces c SData) \<and>
     sending_queue (cn_path c') = sending_queue (cn_path c) \<and>
     streams_safe (cn_streams c') (\<lambda>k. carried c k \<union> (if sid = SData then metas_of ms k else {}))"

lemma filled_same: "conn_safe c \<Longrightarrow> safe_core c' = safe_core c \<Longrightarrow> filled sid c c' ms"
proof -
  assume c: "conn_safe c" and core: "safe_core c' = safe_core c"
  have "streams_safe (cn_streams c') (carried c)"
    using c core streams_safe_cong [of "cn_streams c'" "cn_streams c"] by (simp add: conn_safe_def safe_core_def)
  then have "streams_safe (cn_streams c') (\<lambda>k. carried c k \<union> (if sid = SData then metas_of ms k else {}))"
    by (rule streams_safe_mono) simp
  then show ?thesis using core by (simp add: filled_def safe_core_def)
qed

lemma populate_packet_filled:
  assumes "conn_safe c"
  shows "post (populate_packet B now sid c w :: (_, 'e) outcome) (\<lambda>(c', sent, w'). filled sid c c' (fr_stream_frames sent))"
proof -
  have streams: "post (bindO (write_control_frames B (cn_streams d) w (ps_pending (cn_spaces d sid)) rts) (\<lambda>(w, pending, rts).
       bindO (write_stream_frames B (cn_streams (upd_space sid (\<lambda>s. s\<lparr>ps_pending := pending\<rparr>) d)) w True) (\<lambda>(st, w, metas).
       Ok ((upd_space sid (\<lambda>s. s\<lparr>ps_pending := pending\<rparr>) d)\<lparr>cn_streams := st\<rparr>, (sent\<lparr>fr_retransmits := rts\<rparr>)\<lparr>fr_stream_frames := metas\<rparr>, w))) :: (_, 'e) outcome)
      (\<lambda>(c', sent, w'). filled sid c c' (fr_stream_frames sent))"
    if d: "safe_core d = safe_core c" and sid: "sid = SData" for d w rts sent
  proof -
    have safe: "streams_safe (cn_streams d) (carried c)"
      using assms d streams_safe_cong [of "cn_streams d" "cn_streams c"] by (simp add: conn_safe_def safe_core_def)
    show ?thesis
      apply (rule post_bind [OF post_any], clarsimp)
      apply (rule post_bind [OF write_stream_frames_safe [OF safe]])
      using d sid by (auto simp: filled_def safe_core_def intro!: post_Ok)
  qed
  have upd: "safe_core (upd_space k (\<lambda>s. s\<lparr>ps_pending := f s, hi := b\<rparr>) d) = safe_core d"
    "safe_core (upd_space k (\<lambda>s. s\<lparr>ping_pending := b\<rparr>) d) = safe_core d" for k f b d
    by (simp_all add: safe_core_space)
  show ?thesis
    unfolding populate_packet_def
    apply (rule post_bind [OF post_any], clarify)
    apply (rule post_bind [where Q = "\<lambda>(d, fr, w'). safe_core d = safe_core c"])
     apply (auto intro!: post_bind [OF post_any] post_Ok simp: upd)[1]
    apply clarify
    apply (rule post_bind [where Q = "\<lambda>(d, w'). safe_core d = safe_core c"])
     apply (auto intro!: post_bind [OF post_any] post_Ok simp: upd)[1]
    apply clarify
    apply (rule post_if)
     apply (unfold Let_def, erule streams, assumption)
    apply (auto intro!: post_Ok filled_same [OF assms])
    done
qed

lemma build_packet_safe:
  assumes "conn_safe c"
  shows "post (build_packet B now close ae sid c :: (_, 'e) outcome) conn_safe"
  unfolding build_packet_def
proof (rule post_bind [where Q = "\<lambda>x. get_tx_number (cn_spaces c sid) = (Ok x :: (_, 'e) outcome)"], goal_cases)
  case (2 x)
  then obtain s n where x: "x = (s, n)" "get_tx_number (cn_spaces c sid) = (Ok (s, n) :: (_, 'e) outcome)" by (cases x) auto
  define c1 where "c1 = upd_space sid (\<lambda>_. s) c"
  have core: "safe_core c1 = safe_core c"
    unfolding c1_def using x(2) by (intro safe_core_space) (auto simp: get_tx_number_def split: if_splits)
  then have c1: "conn_safe c1" using conn_safe_cong assms by blast
  have finish: "conn_safe (d\<lparr>cn_path := (cn_path d)\<lparr>sending_queue := sending_queue (cn_path d) @ [q]\<rparr>\<rparr>)"
    if "filled sid c1 d0 ms" "safe_core d = safe_core d0" "sp_space_id (sch_meta q) = sid" "sp_stream_frames (sch_meta q) = ms" for d d0 q ms
  proof -
    have car: "carried d = carried c1"
      using that(1,2) by (intro carried_cong) (simp_all add: filled_def safe_core_def)
    have "streams_safe (cn_streams d) (\<lambda>k. carried c1 k \<union> (if sid = SData then metas_of ms k else {}))"
      using that(1,2) streams_safe_cong [of "cn_streams d" "cn_streams d0"] by (simp add: filled_def safe_core_def)
    then show ?thesis unfolding conn_safe_def carried_enqueue car that(3,4) by simp
  qed
  show ?case
    unfolding x(1) prod.case Let_def c1_def [symmetric]
    apply (rule post_bind [OF post_any], rule post_bind [OF post_any], rule post_bind [OF post_any])
    apply (rule post_bind [where Q = "\<lambda>(d, sent, w). filled sid c1 d (fr_stream_frames sent)"])
     apply (rule post_if, rule post_bind [OF post_any])
      apply (auto intro!: post_Ok filled_same [OF c1])[1]
     apply (rule populate_packet_filled [OF c1])
    apply clarify
    apply (rule post_Ok, erule finish)
      apply simp_all
    done
qed (simp add: post_def)

lemma poll_transmit_safe:
  assumes "conn_safe c"
  shows "post (poll_transmit B now c :: (_, 'e) outcome) (\<lambda>(c', again). conn_safe c')"
proof -
  define Q where "Q = (\<lambda>(c' :: connection, sent :: bool). conn_safe c')"
  have limited: "conn_safe (e\<lparr>app_limited := l\<rparr>) = conn_safe e" for e l by (rule conn_safe_cong) simp
  have turn: "post (poll_space B now close blocked sid cs :: (_, 'e) outcome) Q" if "Q cs" for close blocked sid cs
  proof -
    obtain d sent where cs: "cs = (d, sent)" "conn_safe d" using \<open>Q cs\<close> by (cases cs) (auto simp: Q_def)
    have "post (bindO (build_packet B now close ae sid e) (\<lambda>c. Ok (c, True)) :: (_, 'e) outcome) Q" if "conn_safe e" for ae e
      by (rule post_bind [OF build_packet_safe [OF that]]) (auto simp: Q_def intro!: post_Ok)
    moreover have "conn_safe (discard_space SInitial d)"
      using cs(2) conn_safe_cong [OF safe_core_discard, of SInitial d] by simp
    ultimately show ?thesis using cs(2) limited
      unfolding poll_space_def cs(1) prod.case Let_def by (auto intro!: post_Ok simp: Q_def)
  qed
  have Q: "Q (c, False)" using assms by (simp add: Q_def)
  show ?thesis
    unfolding poll_transmit_unfold Let_def
    apply (rule post_if, simp add: post_Ok assms)
    apply (rule post_if, simp add: post_Ok assms)
    apply (rule post_bind [OF turn [OF Q]])
    apply (erule post_bind [OF turn])
    apply (erule post_bind [OF turn])
    apply (auto simp: Q_def limited intro!: post_Ok)
    done
qed

text \<open>A packet that is sent moves from the queue to the packets in flight.\<close>

lemma send_next_safe:
  assumes "good c" "conn_safe c" "send_next sent_at c = Ok (c', r)"
  shows "conn_safe c'"
proof (cases "sending_queue (cn_path c)")
  case Nil
  then have "safe_core c' = safe_core c" using assms(3) by (auto simp: send_next_def send_one_def safe_core_def)
  then show ?thesis using assms(2) conn_safe_cong by blast
next
  case (Cons q rest)
  then obtain at where at: "sent_at = Some at" using assms(3) by (cases sent_at) (auto simp: send_next_def send_one_def)
  define m where "m = (sch_meta q)\<lparr>time_sent := at\<rparr>"
  let ?sid = "sp_space_id (sch_meta q)"
  have fields: "cn_streams c' = cn_streams c" "sending_queue (cn_path c') = rest"
    "cn_spaces c' = (cn_spaces c)(?sid := fst (ps_sent (cn_spaces c ?sid) m))"
    using assms(3) unfolding send_next_def send_one_def Cons at
    by (auto simp: Let_def case_prod_unfold m_def split: if_splits)
  have fresh: "map_of (sent_packets (cn_spaces c ?sid)) (sp_number m) = None"
    using assms(1) Cons by (auto simp: good_def conn_inv_def path_ok_def queued_ok_def Let_def m_def)
  have sent: "set (sent_packets (fst (ps_sent (cn_spaces c ?sid) m))) = insert (sp_number m, m) (set (sent_packets (cn_spaces c ?sid)))"
  proof -
    have "set (bt_insert k v xs) = insert (k, v) (set xs)" if "map_of xs k = None" for k v and xs :: "sent_packet btree"
      using that by (induction k v xs rule: bt_insert.induct) (auto split: if_splits)
    then show ?thesis using fresh by (simp add: ps_sent_def Let_def)
  qed
  have "carried c k \<subseteq> carried c' k" for k
    using sent unfolding carried_def fields Cons by (auto simp: m_def)
  then show ?thesis
    using assms(2) unfolding conn_safe_def fields(1) by (rule streams_safe_mono [rotated])
qed

section \<open>Calls of the application and timeouts\<close>

lemma with_streams_safe:
  assumes "conn_safe c" "with_streams c r = Ok c'" "\<And>st F. r = Ok st \<Longrightarrow> streams_safe (cn_streams c) F \<Longrightarrow> streams_safe st F"
  shows "conn_safe c'"
proof -
  consider "c' = c" | st where "r = Ok st" "c' = c\<lparr>cn_streams := st\<rparr>"
    using assms(2) by (auto simp: with_streams_def or_else_def bindO_eq_Ok split: outcome.splits)
  then show ?thesis using conn_safe_streams assms(1,3) by cases blast+
qed

lemma with_pending_safe:
  assumes "conn_safe c" "with_pending c r = Ok c'"
    "\<And>st p F. r = Ok (st, p) \<Longrightarrow> streams_safe (cn_streams c) F \<Longrightarrow> streams_safe st F"
  shows "conn_safe c'"
proof -
  consider "c' = c" | st p where "r = Ok (st, p)" "c' = set_data_pending p (c\<lparr>cn_streams := st\<rparr>)"
    using assms(2) by (auto simp: with_pending_def or_else_def bindO_eq_Ok split: outcome.splits)
  then show ?thesis
  proof cases
    case 2
    then have "safe_core c' = safe_core (c\<lparr>cn_streams := st\<rparr>)" by (simp add: set_data_pending_def safe_core_space)
    then show ?thesis using 2 conn_safe_cong conn_safe_streams [of c st] assms(1,3) by blast
  qed (use assms(1) in simp)
qed

lemma app_exec_safe:
  assumes "conn_safe c" "app_exec a c = Ok c'" "streams_short (cn_streams c')"
  shows "conn_safe c'"
proof (cases a)
  case (AppOpen d)
  then have "c' = c\<lparr>cn_streams := fst (open_stream (cn_streams c) d)\<rparr>"
    using assms(2) by (auto simp: conn_open_stream_def bindO_eq_Ok split: if_splits prod.splits)
  then show ?thesis using conn_safe_streams [OF open_stream_safe assms(1)] by blast
next
  case (AppWrite sid data)
  then have c': "c' = c\<lparr>cn_streams := fst (sstream_write (is_closed (cn_state c)) (cn_streams c) sid data)\<rparr>"
    using assms(2) by (auto simp: conn_write_def bindO_eq_Ok split: if_splits prod.splits)
  then show ?thesis using conn_safe_streams [OF sstream_write_safe assms(1)] assms(3) by simp
next
  case (AppFinish sid)
  then consider "c' = c" | st where "c' = c\<lparr>cn_streams := st\<rparr>" "sstream_finish (cn_streams c) sid = Ok st"
    using assms(2) by (auto simp: conn_finish_def or_else_def bindO_eq_Ok split: if_splits outcome.splits)
  then show ?thesis
  proof cases
    case 2
    then show ?thesis using conn_safe_streams [of c st] sstream_finish_safe assms(1) by blast
  qed (use assms(1) in simp)
next
  case (AppClose now code reason)
  then have "safe_core c' = safe_core c" using assms(2) by (auto simp: conn_close_def)
  then show ?thesis using assms(1) conn_safe_cong by blast
next
  case (AppReset sid code)
  then have "with_pending c (sstream_reset (cn_streams c) (data_pending c) sid code) = Ok c'"
    using assms(2) by (simp split: if_splits)
  then show ?thesis using sstream_reset_safe by (rule with_pending_safe [OF assms(1)]) blast
next
  case (AppPriority sid i)
  then have "with_streams c (sstream_set_priority (cn_streams c) sid i) = Ok c'" using assms(2) by (simp split: if_splits)
  then show ?thesis using sstream_set_priority_safe by (rule with_streams_safe [OF assms(1)]) blast
next
  case (AppRead sid ordered lens)
  then have "with_streams c (read_stream sid ordered lens (cn_streams c) :: (_, unit) outcome) = Ok c'"
    using assms(2) by (simp split: if_splits)
  then show ?thesis by (rule with_streams_safe [OF assms(1)]) (use read_stream_same send_same_safe in blast)
next
  case (AppStop sid code)
  then have "with_pending c (rstream_stop (cn_streams c) (data_pending c) sid code) = Ok c'"
    using assms(2) by (simp split: if_splits)
  then show ?thesis by (rule with_pending_safe [OF assms(1)]) (use rstream_same(1) send_same_safe in blast)
next
  case (AppReceivedReset sid)
  then have "with_streams c (bindO (rstream_received_reset (cn_streams c) sid) (\<lambda>(st, _). Ok st)) = Ok c'"
    using assms(2) by (simp split: if_splits)
  then show ?thesis
    by (rule with_streams_safe [OF assms(1)])
      (auto simp: bindO_eq_Ok, metis rstream_same(2) send_same_safe)
qed

lemma handle_timeout_safe:
  assumes "good c" "conn_safe c"
  shows "conn_safe (handle_timeout t now c)"
proof -
  have timer: "conn_safe (set_loss_detection_timer d) = conn_safe d" for d by (rule conn_safe_cong) simp
  have "good_safe (foldl (\<lambda>c sid. if ps_in_flight (cn_spaces c sid) > 0 then detect_lost_packets now sid c else c) d sids)"
    if "good_safe d" for d sids
    using that
    by (induction sids arbitrary: d) (auto simp: good_safe_def good_detect_lost_packets detect_lost_packets_safe)
  then have "conn_safe (on_loss_detection_timeout now c)"
    using assms by (auto simp: on_loss_detection_timeout_def timer good_safe_def detect_lost_packets_safe split: option.split)
  then show ?thesis
    using assms(2) conn_safe_cong [of "upd_acks SData on_ack_delay_timeout c" c] conn_safe_cong [of "c\<lparr>cn_state := CDrained\<rparr>" c]
    by (cases t) (simp_all add: handle_timeout_def)
qed

section \<open>Reachable connections\<close>

text \<open>As \<open>conn_reach\<close>, with streams of less than \<open>2\<^sup>6\<^sup>2\<close> bytes.\<close>

inductive stream_reach :: "bytes_api \<Rightarrow> connection \<Rightarrow> bool" for B where
  new: "stream_reach B (conn_new s now)"
| first: "handle_first_packet B now ih payload (conn_new Server created) = (c, Ok ()) \<Longrightarrow> roomy c \<Longrightarrow> stream_reach B c"
| step: "stream_reach B c \<Longrightarrow> conn_step B c c' \<Longrightarrow> roomy c' \<Longrightarrow> streams_short (cn_streams c') \<Longrightarrow> stream_reach B c'"

lemma stream_reach_conn: "stream_reach B c \<Longrightarrow> conn_reach B c"
  by (induction rule: stream_reach.induct) (auto intro: conn_reach.intros)

lemma conn_step_safe:
  assumes "conn_step B c c'" "good c" "conn_safe c" "roomy c'" "streams_short (cn_streams c')"
  shows "conn_safe c'"
  using assms
proof (induction rule: conn_step.induct)
  case (poll c now c' again)
  then show ?case using poll_transmit_safe [of c B now, where 'e = unit] by (simp add: post_def)
next
  case (send c sent_at c' r)
  then show ?case using send_next_safe by blast
next
  case (event c ev evs)
  then show ?case using conn_safe_same [of c "(cn_streams c)\<lparr>st_events := evs\<rparr>"] by simp
next
  case (app c a c')
  then show ?case using app_exec_safe by blast
next
  case (timeout c now tt t)
  have "conn_safe (c\<lparr>cn_timers := tt\<rparr>)" using conn_safe_cong [of "c\<lparr>cn_timers := tt\<rparr>" c] timeout by simp
  moreover have "good (c\<lparr>cn_timers := tt\<rparr>)" using good_cong [of "c\<lparr>cn_timers := tt\<rparr>" c] timeout by (simp add: conn_core_def)
  ultimately show ?case using handle_timeout_safe by blast
next
  case (data c now data c')
  then show ?case using handle_data_safe by (simp add: roomy_def)
qed

lemma conn_new_safe: "conn_safe (conn_new s now)"
  by (simp add: conn_safe_def streams_safe_def conn_new_def streams_new_def Let_def upd_space_def)

lemma stream_reach_safe: "stream_reach B c \<Longrightarrow> conn_safe c"
proof (induction rule: stream_reach.induct)
  case (new s now)
  then show ?case by (rule conn_new_safe)
next
  case (first now ih payload created c)
  note c = first_packet_good [OF first]
  have "good_safe (on_packet_authenticated now SInitial (Some (pn_expand (ih_number ih) 0)) (conn_new Server created))"
    using c(1) on_packet_authenticated_safe [OF conn_new_safe] by (simp add: good_safe_def)
  from process_packet_safe [OF this] show ?case by (subst c(2)) (simp add: good_safe_def)
next
  case (step c c')
  then show ?case using conn_step_safe conn_reach_sound stream_reach_conn by blast
qed

section \<open>Properties\<close>


text \<open>A client that has opened its first stream and written three bytes.\<close>

definition opened_client :: connection where
  "opened_client = (conn_new Client 0)\<lparr>cn_streams := fst (open_stream (streams_new Client) Bi)\<rparr>"

definition writing_client :: connection where
  "writing_client = opened_client\<lparr>cn_streams := fst (sstream_write False (cn_streams opened_client) 0 [1, 2, 3])\<rparr>"

lemma opened_client_send: "st_send (cn_streams opened_client) = [0 \<mapsto> send_default]"
  by (simp add: opened_client_def open_stream_def streams_new_def Let_def stream_id_new_def)

lemma writing_client_send:
  "st_send (cn_streams writing_client) = [0 \<mapsto> send_default\<lparr>snd_pending := sb_write send_buffer_default [1, 2, 3]\<rparr>]"
  using opened_client_send
  by (auto simp: writing_client_def sstream_write_def Let_def send_write_def is_writable_def send_default_def fun_eq_iff)

lemma writing_client_reach: "stream_reach std_bytes writing_client"
proof -
  have state: "cn_state (conn_new Client 0) = CHandshake" "cn_side (conn_new Client 0) = Client"
    "cn_streams (conn_new Client 0) = streams_new Client" by (simp_all add: conn_new_def Let_def)
  then have opened: "cn_state opened_client = CHandshake" "cn_side opened_client = Client" by (simp_all add: opened_client_def)
  have roomy: "roomy opened_client" "roomy writing_client"
    using conn_new_sound(3) [of Client 0] by (simp_all add: roomy_def opened_client_def writing_client_def)
  have short: "streams_short (cn_streams opened_client)" "streams_short (cn_streams writing_client)"
    by (simp_all add: streams_short_def opened_client_send writing_client_send send_default_def send_buffer_default_def
        sb_write_def add64_def)
  have "app_exec (AppOpen Bi) (conn_new Client 0) = Ok opened_client"
    by (simp add: conn_open_stream_def state opened_client_def case_prod_unfold)
  then have "conn_step std_bytes (conn_new Client 0) opened_client"
    using state by (intro conn_step.app [where a = "AppOpen Bi"]) simp_all
  then have reach: "stream_reach std_bytes opened_client" using stream_reach.step [OF stream_reach.new] roomy short by blast
  have "snd (sstream_write False (cn_streams opened_client) 0 [1, 2, 3]) = Ok ()"
    by (simp add: sstream_write_def opened_client_send Let_def send_write_def is_writable_def send_default_def)
  then have "app_exec (AppWrite 0 [1, 2, 3]) opened_client = Ok writing_client"
    by (simp add: conn_write_def may_send_def stream_dir_def opened writing_client_def case_prod_unfold)
  then have "conn_step std_bytes opened_client writing_client"
    using opened by (intro conn_step.app [where a = "AppWrite 0 [1, 2, 3]"]) simp_all
  then show ?thesis using stream_reach.step [OF reach] roomy short by blast
qed


end
