(* ===== verification/Timer_Future.thy ===== *)
theory Timer_Future
  imports Path
begin

text \<open>
  The table of timers as the future that the task of a connection waits for
  (\<open>core/src/connection/timer.rs\<close>).  A poll that finds no timer due leaves the waker of the task in
  the table and starts a sleeper for the earliest timer; a change of a timer wakes the task.  The
  runtime is a small transition system around it: whether the task is due to run, and the sleepers
  that will wake it.  \<open>Path\<close> has the table without the waker, which is what a connection sees of it.
\<close>

section \<open>The future\<close>

record 'w timer_future =
  tf_data :: timer_table
  tf_waker :: "'w option"

definition timer_future_default :: "'w timer_future" where
  "timer_future_default = \<lparr>tf_data = timer_table_default, tf_waker = None\<rparr>"

text \<open>What an operation asks of the runtime: wake a task now, or spawn a sleeper that does it.\<close>

datatype 'w wake_up = Wake 'w | Wake_At instant 'w

definition tf_wake :: "'w timer_future \<Rightarrow> 'w timer_future \<times> 'w wake_up list" where
  "tf_wake f = (case tf_waker f of
     Some waker \<Rightarrow> (f\<lparr>tf_waker := None\<rparr>, [Wake waker])
   | None \<Rightarrow> (f, []))"

definition tf_set :: "timer \<Rightarrow> instant \<Rightarrow> 'w timer_future \<Rightarrow> 'w timer_future \<times> 'w wake_up list" where
  "tf_set t time f = tf_wake (f\<lparr>tf_data := (tf_data f)(t := Some time)\<rparr>)"

definition tf_stop :: "timer \<Rightarrow> 'w timer_future \<Rightarrow> 'w timer_future \<times> 'w wake_up list" where
  "tf_stop t f = tf_wake (f\<lparr>tf_data := (tf_data f)(t := None)\<rparr>)"

text \<open>\<open>poll\<close>: no timer is \<open>Pending\<close>, a timer \<open>Ready\<close> with it.\<close>

definition tf_poll :: "'w \<Rightarrow> instant \<Rightarrow> 'w timer_future \<Rightarrow> 'w timer_future \<times> timer option \<times> 'w wake_up list" where
  "tf_poll waker now f =
     (let f = f\<lparr>tf_waker := Some waker\<rparr> in
      case min_by snd (List.map_filter (\<lambda>t. map_option (\<lambda>time. (t, time)) (tf_data f t)) timer_variants) of
        None \<Rightarrow> (f, None, [])
      | Some (timer_id, earliest) \<Rightarrow>
          if now \<ge> earliest then (f\<lparr>tf_data := (tf_data f)(timer_id := None)\<rparr>, Some timer_id, [])
          else (f, None, [Wake_At earliest waker]))"

text \<open>Without the waker this is the table of \<open>Path\<close>.\<close>

lemma tf_data_refines:
  "tf_data (fst (tf_set t time f)) = timer_set (tf_data f) t time"
  "tf_data (fst (tf_stop t f)) = timer_stop (tf_data f) t"
  "tf_data (fst (tf_poll w now f)) = fst (timer_poll (tf_data f) now)"
  "fst (snd (tf_poll w now f)) = snd (timer_poll (tf_data f) now)"
  by (auto simp: tf_set_def tf_stop_def tf_wake_def timer_set_def timer_stop_def tf_poll_def timer_poll_def Let_def
      split: option.split prod.split)

section \<open>The task in the runtime\<close>

text \<open>
  \<open>ts_woken\<close> says that the runtime will run the task; a task that runs keeps running until a
  poll is pending.  Sleepers fire when their time has come; the states have no clock, so here at any moment.
\<close>

record 'w timer_system =
  ts_future :: "'w timer_future"
  ts_woken :: bool
  ts_sleepers :: "(instant \<times> 'w) list"

definition ts_apply :: "'w \<Rightarrow> 'w wake_up list \<Rightarrow> 'w timer_system \<Rightarrow> 'w timer_system" where
  "ts_apply task es s =
     s\<lparr>ts_woken := ts_woken s \<or> Wake task \<in> set es,
       ts_sleepers := ts_sleepers s @ List.map_filter (\<lambda>e. case e of Wake_At time w \<Rightarrow> Some (time, w) | Wake w \<Rightarrow> None) es\<rparr>"

inductive timer_reach :: "'w \<Rightarrow> 'w timer_system \<Rightarrow> bool" for task where
  start: "timer_reach task \<lparr>ts_future = timer_future_default, ts_woken = True, ts_sleepers = []\<rparr>"
| set: "timer_reach task s \<Longrightarrow> tf_set t time (ts_future s) = (f, es) \<Longrightarrow> timer_reach task (ts_apply task es (s\<lparr>ts_future := f\<rparr>))"
| stop: "timer_reach task s \<Longrightarrow> tf_stop t (ts_future s) = (f, es) \<Longrightarrow> timer_reach task (ts_apply task es (s\<lparr>ts_future := f\<rparr>))"
| poll: "timer_reach task s \<Longrightarrow> ts_woken s \<Longrightarrow> tf_poll task now (ts_future s) = (f, ready, es) \<Longrightarrow>
    timer_reach task (ts_apply task es (s\<lparr>ts_future := f, ts_woken := (ready \<noteq> None)\<rparr>))"
| fire: "timer_reach task s \<Longrightarrow> ts_sleepers s = xs @ (time, w) # ys \<Longrightarrow>
    timer_reach task (s\<lparr>ts_sleepers := xs @ ys, ts_woken := ts_woken s \<or> w = task\<rparr>)"

text \<open>A task that sleeps has its waker in the table, and a sleeper for every timer.\<close>

definition wake_inv :: "'w \<Rightarrow> 'w timer_system \<Rightarrow> bool" where
  "wake_inv task s \<longleftrightarrow> ts_woken s \<or> tf_waker (ts_future s) = Some task \<and>
     (\<forall>t time. tf_data (ts_future s) t = Some time \<longrightarrow> (\<exists>e\<le>time. (e, task) \<in> set (ts_sleepers s)))"

lemma wake_inv_change:
  assumes "wake_inv task s" "tf_wake (ts_future s\<lparr>tf_data := d\<rparr>) = (f, es)"
  shows "wake_inv task (ts_apply task es (s\<lparr>ts_future := f\<rparr>))"
  using assms by (auto simp: wake_inv_def tf_wake_def ts_apply_def split: option.splits)

lemma pending_poll:
  assumes "tf_poll task now f = (f', None, es)"
  shows "f' = f\<lparr>tf_waker := Some task\<rparr> \<and> (\<forall>t time. tf_data f t = Some time \<longrightarrow> (\<exists>e\<le>time. es = [Wake_At e task]))"
proof -
  define xs where "xs = List.map_filter (\<lambda>t. map_option (\<lambda>time. (t, time)) (tf_data f t)) timer_variants"
  have set: "(t, time) \<in> set xs" if "tf_data f t = Some time" for t time
    using that by (cases t) (auto simp: xs_def List.map_filter_def timer_variants_def)
  show ?thesis
  proof (cases "min_by snd xs")
    case None
    then have "tf_data f t \<noteq> Some time" for t time using set [of t time] by auto
    then show ?thesis using assms None by (simp add: tf_poll_def Let_def flip: xs_def)
  next
    case (Some p)
    then have "f' = f\<lparr>tf_waker := Some task\<rparr>" "es = [Wake_At (snd p) task]"
      using assms by (auto simp: tf_poll_def Let_def simp flip: xs_def split: prod.splits if_splits)
    then show ?thesis using min_by_Some [OF Some] set by fastforce
  qed
qed

lemma wake_inv_reach: "timer_reach task s \<Longrightarrow> wake_inv task s"
proof (induction rule: timer_reach.induct)
  case start
  then show ?case by (simp add: wake_inv_def)
next
  case (set s t time f es)
  then show ?case by (intro wake_inv_change) (simp_all add: tf_set_def)
next
  case (stop s t f es)
  then show ?case by (intro wake_inv_change) (simp_all add: tf_stop_def)
next
  case (poll s now f ready es)
  then show ?case
    using pending_poll [of task now "ts_future s" f es]
    by (cases ready) (fastforce simp: wake_inv_def ts_apply_def List.map_filter_def)+
next
  case (fire s xs time w ys)
  then show ?case by (auto simp: wake_inv_def)
qed

section \<open>Properties\<close>

text \<open>
  C14. No timer is slept through: in every state that calls of \<open>set\<close>, \<open>stop\<close> and \<open>poll\<close> and the firing of sleepers can reach, when
  the task sleeps, every timer that is set has a sleeper that wakes the task no later than the timer is due, and any change
  of a timer wakes the task at once.
\<close>

theorem no_timer_slept_through:
  assumes "timer_reach task s" "\<not> ts_woken s"
  shows "(\<forall>t time. tf_data (ts_future s) t = Some time \<longrightarrow> (\<exists>e\<le>time. (e, task) \<in> set (ts_sleepers s))) \<and>
    (\<forall>t time. Wake task \<in> set (snd (tf_set t time (ts_future s))) \<and> Wake task \<in> set (snd (tf_stop t (ts_future s))))"
  using wake_inv_reach [OF assms(1)] assms(2) by (simp add: wake_inv_def tf_set_def tf_stop_def tf_wake_def)

text \<open>A task that sets a timer for the time 9, polls at 4 and sleeps.\<close>

definition sleeping :: "nat timer_system" where
  "sleeping = \<lparr>ts_future = \<lparr>tf_data = timer_table_default(Close_timer := Some 9), tf_waker = Some 1\<rparr>, ts_woken = False, ts_sleepers = [(9, 1)]\<rparr>"

lemma sleeping_reach: "timer_reach 1 sleeping"
proof -
  define s0 :: "nat timer_system" where "s0 = \<lparr>ts_future = timer_future_default, ts_woken = True, ts_sleepers = []\<rparr>"
  define f where "f = \<lparr>tf_data = timer_table_default(Close_timer := Some 9), tf_waker = None :: nat option\<rparr>"
  have "tf_set Close_timer 9 (ts_future s0) = (f, [])"
    by (simp add: s0_def f_def tf_set_def tf_wake_def timer_future_default_def)
  moreover have "timer_reach 1 s0" unfolding s0_def by (rule timer_reach.start)
  ultimately have "timer_reach 1 (ts_apply 1 [] (s0\<lparr>ts_future := f\<rparr>))" by (rule timer_reach.set [rotated])
  then have 1: "timer_reach 1 (s0\<lparr>ts_future := f\<rparr>)"
    by (simp add: ts_apply_def s0_def List.map_filter_def)
  have "tf_poll 1 4 f = (f\<lparr>tf_waker := Some 1\<rparr>, None, [Wake_At 9 1])"
    by (simp add: tf_poll_def f_def timer_variants_def List.map_filter_def timer_table_default_def)
  with timer_reach.poll [OF 1, of 4] show ?thesis
    by (simp add: s0_def ts_apply_def List.map_filter_def f_def sleeping_def)
qed

theorem no_timer_slept_through_witness:
  "tf_data (ts_future sleeping) Close_timer = Some 9 \<and> (\<exists>e. e \<le> 9 \<and> (e, 1) \<in> set (ts_sleepers sleeping)) \<and>
    Wake 1 \<in> set (snd (tf_set LossDetection 5 (ts_future sleeping))) \<and> Wake 1 \<in> set (snd (tf_stop Close_timer (ts_future sleeping)))"
proof -
  have "\<not> ts_woken sleeping" and data: "tf_data (ts_future sleeping) Close_timer = Some 9" by (simp_all add: sleeping_def)
  from no_timer_slept_through [OF sleeping_reach this(1)] data show ?thesis by blast
qed

end
