(* ===== verification/Hello_Packet.thy ===== *)
theory Hello_Packet
  imports Connection_Steps
begin

text \<open>
  The packets of the handshake: the Initial packet with which a client says hello and the one with
  which a server answers, from the connection that builds them to the frames the peer finds in
  them.  The hello is a CRYPTO frame of one byte.
\<close>

section \<open>Frames of a payload\<close>

text \<open>The payload is the encoding of the frames, one after the other.\<close>

definition frame_bytes :: "bytes_api \<Rightarrow> bytes \<Rightarrow> frame \<Rightarrow> bool" where
  "frame_bytes B bs f \<longleftrightarrow> bs \<noteq> [] \<and> (\<forall>rest ty. fst (try_next B \<lparr>fp_bytes = bs @ rest, fp_last_ty = ty\<rparr>) = Ok (f, rest))"

fun payload_of :: "bytes_api \<Rightarrow> frame list \<Rightarrow> bytes \<Rightarrow> bool" where
  "payload_of B [] bs \<longleftrightarrow> bs = []"
| "payload_of B (f # fs) bs \<longleftrightarrow> (\<exists>b rest. bs = b @ rest \<and> frame_bytes B b f \<and> payload_of B fs rest)"

fun handle_all :: "(frame \<Rightarrow> connection \<Rightarrow> connection \<times> (bool, transport_error) outcome) \<Rightarrow> frame list \<Rightarrow> connection \<Rightarrow>
    connection \<times> (unit, transport_error) outcome" where
  "handle_all handle [] c = (c, Ok ())"
| "handle_all handle (f # fs) c =
     (case handle f c of
        (c, Ok True) \<Rightarrow> handle_all handle fs c
      | (c, Ok False) \<Rightarrow> (c, Ok ())
      | (c, Err e) \<Rightarrow> (c, Err e)
      | (c, Panic) \<Rightarrow> (c, Panic))"

lemma frame_loop_all:
  "payload_of B fs bs \<Longrightarrow> frame_loop B handle \<lparr>fp_bytes = bs, fp_last_ty = ty\<rparr> c = handle_all handle fs c"
proof (induction fs arbitrary: bs ty c)
  case Nil
  then show ?case by (subst frame_loop.simps) (simp add: parser_next_def)
next
  case (Cons f fs)
  then obtain b rest where b: "bs = b @ rest" "frame_bytes B b f" "payload_of B fs rest" by auto
  obtain ty' where "try_next B \<lparr>fp_bytes = bs, fp_last_ty = ty\<rparr> = (Ok (f, rest), ty')"
    using b(1,2) by (metis frame_bytes_def prod.collapse)
  then have "parser_next B \<lparr>fp_bytes = bs, fp_last_ty = ty\<rparr> =
      (Ok (\<lparr>fp_bytes = rest, fp_last_ty = ty'\<rparr>, Some (Ok f)) :: (_, transport_error) outcome)"
    using b(1,2) by (auto simp: parser_next_def frame_bytes_def)
  then show ?case
    using Cons.IH [OF b(3)]
    by (subst frame_loop.simps) (simp split: prod.split outcome.split bool.split)
qed

lemma process_frames_all:
  "payload_of B (f # fs) bs \<Longrightarrow> process_frames B handle bs c = handle_all handle (f # fs) c"
  using frame_loop_all [of B "f # fs" bs handle None c]
  by (auto simp: process_frames_def frame_parser_new_def frame_bytes_def)

lemma parses_as_bytes:
  "parses_as B w w' f \<Longrightarrow> w_bytes w' = w_bytes w @ bs \<Longrightarrow> bs \<noteq> [] \<Longrightarrow> frame_bytes B bs f"
  by (auto simp: parses_as_def frame_bytes_def)

section \<open>The hello\<close>

definition hello_cid :: connection_id where
  "hello_cid = \<lparr>cid_len = 20, cid_bytes = FAKE_CID\<rparr>"

lemma fake_cid: "cid_new FAKE_CID = Ok hello_cid"
  by (simp add: cid_new_def FAKE_CID_def MAX_CID_SIZE_def hello_cid_def)

lemma length_FAKE_CID [simp]: "length FAKE_CID = 20"
  by (simp add: FAKE_CID_def)

abbreviation first_header :: header where
  "first_header \<equiv> packet_header SInitial hello_cid (U8 0)"

lemma first_header_norm: "header_norm first_header = first_header"
  by (simp add: packet_header_def)

text \<open>Type, offset, length and the one byte of data.\<close>

definition hello_frame :: "bytes_api \<Rightarrow> crypto" where
  "hello_frame B = \<lparr>crypto_offset = 0, crypto_data = be_put B 1 0\<rparr>"

context bytes_crate
begin

lemma put_hello_encode: "put_hello B w = crypto_encode B (hello_frame B) w"
  by (simp add: put_hello_def crypto_encode_def hello_frame_def codec_simps put_uint_def CRYPTO_def varint_bytes_def
      varint_max_values put_length del: One_nat_def)

lemma put_hello_slice:
  assumes "4 \<le> w_left w"
  shows "\<exists>bs. length bs = 4 \<and> put_hello B w = (Ok (w\<lparr>w_bytes := w_bytes w @ bs, w_left := w_left w - 4\<rparr>) :: (_, 'e) outcome) \<and>
    frame_bytes B bs (Crypto (hello_frame B))"
proof -
  define bs where "bs = be_put B 1 6 @ be_put B 1 0 @ be_put B 1 1 @ be_put B 1 0"
  have len: "length bs = 4" by (simp add: bs_def put_length)
  have "put_hello B w = (put_slice bs w :: (_, 'e) outcome)"
    by (simp add: put_hello_def put_uint_def bs_def put_slice_append del: One_nat_def)
  then have put: "put_hello B w = (Ok (w\<lparr>w_bytes := w_bytes w @ bs, w_left := w_left w - 4\<rparr>) :: (_, 'e) outcome)"
    using assms len by (simp add: put_slice_def)
  then have "parses_as B w (w\<lparr>w_bytes := w_bytes w @ bs, w_left := w_left w - 4\<rparr>) (Crypto (hello_frame B))"
    using crypto_parses put_hello_encode by metis
  then have "frame_bytes B bs (Crypto (hello_frame B))" using parses_as_bytes len by fastforce
  then show ?thesis using put len by blast
qed

lemma first_header_encode:
  "\<exists>hb. length hb = 50 \<and>
     header_encode B first_header \<lparr>w_bytes = [], w_left = INITIAL_MTU\<rparr> = (Ok \<lparr>w_bytes = hb, w_left = 1422\<rparr> :: (_, 'e) outcome) \<and>
     (\<forall>len payload. header_decode B (hb @ payload) len SUPPORTED_VERSIONS = Ok (first_header, payload))"
proof -
  define hb where "hb = be_put B 1 (unat (long_header_type_byte LInitial OR pn_tag (U8 0))) @ be_put B 4 1 @
    be_put B 1 20 @ FAKE_CID @ be_put B 1 20 @ FAKE_CID @ varint_bytes B 0 @ varint_bytes B 1 @ pn_bytes B (U8 0)"
  have len: "length hb = 50"
    by (simp add: hb_def put_length pn_bytes_def varint_bytes_def VARINT_MAX_1_def)
  have deref: "cid_deref hello_cid = FAKE_CID" by (simp add: cid_deref_def hello_cid_def)
  have "header_encode B first_header w = (put_slice hb w :: (_, 'e) outcome)" for w
    by (simp add: packet_header_def put_uint_def codec_simps deref hb_def SUPPORTED_VERSIONS_def varint_max_values
        del: One_nat_def long_header_type_byte.simps) (simp add: hello_cid_def)
  then have enc: "header_encode B first_header \<lparr>w_bytes = [], w_left = INITIAL_MTU\<rparr> = (Ok \<lparr>w_bytes = hb, w_left = 1422\<rparr> :: (_, 'e) outcome)"
    using len by (simp add: put_slice_def INITIAL_MTU_def)
  have ok: "header_ok l SUPPORTED_VERSIONS first_header" for l
    using cid_new_wf [OF fake_cid] by (simp add: packet_header_def SUPPORTED_VERSIONS_def)
  from header_decode_encode [OF ok enc] have "header_decode B (hb @ payload) l SUPPORTED_VERSIONS = Ok (first_header, payload)" for l payload
    by (auto simp: first_header_norm)
  then show ?thesis using len enc by blast
qed

text \<open>An acknowledgement of packet 0 alone has at most 12 bytes.\<close>

lemma ack_zero_slice:
  assumes "delay < 2 ^ 61" "12 \<le> w_left w"
  shows "\<exists>bs a. bs \<noteq> [] \<and> length bs \<le> 12 \<and>
    ack_encode B delay [(0, 1)] None w = (Ok (w\<lparr>w_bytes := w_bytes w @ bs, w_left := w_left w - length bs\<rparr>) :: (_, 'e) outcome) \<and>
    frame_bytes B bs (Ack a) \<and> ack_largest a = 0 \<and> ack_ranges B a = (Ok [(0, 0)] :: (_, transport_error) outcome)"
proof -
  define bs where "bs = varint_bytes B ACK @ ack_head_bytes B 0 delay 0 @ ack_additional_bytes B 0 1 [] @ ecn_bytes B None"
  have "ack_encode B delay [(0, 1)] None w = (put_slice bs w :: (_, 'e) outcome)"
    using ack_encode_eq [of "[(0, 1)]" 0 1 "[]" delay None w, where 'e = 'e] assms(1)
    by (simp add: bs_def varint_max_values ecn_small_def)
  moreover have len: "length bs \<le> 12" "bs \<noteq> []"
    using varint_bytes_length_le [of delay]
    by (auto simp: bs_def ack_head_bytes_def ack_additional_bytes_def ecn_bytes_def varint_bytes_length ACK_def varint_max_values
        simp flip: length_greater_0_conv)
  ultimately have enc: "ack_encode B delay [(0, 1)] None w =
      (Ok (w\<lparr>w_bytes := w_bytes w @ bs, w_left := w_left w - length bs\<rparr>) :: (_, 'e) outcome)"
    using assms(2) by (simp add: put_slice_def)
  from ack_parses [OF this, where 'f = transport_error] obtain a where
    a: "parses_as B w (w\<lparr>w_bytes := w_bytes w @ bs, w_left := w_left w - length bs\<rparr>) (Ack a)" "ack_largest a = 0"
      "ack_ranges B a = (Ok [(0, 0)] :: (_, transport_error) outcome)"
    by (auto simp: inclusive_def)
  then show ?thesis using enc len parses_as_bytes [OF a(1), of bs] by auto
qed

end

section \<open>Building the packet\<close>

text \<open>The connection after a packet with the hello and the pending acknowledgements was put into the queue.\<close>

definition hello_sent :: "instant \<Rightarrow> bytes \<Rightarrow> nat \<Rightarrow> connection \<Rightarrow> connection" where
  "hello_sent now packet n c =
     (let acked = ars_max (pa_ranges (ps_pending_acks (cn_spaces c SInitial)));
          c' = upd_space SInitial (\<lambda>s. s\<lparr>next_packet_number := 1, ps_pending := (ps_pending s)\<lparr>hello := False\<rparr>, hi := True\<rparr>) c;
          c' = (if acked \<noteq> None then stop_timer MaxAckDelay (upd_acks SInitial acks_sent c') else c') in
      c'\<lparr>cn_path := (cn_path c)\<lparr>sending_queue := sending_queue (cn_path c) @
        [\<lparr>sch_packet = packet, sch_meta = \<lparr>time_sent = now, sp_size = n, sp_ack_eliciting = True, sp_largest_acked = acked,
          sp_retransmits = Some (retransmits_default\<lparr>hello := True\<rparr>), sp_stream_frames = [], sp_number = 0,
          sp_space_id = SInitial\<rparr>\<rparr>]\<rparr>\<rparr>)"

text \<open>What the peer finds in it: the hello, after an acknowledgement of packet 0 if that was received.\<close>

definition hello_packet :: "bytes_api \<Rightarrow> bool \<Rightarrow> bytes \<Rightarrow> bool" where
  "hello_packet B acking packet \<longleftrightarrow> (\<exists>payload fs.
     (\<forall>len. header_decode B packet len SUPPORTED_VERSIONS = Ok (first_header, payload)) \<and>
     payload_of B (fs @ [Crypto (hello_frame B)]) payload \<and>
     (if acking then \<exists>a. fs = [Ack a] \<and> ack_largest a = 0 \<and> ack_ranges B a = (Ok [(0, 0)] :: (_, transport_error) outcome)
      else fs = []))"

lemma hello_populate:
  assumes "bytes_crate B" "hello (ps_pending (cn_spaces c SInitial))"
    "pa_ranges (ps_pending_acks (cn_spaces c SInitial)) = (if acking then [(0, 1)] else [])" "16 \<le> w_left w"
  shows "\<exists>payload n fs. populate_packet B now SInitial c w =
      (Ok (upd_space SInitial (\<lambda>s. s\<lparr>ps_pending := (ps_pending s)\<lparr>hello := False\<rparr>, hi := True\<rparr>) c,
        \<lparr>fr_retransmits = Some (retransmits_default\<lparr>hello := True\<rparr>),
         fr_largest_acked = ars_max (pa_ranges (ps_pending_acks (cn_spaces c SInitial))), fr_stream_frames = []\<rparr>,
        w\<lparr>w_bytes := w_bytes w @ payload, w_left := n\<rparr>) :: (_, 'e) outcome) \<and>
    payload_of B (fs @ [Crypto (hello_frame B)]) payload \<and>
    (if acking then \<exists>a. fs = [Ack a] \<and> ack_largest a = 0 \<and> ack_ranges B a = (Ok [(0, 0)] :: (_, transport_error) outcome)
     else fs = [])"
proof (cases acking)
  case False
  obtain bs where bs: "put_hello B w = (Ok (w\<lparr>w_bytes := w_bytes w @ bs, w_left := w_left w - 4\<rparr>) :: (_, 'e) outcome)"
    "frame_bytes B bs (Crypto (hello_frame B))"
    using bytes_crate.put_hello_slice [OF assms(1), of w, where 'e = 'e] assms(4) by auto
  have "populate_packet B now SInitial c w =
      (Ok (upd_space SInitial (\<lambda>s. s\<lparr>ps_pending := (ps_pending s)\<lparr>hello := False\<rparr>, hi := True\<rparr>) c,
        \<lparr>fr_retransmits = Some (retransmits_default\<lparr>hello := True\<rparr>), fr_largest_acked = None, fr_stream_frames = []\<rparr>,
        w\<lparr>w_bytes := w_bytes w @ bs, w_left := w_left w - 4\<rparr>) :: (_, 'e) outcome)"
    using assms(2,3) False by (simp add: populate_packet_def bs(1) ars_is_empty_def sent_frames_default_def thin_update_def)
  then show ?thesis
    using False assms(3) bs(2)
    by (intro exI [of _ bs] exI [of _ "w_left w - 4"] exI [of _ "[]"]) (simp add: ars_max_def)
next
  case True
  define acks where "acks = ps_pending_acks (cn_spaces c SInitial)"
  define delay where "delay = drop_bit ACK_DELAY_EXP ((pa_ack_delay acks now div 1000) mod 2 ^ 64)"
  have delay: "delay < 2 ^ 61"
    by (simp add: delay_def ACK_DELAY_EXP_def drop_bit_eq_div less_mult_imp_div_less)
  obtain ab a where ab: "length ab \<le> 12" "frame_bytes B ab (Ack a)" "ack_largest a = 0"
    "ack_ranges B a = (Ok [(0, 0)] :: (_, transport_error) outcome)"
    "ack_encode B delay [(0, 1)] None w = (Ok (w\<lparr>w_bytes := w_bytes w @ ab, w_left := w_left w - length ab\<rparr>) :: (_, 'e) outcome)"
    using bytes_crate.ack_zero_slice [OF assms(1) delay, of w, where 'e = 'e] assms(4) by auto
  define w1 where "w1 = w\<lparr>w_bytes := w_bytes w @ ab, w_left := w_left w - length ab\<rparr>"
  have left: "4 \<le> w_left w1" using assms(4) ab(1) by (simp add: w1_def)
  obtain bs where bs: "put_hello B w1 = (Ok (w1\<lparr>w_bytes := w_bytes w1 @ bs, w_left := w_left w1 - 4\<rparr>) :: (_, 'e) outcome)"
    "frame_bytes B bs (Crypto (hello_frame B))"
    using bytes_crate.put_hello_slice [OF assms(1), of w1, where 'e = 'e] left by auto
  have "populate_acks B now sent_frames_default (cn_spaces c SInitial) w =
      (Ok (sent_frames_default\<lparr>fr_largest_acked := ars_max [(0, 1)]\<rparr>, w1) :: (_, 'e) outcome)"
    unfolding populate_acks_def Let_def acks_def [symmetric] delay_def [symmetric]
    using ab(5) assms(3) True by (simp add: w1_def flip: acks_def)
  then have "populate_packet B now SInitial c w =
      (Ok (upd_space SInitial (\<lambda>s. s\<lparr>ps_pending := (ps_pending s)\<lparr>hello := False\<rparr>, hi := True\<rparr>) c,
        \<lparr>fr_retransmits = Some (retransmits_default\<lparr>hello := True\<rparr>), fr_largest_acked = ars_max [(0, 1)], fr_stream_frames = []\<rparr>,
        w1\<lparr>w_bytes := w_bytes w1 @ bs, w_left := w_left w1 - 4\<rparr>) :: (_, 'e) outcome)"
    using assms(2,3) True by (simp add: populate_packet_def bs(1) ars_is_empty_def sent_frames_default_def thin_update_def)
  then show ?thesis
    using True assms(3) bs(2) ab(2-4)
    by (intro exI [of _ "ab @ bs"] exI [of _ "w_left w1 - 4"] exI [of _ "[Ack a]"]) (auto simp: w1_def)
qed

lemma hello_build:
  assumes "bytes_crate B" "hello (ps_pending (cn_spaces c SInitial))" "next_packet_number (cn_spaces c SInitial) = 0"
    "largest_acked_packet (cn_spaces c SInitial) = None"
    "pa_ranges (ps_pending_acks (cn_spaces c SInitial)) = (if acking then [(0, 1)] else [])"
  shows "\<exists>packet n. build_packet B now False True SInitial c = (Ok (hello_sent now packet n c) :: (_, 'e) outcome) \<and>
    n \<le> INITIAL_MTU \<and> hello_packet B acking packet"
proof -
  obtain hb where hb:
    "header_encode B first_header \<lparr>w_bytes = [], w_left = INITIAL_MTU\<rparr> = (Ok \<lparr>w_bytes = hb, w_left = 1422\<rparr> :: (_, 'e) outcome)"
    "\<And>len payload. header_decode B (hb @ payload) len SUPPORTED_VERSIONS = Ok (first_header, payload)"
    using bytes_crate.first_header_encode [OF assms(1), where 'e = 'e] by blast
  define s where "s = (cn_spaces c SInitial)\<lparr>next_packet_number := 1\<rparr>"
  define c1 where "c1 = upd_space SInitial (\<lambda>_. s) c"
  have tx: "get_tx_number (cn_spaces c SInitial) = (Ok (s, 0) :: (_, 'e) outcome)"
    using assms(3) by (simp add: get_tx_number_def s_def add64_def)
  have pn: "pn_new 0 0 = (Ok (U8 0) :: (_, 'e) outcome)" by (simp add: pn_new_def sub64_def mul64_def)
  have acked: "largest_acked_packet s = None" using assms(4) by (simp add: s_def)
  have "hello (ps_pending (cn_spaces c1 SInitial))" "ps_pending_acks (cn_spaces c1 SInitial) = ps_pending_acks (cn_spaces c SInitial)"
    using assms(2) by (simp_all add: c1_def s_def)
  from hello_populate [OF assms(1) this(1), unfolded this(2), OF assms(5), of "\<lparr>w_bytes = hb, w_left = 1422\<rparr>" now, where 'e = 'e]
  obtain payload n fs where p: "populate_packet B now SInitial c1 \<lparr>w_bytes = hb, w_left = 1422\<rparr> =
      (Ok (upd_space SInitial (\<lambda>s. s\<lparr>ps_pending := (ps_pending s)\<lparr>hello := False\<rparr>, hi := True\<rparr>) c1,
        \<lparr>fr_retransmits = Some (retransmits_default\<lparr>hello := True\<rparr>),
         fr_largest_acked = ars_max (pa_ranges (ps_pending_acks (cn_spaces c SInitial))), fr_stream_frames = []\<rparr>,
        \<lparr>w_bytes = hb @ payload, w_left = n\<rparr>) :: (_, 'e) outcome)"
    "payload_of B (fs @ [Crypto (hello_frame B)]) payload"
    "if acking then \<exists>a. fs = [Ack a] \<and> ack_largest a = 0 \<and> ack_ranges B a = (Ok [(0, 0)] :: (_, transport_error) outcome) else fs = []"
    by auto
  have "build_packet B now False True SInitial c =
      (Ok (hello_sent now (hb @ payload) ((INITIAL_MTU - n) mod 2 ^ 16) c) :: (_, 'e) outcome)"
    unfolding build_packet_def tx bindO.simps prod.case Let_def acked option.case pn fake_cid hb(1) c1_def [symmetric] if_False p(1)
    by (simp add: hello_sent_def Let_def c1_def s_def upd_space_def upd_acks_def stop_timer_def)
  moreover have "hello_packet B acking (hb @ payload)"
    unfolding hello_packet_def using p(2,3) hb(2) by blast
  moreover have "(INITIAL_MTU - n) mod 2 ^ 16 \<le> INITIAL_MTU" by (simp add: INITIAL_MTU_def)
  ultimately show ?thesis by blast
qed

section \<open>Polling for the hello\<close>

definition idle_space :: "connection \<Rightarrow> space_id \<Rightarrow> bool" where
  "idle_space c k \<longleftrightarrow> sendable_is_empty (space_can_send c k)"

definition hello_due :: "bool \<Rightarrow> connection \<Rightarrow> bool" where
  "hello_due acking c \<longleftrightarrow> \<not> is_closed (cn_state c) \<and> idle_space c SHandshake \<and> idle_space c SData \<and>
     if_bytes (np_in_flight (cn_path c)) < nr_window (congestion (cn_path c)) \<and>
     (let s = cn_spaces c SInitial in
      ps_pending s = retransmits_default\<lparr>hello := True\<rparr> \<and> next_packet_number s = 0 \<and> largest_acked_packet s = None \<and>
      \<not> ping_pending s \<and> \<not> immediate_ack_pending s \<and>
      pa_ranges (ps_pending_acks s) = (if acking then [(0, 1)] else []))"

lemma hello_sent_fields [simp]:
  "cn_state (hello_sent now packet n c) = cn_state c" "cn_side (hello_sent now packet n c) = cn_side c"
  "cn_streams (hello_sent now packet n c) = cn_streams c" "highest_space (hello_sent now packet n c) = highest_space c"
  by (simp_all add: hello_sent_def Let_def stop_timer_def upd_acks_def upd_space_def)

lemma hello_poll:
  assumes "bytes_crate B" "hello_due acking c"
  shows "\<exists>packet n l. poll_transmit B now c = (Ok ((hello_sent now packet n c)\<lparr>app_limited := l\<rparr>, False) :: (_, 'e) outcome) \<and>
    n \<le> INITIAL_MTU \<and> hello_packet B acking packet"
proof -
  note due = assms(2) [unfolded hello_due_def Let_def idle_space_def]
  obtain packet n where b: "build_packet B now False True SInitial c = (Ok (hello_sent now packet n c) :: (_, 'e) outcome)"
    "n \<le> INITIAL_MTU" "hello_packet B acking packet"
    using hello_build [OF assms(1), of c acking now, where 'e = 'e] due by auto
  define d where "d = hello_sent now packet n c"
  have can: "sd_other (space_can_send c SInitial)"
    using due by (simp add: space_can_send_def ps_can_send_def retransmits_is_empty_def)
  have idle: "sendable_is_empty (space_can_send d SHandshake)" "sendable_is_empty (space_can_send d SData)"
    using due by (auto simp: d_def hello_sent_def Let_def space_can_send_def stop_timer_def upd_acks_def upd_space_def)
  have "sendable_is_empty (space_can_send d SInitial)"
    using due
    by (auto simp: d_def hello_sent_def Let_def space_can_send_def ps_can_send_def stop_timer_def upd_acks_def upd_space_def
        sendable_is_empty_def acks_can_send_def acks_sent_def ars_is_empty_def ars_max_def retransmits_is_empty_def retransmits_default_def)
  then have more: "\<not> list_ex (\<lambda>sid. \<not> sendable_is_empty (space_can_send d sid)) space_variants"
    by (simp add: space_variants_def idle)
  have "poll_space B now False False SInitial (c, False) = (Ok (d, True) :: (_, 'e) outcome)"
    using can b(1) by (simp add: poll_space_def sendable_is_empty_def d_def)
  moreover have "poll_space B now False False SHandshake (d, True) = (Ok (d, True) :: (_, 'e) outcome)"
    "poll_space B now False False SData (d, True) = (Ok (d, True) :: (_, 'e) outcome)"
    by (simp_all add: poll_space_def idle)
  ultimately have "\<exists>l. poll_transmit B now c = (Ok (d\<lparr>app_limited := l\<rparr>, False) :: (_, 'e) outcome)"
    using due more by (cases "cn_state c") (auto simp: poll_transmit_unfold Let_def not_le)
  then show ?thesis using b(2,3) unfolding d_def by blast
qed

lemma client_due: "hello_due False (conn_new Client created)"
  by (simp add: hello_due_def Let_def conn_new_def upd_space_def idle_space_def space_can_send_def ps_can_send_def sendable_is_empty_def
      packet_space_new_def acks_can_send_def pending_acks_new_def retransmits_is_empty_def retransmits_default_def can_send_stream_data_def
      streams_new_def pending_queue_new_def pq_iter_def path_new_def reno_new_def in_flight_default_def INITIAL_MTU_def)

end
