(* ===== verification/Packet_Sent.thy ===== *)
theory Packet_Sent
  imports Hello_Packet
begin

text \<open>
  From one connection to the other: a packet that \<open>poll_transmit\<close> builds is decoded by
  \<open>handle_data\<close> of the peer, which finds the space it was built for and recovers its full packet
  number, as long as the peer has received what it acknowledged and is not far ahead.
\<close>

section \<open>Acknowledged numbers were sent\<close>

definition acked_ok :: "packet_space \<Rightarrow> bool" where
  "acked_ok s \<longleftrightarrow> (\<forall>n. largest_acked_packet s = Some n \<longrightarrow> n < next_packet_number s)"

definition acked_below :: "connection \<Rightarrow> bool" where
  "acked_below c \<longleftrightarrow> (\<forall>k. acked_ok (cn_spaces c k))"

lemma acked_below_spaces: "acked_below c \<Longrightarrow> cn_spaces c' = cn_spaces c \<Longrightarrow> acked_below c'"
  by (simp add: acked_below_def)

lemma acked_below_upd [simp]:
  "acked_below (c\<lparr>cn_streams := st\<rparr>) = acked_below c" "acked_below (c\<lparr>cn_path := p\<rparr>) = acked_below c"
  "acked_below (c\<lparr>cn_state := x\<rparr>) = acked_below c" "acked_below (c\<lparr>cn_timers := tt\<rparr>) = acked_below c"
  "acked_below (c\<lparr>app_limited := l\<rparr>) = acked_below c" "acked_below (c\<lparr>pending_close := l\<rparr>) = acked_below c"
  "acked_below (c\<lparr>highest_space := h\<rparr>) = acked_below c"
  "acked_below (set_timer t i c) = acked_below c" "acked_below (stop_timer t c) = acked_below c"
  "acked_below (emit ev c) = acked_below c" "acked_below (set_loss_detection_timer c) = acked_below c"
  "acked_below (close_common c) = acked_below c" "acked_below (kill e c) = acked_below c"
  "acked_below (conn_error e c) = acked_below c" "acked_below (set_close_timer now c) = acked_below c"
  by (simp_all add: acked_below_def kill_def conn_error_def set_close_timer_def)

lemma acked_below_space:
  "acked_below c \<Longrightarrow> (acked_ok (cn_spaces c sid) \<Longrightarrow> acked_ok (f (cn_spaces c sid))) \<Longrightarrow> acked_below (upd_space sid f c)"
  by (simp add: acked_below_def)

lemma acked_ok_upd [simp]:
  "acked_ok (s\<lparr>loss_time := t\<rparr>) = acked_ok s" "acked_ok (s\<lparr>ps_pending := p\<rparr>) = acked_ok s" "acked_ok (s\<lparr>hi := b\<rparr>) = acked_ok s"
  "acked_ok (s\<lparr>ps_pending_acks := a\<rparr>) = acked_ok s" "acked_ok (s\<lparr>ps_dedup := d\<rparr>) = acked_ok s" "acked_ok (s\<lparr>rx_packet := n\<rparr>) = acked_ok s"
  "acked_ok (s\<lparr>ping_pending := b\<rparr>) = acked_ok s" "acked_ok (s\<lparr>ps_in_flight := i\<rparr>) = acked_ok s" "acked_ok (s\<lparr>sent_packets := ps\<rparr>) = acked_ok s"
  "acked_ok (fst (ps_take s n)) = acked_ok s" "acked_ok (fst (ps_sent s m)) = acked_ok s"
  by (simp_all add: acked_ok_def ps_take_def ps_sent_def Let_def split: option.split)

lemma acked_below_acks [simp]: "acked_below (upd_acks sid f c) = acked_below c"
  by (auto simp: acked_below_def)

lemma acked_below_lose: "acked_below c \<Longrightarrow> acked_below (lose_packet now sid c np)"
  by (auto simp: lose_packet_def Let_def intro!: acked_below_space split: prod.split)

lemma acked_below_loses: "acked_below c \<Longrightarrow> acked_below (foldl (lose_packet now sid) c nps)"
  by (induction nps arbitrary: c) (auto intro: acked_below_lose)

lemma acked_below_detect: "acked_below c \<Longrightarrow> acked_below (detect_lost_packets now sid c)"
  by (auto simp: detect_lost_packets_def Let_def intro!: acked_below_loses acked_below_space split: option.split)

lemma acked_below_ack: "acked_below c \<Longrightarrow> acked_below (fst (ack_packet sid (c, l) n))"
proof -
  assume c: "acked_below c"
  have "acked_below (upd_space sid (\<lambda>_. s) c)" if "ps_take (cn_spaces c sid) n = (s, p)" for s p
    using acked_ok_upd(10) [of "cn_spaces c sid" n] that by (intro acked_below_space c) simp
  then show ?thesis by (auto simp: ack_packet_def Let_def c split: prod.split option.split)
qed

lemma acked_below_acks_fold: "acked_below c \<Longrightarrow> acked_below (fst (foldl (ack_packet sid) (c, l) ns))"
proof (induction ns arbitrary: c l)
  case (Cons n ns)
  then show ?case using acked_below_ack [of c sid l n] by (cases "ack_packet sid (c, l) n") simp
qed simp

lemma acked_below_on_ack: "acked_below c \<Longrightarrow> acked_below (fst (on_ack_received B now sid a c))"
proof -
  assume c: "acked_below c"
  have d: "acked_below d" "next_packet_number (cn_spaces d sid) = next_packet_number (cn_spaces c sid)"
    if "foldl (ack_packet sid) (c, None) ns = (d, l)" for ns d l
    using acked_below_acks_fold [OF c, of sid None ns] calm_ack_packets [OF calm_refl, of c sid None ns] that
    by (simp_all add: calm_def)
  have upd: "acked_below (upd_space sid (\<lambda>s. s\<lparr>largest_acked_packet := Some (case largest_acked_packet s of None \<Rightarrow> ack_largest a
        | Some prev \<Rightarrow> max prev (ack_largest a)), largest_acked_packet_sent := now\<rparr>) d)"
    if "foldl (ack_packet sid) (c, None) ns = (d, l)" "ack_largest a < next_packet_number (cn_spaces c sid)" for ns d l
    using d [OF that(1)] that(2) by (intro acked_below_space) (auto simp: acked_ok_def split: option.split)
  show ?thesis
    by (auto simp: on_ack_received_def Let_def c intro: d intro!: acked_below_detect upd split: outcome.split prod.split option.split)
qed

lemma acked_below_process: "acked_below c \<Longrightarrow> acked_below (fst (process_packet B now num h payload c))"
proof (rule process_packet_keeps [where J = acked_below], goal_cases)
  case (1 sid f c)
  then show ?case
    using acked_below_on_ack [of c B now sid]
    by (cases f) (auto simp: early_frame_def Let_def case_prod_unfold intro!: acked_below_space)
next
  case (2 sid len f c)
  then show ?case
    using acked_below_on_ack [of c B now sid] by (cases f) (auto simp: data_frame_def Let_def case_prod_unfold)
qed

lemma acked_below_discard: "acked_below c \<Longrightarrow> acked_below (discard_space sid c)"
  by (auto simp: acked_below_def)

lemma acked_below_authenticated: "acked_below c \<Longrightarrow> acked_below (on_packet_authenticated now sid num c)"
proof (cases num)
  case (Some n)
  assume c: "acked_below c"
  define d where "d = (if cn_side c = Server \<and> hi (cn_spaces c SInitial) \<and> sid = SHandshake then discard_space SInitial c else c)"
  have "acked_below d" using c by (simp add: d_def acked_below_discard)
  then show ?thesis
    unfolding on_packet_authenticated_def Some option.case Let_def d_def [symmetric]
    by (auto simp: case_prod_unfold intro!: acked_below_space)
qed (simp add: on_packet_authenticated_def)

text \<open>Filling a packet leaves the numbers alone.\<close>

definition numbers :: "connection \<Rightarrow> space_id \<Rightarrow> nat option \<times> nat" where
  "numbers c k = (largest_acked_packet (cn_spaces c k), next_packet_number (cn_spaces c k))"

lemma numbers_acked: "numbers c' = numbers c \<Longrightarrow> acked_below c' = acked_below c"
  by (simp add: acked_below_def acked_ok_def numbers_def fun_eq_iff)

lemma numbers_upd [simp]:
  "numbers (c\<lparr>cn_streams := st\<rparr>) = numbers c" "numbers (c\<lparr>cn_path := p\<rparr>) = numbers c"
  "numbers (c\<lparr>pending_close := l\<rparr>) = numbers c" "numbers (c\<lparr>app_limited := l\<rparr>) = numbers c"
  "numbers (stop_timer t c) = numbers c" "numbers (upd_acks sid f c) = numbers c"
  "numbers (discard_space sid c) = numbers c"
  by (auto simp: numbers_def fun_eq_iff)

lemma numbers_space:
  "largest_acked_packet (f (cn_spaces c sid)) = largest_acked_packet (cn_spaces c sid) \<Longrightarrow>
   next_packet_number (f (cn_spaces c sid)) = next_packet_number (cn_spaces c sid) \<Longrightarrow> numbers (upd_space sid f c) = numbers c"
  by (auto simp: numbers_def fun_eq_iff)

section \<open>What the peer makes of a packet\<close>

definition largest_acked_or_0 :: "packet_space \<Rightarrow> nat" where
  "largest_acked_or_0 s = (case largest_acked_packet s of None \<Rightarrow> 0 | Some n \<Rightarrow> n)"

text \<open>
  The packet has a header of its space; its number is recovered by a receiver that expects a
  number from \<open>low\<close> on and not more than 127 above it.
\<close>

definition decodes :: "bytes_api \<Rightarrow> nat \<Rightarrow> scheduled_packet \<Rightarrow> bool" where
  "decodes B low q \<longleftrightarrow> (\<exists>h payload pn.
     header_decode B (sch_packet q) (length FAKE_CID) SUPPORTED_VERSIONS = Ok (h, payload) \<and>
     header_space h = sp_space_id (sch_meta q) \<and> is_1rtt h = (sp_space_id (sch_meta q) = SData) \<and> header_number h = Some pn \<and>
     (\<forall>expected. low \<le> expected \<longrightarrow> expected < sp_number (sch_meta q) + 128 \<longrightarrow> pn_expand pn expected = sp_number (sch_meta q)))"

lemma packet_header_norm:
  "header_space (header_norm (packet_header sid cid num)) = sid"
  "is_1rtt (header_norm (packet_header sid cid num)) = (sid = SData)"
  "header_number (header_norm (packet_header sid cid num)) = Some (pn_norm num)"
  by (cases sid; simp add: packet_header_def)+

lemma packet_header_ok:
  "cid_new FAKE_CID = Ok cid \<Longrightarrow> header_ok (length FAKE_CID) SUPPORTED_VERSIONS (packet_header sid cid num)"
  using cid_new_wf [of FAKE_CID cid]
  by (cases sid) (auto simp: packet_header_def SUPPORTED_VERSIONS_def FAKE_CID_def cid_new_def split: if_splits)

lemma header_decodes:
  assumes "bytes_crate B" "cid_new FAKE_CID = (Ok cid :: (_, 'e) outcome)" "pn_new n low = (Ok num :: (_, 'e) outcome)"
    "low \<le> n" "n < 2 ^ 62" "header_encode B (packet_header sid cid num) \<lparr>w_bytes = [], w_left = l\<rparr> = (Ok w :: (_, 'e) outcome)"
    "starts (w_bytes w) w'" "sch_packet q = w_bytes w'" "sp_space_id (sch_meta q) = sid" "sp_number (sch_meta q) = n"
  shows "decodes B low q"
proof -
  obtain rest where rest: "w_bytes w' = w_bytes w @ rest" using assms(7) by (auto simp: starts_def)
  have "header_ok (length FAKE_CID) SUPPORTED_VERSIONS (packet_header sid cid num)"
    using packet_header_ok [where sid = sid and num = num] assms(2) by blast
  from bytes_crate.header_decode_encode [OF assms(1) this assms(6)]
  have "header_decode B (sch_packet q) (length FAKE_CID) SUPPORTED_VERSIONS = Ok (header_norm (packet_header sid cid num), rest)"
    by (auto simp: assms(8) rest)
  then show ?thesis
    unfolding decodes_def using pn_new_expand [OF assms(3-5)] assms(9,10) packet_header_norm by metis
qed

lemma starts_refl: "starts (w_bytes w) w"
  by (auto simp: starts_def)

lemma starts_populate_acks: "starts bs w \<Longrightarrow> post (populate_acks B now sent s w) (\<lambda>(sent', w'). starts bs w')"
  unfolding populate_acks_def Let_def by (rule post_bind [OF starts.keeps_frame_encode(1)]) (auto intro!: post_Ok)

lemma starts_populate:
  assumes "starts bs w"
  shows "post (populate_packet B now sid c w)
    (\<lambda>(c', sent, w'). starts bs w' \<and> numbers c' = numbers c \<and> cn_path c' = cn_path c)"
  unfolding populate_packet_def
  apply (rule post_bind [where Q = "\<lambda>(sent, w). starts bs w"])
   apply (rule post_if, rule starts_populate_acks [OF assms], simp add: post_Ok assms)
  apply clarify
  apply (rule post_bind [where Q = "\<lambda>(c', sent, w). starts bs w \<and> numbers c' = numbers c \<and> cn_path c' = cn_path c"])
   apply (auto simp: numbers_space intro!: post_Ok post_bind [OF starts.keeps_frame_encode(5)])[1]
  apply clarify
  apply (rule post_bind [where Q = "\<lambda>(c', w). starts bs w \<and> numbers c' = numbers c \<and> cn_path c' = cn_path c"])
   apply (auto simp: numbers_space intro!: post_Ok post_bind [OF starts.keeps_put(2)])[1]
  apply (auto intro!: post_Ok post_bind [OF starts.keeps_write_control_frames] post_bind [OF starts.keeps_write_stream_frames]
      simp: Let_def numbers_space)
  done

text \<open>One packet more in the queue, which the peer can decode.\<close>

definition sent_more :: "bytes_api \<Rightarrow> connection \<Rightarrow> connection \<Rightarrow> bool" where
  "sent_more B c c' \<longleftrightarrow> acked_below c' \<and>
     (\<forall>k. largest_acked_packet (cn_spaces c' k) = largest_acked_packet (cn_spaces c k)) \<and>
     (\<exists>qs. sending_queue (cn_path c') = sending_queue (cn_path c) @ qs \<and>
        (\<forall>q\<in>set qs. decodes B (largest_acked_or_0 (cn_spaces c (sp_space_id (sch_meta q)))) q))"

lemma sent_more_refl: "acked_below c \<Longrightarrow> numbers c' = numbers c \<Longrightarrow>
    sending_queue (cn_path c') = sending_queue (cn_path c) \<Longrightarrow> sent_more B c c'"
  using numbers_acked [of c' c] by (simp add: sent_more_def numbers_def fun_eq_iff)

lemma sent_more_trans: "sent_more B c d \<Longrightarrow> sent_more B d e \<Longrightarrow> sent_more B c e"
  by (fastforce simp: sent_more_def largest_acked_or_0_def)

lemma build_packet_sent_more:
  assumes "bytes_crate B" "acked_below c"
  shows "post (build_packet B now close ae sid c :: (_, 'e) outcome) (sent_more B c)"
  unfolding build_packet_def
proof (rule post_bind [where Q = "\<lambda>x. get_tx_number (cn_spaces c sid) = (Ok x :: (_, 'e) outcome)"], goal_cases)
  case (2 x)
  then obtain s n where x: "x = (s, n)" "get_tx_number (cn_spaces c sid) = (Ok (s, n) :: (_, 'e) outcome)" by (cases x) auto
  define low where "low = largest_acked_or_0 (cn_spaces c sid)"
  have n: "n = next_packet_number (cn_spaces c sid)" "n < 2 ^ 62" "s = (cn_spaces c sid)\<lparr>next_packet_number := Suc n\<rparr>"
    using x(2) by (auto simp: get_tx_number_def add64_small split: if_splits)
  have low: "low \<le> n" "(case largest_acked_packet s of None \<Rightarrow> 0 | Some n \<Rightarrow> n) = low"
    using assms(2) n by (auto simp: low_def largest_acked_or_0_def acked_below_def acked_ok_def less_imp_le split: option.split)
  define c1 where "c1 = upd_space sid (\<lambda>_. s) c"
  have c1: "acked_below c1" "\<And>k. largest_acked_packet (cn_spaces c1 k) = largest_acked_packet (cn_spaces c k)" "cn_path c1 = cn_path c"
    using assms(2) n by (auto simp: c1_def acked_below_def acked_ok_def intro: less_SucI)
  have finish: "sent_more B c (d\<lparr>cn_path := (cn_path d)\<lparr>sending_queue := sending_queue (cn_path d) @ [q]\<rparr>\<rparr>)"
    if "numbers d = numbers c1" "cn_path d = cn_path c" "decodes B low q" "sp_space_id (sch_meta q) = sid" for d q
    using that c1 numbers_acked [OF that(1)] by (simp add: sent_more_def numbers_def fun_eq_iff low_def)
  show ?case
    unfolding x(1) prod.case Let_def c1_def [symmetric] low(2)
    apply (rule post_bind [where Q = "\<lambda>num. pn_new n low = (Ok num :: (_, 'e) outcome)"], simp add: post_def)
    apply (rule post_bind [where Q = "\<lambda>cid. cid_new FAKE_CID = (Ok cid :: (_, 'e) outcome)"], simp add: post_def)
    subgoal for num cid
      apply (rule post_bind [where Q = "\<lambda>w. header_encode B (packet_header sid cid num) \<lparr>w_bytes = [], w_left = INITIAL_MTU\<rparr> =
        (Ok w :: (_, 'e) outcome)"], simp add: post_def)
      subgoal for w
        apply (rule post_bind [where Q = "\<lambda>(d, sent, w'). starts (w_bytes w) w' \<and> numbers d = numbers c1 \<and> cn_path d = cn_path c1"])
         apply (rule post_if)
          apply (rule post_bind [where Q = "starts (w_bytes w)"])
           apply (rule post_if)
            apply (rule post_bind [OF starts_populate_acks [OF starts_refl]])
            apply (auto intro!: post_Ok starts_refl)[3]
         apply (rule starts_populate [OF starts_refl])
        apply clarify
        apply (rule post_Ok, rule finish)
           apply (auto simp: c1(3))[2]
         apply (rule header_decodes [OF assms(1) _ _ low(1) n(2)])
               apply (auto simp: c1(3))
        done
      done
    done
qed (simp add: post_def)

lemma poll_transmit_sent_more:
  assumes "bytes_crate B" "acked_below c"
  shows "post (poll_transmit B now c :: (_, 'e) outcome) (\<lambda>(c', again). sent_more B c c')"
proof -
  define Q where "Q = (\<lambda>(c' :: connection, sent :: bool). sent_more B c c')"
  have turn: "post (poll_space B now close blocked sid cs :: (_, 'e) outcome) Q" if "Q cs" for close blocked sid cs
  proof -
    obtain d sent where cs: "cs = (d, sent)" "sent_more B c d" using \<open>Q cs\<close> by (cases cs) (auto simp: Q_def)
    then have d: "acked_below d" by (simp add: sent_more_def)
    have same: "sent_more B c e" if "numbers e = numbers d" "sending_queue (cn_path e) = sending_queue (cn_path d)" for e
      using sent_more_trans [OF cs(2) sent_more_refl [OF d that]] .
    have "post (bindO (build_packet B now close ae sid e) (\<lambda>c. Ok (c, True)) :: (_, 'e) outcome) Q"
      if "sent_more B c e" for ae e
    proof (rule post_bind [OF build_packet_sent_more [OF assms(1)]])
      show "acked_below e" using that by (simp add: sent_more_def)
      show "post (Ok (f, True)) Q" if "sent_more B e f" for f
        using sent_more_trans [OF \<open>sent_more B c e\<close> that] by (simp add: post_Ok Q_def)
    qed
    then show ?thesis using cs(2) same
      unfolding poll_space_def cs(1) prod.case Let_def by (auto intro!: post_Ok simp: Q_def discard_space_queue)
  qed
  have Q: "Q (c, False)" using sent_more_refl [OF assms(2) refl refl] by (simp add: Q_def)
  have limited: "sent_more B c (d\<lparr>app_limited := l\<rparr>) = sent_more B c d" for d l by (simp add: sent_more_def)
  have c: "sent_more B c c" using Q by (simp add: Q_def)
  show ?thesis
    unfolding poll_transmit_unfold Let_def
    apply (rule post_if, simp add: post_Ok c)
    apply (rule post_if, simp add: post_Ok c)
    apply (rule post_bind [OF turn [OF Q]])
    apply (erule post_bind [OF turn])
    apply (erule post_bind [OF turn])
    apply (auto simp: Q_def limited intro!: post_Ok)
    done
qed

section \<open>Reachable connections\<close>

lemma acked_below_step:
  assumes "conn_step B c c'" "bytes_crate B" "acked_below c"
  shows "acked_below c'"
  using assms
proof (induction rule: conn_step.induct)
  case (poll c now c' again)
  then show ?case using poll_transmit_sent_more [of B c now, where 'e = unit] by (simp add: post_def sent_more_def)
next
  case (send c sent_at c' r)
  have "cn_spaces c' = cn_spaces c \<or> (\<exists>m. cn_spaces c' = (cn_spaces c)(sp_space_id m := fst (ps_sent (cn_spaces c (sp_space_id m)) m)))"
  proof (cases "sending_queue (cn_path c)")
    case (Cons q qs)
    then show ?thesis
      using send(2) by (cases sent_at) (auto simp: send_next_def send_one_def bindO_eq_Ok Let_def case_prod_unfold
          intro!: disjI2 exI [of _ "(sch_meta q)\<lparr>time_sent := the sent_at\<rparr>"] split: if_splits)
  qed (use send(2) in \<open>simp add: send_next_def send_one_def\<close>)
  then show ?case using send(4) by (auto simp: acked_below_def)
next
  case (event c ev evs)
  then show ?case by simp
next
  case (app c a c')
  have "post (app_exec a c) (\<lambda>c'. acked_below c')"
  proof (cases a)
    case (AppOpen d)
    then show ?thesis using app by (auto simp: conn_open_stream_def post_def bindO_eq_Ok split: if_splits prod.splits)
  next
    case (AppWrite sid data)
    then show ?thesis using app by (auto simp: conn_write_def post_def bindO_eq_Ok split: if_splits prod.splits)
  next
    case (AppFinish sid)
    then show ?thesis using app by (auto simp: conn_finish_def or_else_def post_def bindO_eq_Ok split: if_splits outcome.splits)
  qed (use app in \<open>auto simp: conn_close_def with_streams_def with_pending_def or_else_def post_def bindO_eq_Ok set_data_pending_def
      intro!: acked_below_space split: if_splits outcome.splits\<close>)
  then show ?case using app(2) by (simp add: post_def)
next
  case (timeout c now tt t)
  have fold: "acked_below (foldl (\<lambda>c sid. if ps_in_flight (cn_spaces c sid) > 0 then detect_lost_packets now sid c else c) d sids)"
    if "acked_below d" for d sids
    using that by (induction sids arbitrary: d) (auto simp: acked_below_detect)
  show ?case
    using timeout by (cases t) (auto simp: handle_timeout_def on_loss_detection_timeout_def fold acked_below_detect split: option.split)
next
  case (data c now data c')
  show ?case
    using data(2)
  proof (cases rule: handle_data_cases)
    case (1 sid num d h payload c0)
    have c0: "acked_below c0" using data 1(1) by (auto intro: acked_below_space)
    define c1 where "c1 = (if \<not> is_closed (cn_state c) then on_packet_authenticated now sid num c0 else c0)"
    obtain e r where e: "process_packet B now num h payload c1 = (e, r)" by force
    have "acked_below c1" using c0 by (simp add: c1_def acked_below_authenticated)
    then have "acked_below e" using acked_below_process [of c1 B now num h payload] e by simp
    then show ?thesis using 1(2) c0 settle_Ok(1) acked_below_spaces unfolding c1_def [symmetric] e by blast
  qed
qed

lemma reach_acked_below:
  assumes "bytes_crate B" "conn_reach B c"
  shows "acked_below c"
  using assms(2)
proof (induction rule: conn_reach.induct)
  case (new s now)
  then show ?case by (auto simp: conn_new_def Let_def acked_below_def acked_ok_def packet_space_new_def)
next
  case (first now ih payload created c)
  have "acked_below (conn_new Server created)" by (auto simp: conn_new_def Let_def acked_below_def acked_ok_def packet_space_new_def)
  then show ?case by (subst first_packet_good(2) [OF first]) (intro acked_below_process acked_below_authenticated)
next
  case (step c c')
  then show ?case using acked_below_step assms(1) by blast
qed

section \<open>Properties\<close>

text \<open>
  C6. Packets reach the peer under their number: a packet that \<open>poll_transmit\<close> of a reachable connection puts into the
  queue is decoded by \<open>handle_data\<close> of the peer as a packet of the space and with the full packet number it was built
  with, and is handed to \<open>process_packet\<close> under that number unless it is a duplicate or 1-RTT data comes before the
  handshake; the peer has to have received what it acknowledged in that space, and nothing more than 126 packets ahead.
\<close>

theorem packet_reaches_peer:
  assumes sid: "sp_space_id (sch_meta q) = sid" and n: "sp_number (sch_meta q) = n"
    and "bytes_crate B" "conn_reach B c" "poll_transmit B now c = (Ok (c', again) :: (_, unit) outcome)"
    "sending_queue (cn_path c') = sending_queue (cn_path c) @ qs" "q \<in> set qs"
    "\<forall>m. largest_acked_packet (cn_spaces c sid) = Some m \<longrightarrow> m \<le> rx_packet (cn_spaces d sid)"
    "rx_packet (cn_spaces d sid) < n + 127" "rx_packet (cn_spaces d sid) < 2 ^ 62"
  shows "\<exists>h payload. header_decode B (sch_packet q) (length FAKE_CID) SUPPORTED_VERSIONS = Ok (h, payload) \<and> header_space h = sid \<and>
    handle_data B at (sch_packet q) d =
      (let (dd, duplicate) = dedup_insert (ps_dedup (cn_spaces d sid)) n;
           d0 = upd_space sid (\<lambda>s. s\<lparr>ps_dedup := dd\<rparr>) d in
       if duplicate \<or> is_handshake (cn_state d) \<and> sid = SData then Ok d0
       else settle at (is_closed (cn_state d)) (is_drained (cn_state d)) (process_packet B at (Some n) h payload
         (if \<not> is_closed (cn_state d) then on_packet_authenticated at sid (Some n) d0 else d0)))"
proof -
  have "sent_more B c c'"
    using poll_transmit_sent_more [OF assms(3) reach_acked_below [OF assms(3,4)], of now, where 'e = unit] assms(5)
    by (simp add: post_def)
  then have "decodes B (largest_acked_or_0 (cn_spaces c sid)) q"
    using assms(6,7) by (auto simp: sent_more_def simp flip: sid)
  then obtain h payload pn where h: "header_decode B (sch_packet q) (length FAKE_CID) SUPPORTED_VERSIONS = Ok (h, payload)"
    "header_space h = sid" "is_1rtt h = (sid = SData)" "header_number h = Some pn"
    "\<forall>expected. largest_acked_or_0 (cn_spaces c sid) \<le> expected \<longrightarrow> expected < n + 128 \<longrightarrow> pn_expand pn expected = n"
    by (auto simp: decodes_def sid n)
  have "add64 (rx_packet (cn_spaces d sid)) 1 = rx_packet (cn_spaces d sid) + 1" using assms(10) by (simp add: add64_small)
  moreover have "largest_acked_or_0 (cn_spaces c sid) \<le> rx_packet (cn_spaces d sid) + 1"
    using assms(8) by (auto simp: largest_acked_or_0_def split: option.split)
  ultimately have "pn_expand pn (add64 (rx_packet (cn_spaces d sid)) 1) = n" using h(5) assms(9) by simp
  then show ?thesis
    using h(1-4)
    by (intro exI [of _ h] exI [of _ payload]) (cases "sid = SData"; simp add: handle_data_def Let_def case_prod_unfold)
qed

text \<open>At the first packet of a client, received by a new server.\<close>

theorem packet_reaches_peer_witness:
  "\<exists>c' q h payload. poll_transmit std_bytes 5 (conn_new Client 0) = (Ok (c', False) :: (_, unit) outcome) \<and>
    sending_queue (cn_path c') = [q] \<and>
    header_decode std_bytes (sch_packet q) (length FAKE_CID) SUPPORTED_VERSIONS = Ok (h, payload) \<and> header_space h = SInitial \<and>
    handle_data std_bytes 7 (sch_packet q) (conn_new Server 0) =
      (let (dd, duplicate) = dedup_insert (ps_dedup (cn_spaces (conn_new Server 0) SInitial)) 0;
           d0 = upd_space SInitial (\<lambda>s. s\<lparr>ps_dedup := dd\<rparr>) (conn_new Server 0) in
       if duplicate \<or> is_handshake (cn_state (conn_new Server 0)) \<and> SInitial = SData then Ok d0
       else settle 7 (is_closed (cn_state (conn_new Server 0))) (is_drained (cn_state (conn_new Server 0)))
         (process_packet std_bytes 7 (Some 0) h payload
           (if \<not> is_closed (cn_state (conn_new Server 0)) then on_packet_authenticated 7 SInitial (Some 0) d0 else d0)))"
proof -
  define c where "c = conn_new Client 0"
  obtain packet n l where c': "poll_transmit std_bytes 5 c = (Ok ((hello_sent 5 packet n c)\<lparr>app_limited := l\<rparr>, False) :: (_, unit) outcome)"
    using hello_poll [OF std.bytes_crate_axioms client_due [of 0], where now = 5 and 'e = unit] by (auto simp: c_def)
  have c: "sending_queue (cn_path c) = []" by (simp add: c_def conn_new_def Let_def path_new_def)
  define q where "q = last (sending_queue (cn_path (hello_sent 5 packet n c)))"
  have q: "sending_queue (cn_path (hello_sent 5 packet n c)) = [q]" "sp_space_id (sch_meta q) = SInitial" "sp_number (sch_meta q) = 0"
    by (simp_all add: q_def hello_sent_def Let_def c)
  have "sending_queue (cn_path ((hello_sent 5 packet n c)\<lparr>app_limited := l\<rparr>)) = sending_queue (cn_path (conn_new Client 0)) @ [q]"
    using q(1) by (simp add: c flip: c_def)
  moreover have "largest_acked_packet (cn_spaces (conn_new Client 0) SInitial) = None" "rx_packet (cn_spaces (conn_new Server 0) SInitial) = 0"
    by (simp_all add: conn_new_def packet_space_new_def upd_space_def)
  ultimately show ?thesis
    using packet_reaches_peer [OF q(2,3) std.bytes_crate_axioms conn_reach.new c' [unfolded c_def],
        where d = "conn_new Server 0" and at = 7 and qs = "[q]"] c' q(1)
    unfolding c_def by (simp del: space_id.distinct)
qed

end
