(* ===== verification/Message.thy ===== *)
theory Message
  imports Packet_Sent
begin

text \<open>
  A message from one application to the other: opened and written on one connection, packed into
  a STREAM frame, carried by one packet, and read on the other connection.
\<close>

section \<open>The message in the stream tables\<close>

definition quiet_streams :: "streams_state \<Rightarrow> bool" where
  "quiet_streams st \<longleftrightarrow> pq_iter (st_pending st) = []"

abbreviation message_send :: "bytes \<Rightarrow> send" where
  "message_send data \<equiv> send_default\<lparr>snd_pending := sb_write (snd_pending send_default) data\<rparr>"

definition has_message :: "streams_state \<Rightarrow> stream_id \<Rightarrow> bytes \<Rightarrow> bool" where
  "has_message st sid data \<longleftrightarrow> st_send st sid = Some (message_send data) \<and> sid \<le> VARINT_MAX \<and>
     pq_next (st_pending st) = None \<and> (\<exists>p r. pq_streams (st_pending st) = [PendingStream p r sid])"

lemma message_queued:
  assumes "quiet_streams st" "open_stream st d = (st1, sid)" "st_next st d < 2 ^ 60"
  shows "\<exists>st2. sstream_write False st1 sid data = (st2, Ok ()) \<and> has_message st2 sid data \<and> initiator sid = st_side st \<and>
    stream_dir sid = d \<and> st_recv st2 = st_recv st1 \<and> st_events st2 = st_events st"
proof -
  have sid: "sid = stream_id_new (st_side st) d (st_next st d)" "st_send st1 sid = Some send_default" "st_pending st1 = st_pending st"
    "st_events st1 = st_events st"
    using assms(2) by (auto simp: open_stream_def Let_def split: if_splits)
  have "dir_num d \<le> 1" "side_num (st_side st) \<le> 1" by (cases d; cases "st_side st"; simp)+
  then have "sid \<le> VARINT_MAX" using assms(3) by (simp add: sid(1) stream_id_new_eq varint_max_values)
  moreover have "initiator sid = st_side st" "stream_dir sid = d" using open_stream_spec [of st d] assms(2,3) by simp_all
  ultimately show ?thesis
    using assms(1) sid
    by (auto simp: sstream_write_def Let_def send_write_def is_writable_def send_default_def has_message_def push_pending_def
        quiet_streams_def pq_iter_def send_is_pending_def has_unsent_data_def send_buffer_default_def rs_is_empty_def split: option.splits)
qed

text \<open>The send buffer of the message, before and after all of it was taken.\<close>

abbreviation message_sent :: "bytes \<Rightarrow> send" where
  "message_sent data \<equiv> send_default\<lparr>snd_pending := (sb_write send_buffer_default data)\<lparr>unsent := length data\<rparr>\<rparr>"

lemma message_polled:
  assumes "data \<noteq> []" "length data + 25 \<le> l" "l < 2 ^ 16"
  shows "sb_poll_transmit (snd_pending (message_send data)) l =
      (Ok (snd_pending (message_sent data), (0, length data), True) :: (_, 'e) outcome)"
    "sb_get (snd_pending (message_sent data)) (0, length data) = data"
    "send_is_pending (message_send data)" "\<not> send_is_reset (message_send data)"
    "\<not> send_is_pending (message_sent data)" "\<not> fin_pending send_default"
proof -
  have small: "length data < 2 ^ 64" using assms by simp
  show "sb_poll_transmit (snd_pending (message_send data)) l =
      (Ok (snd_pending (message_sent data), (0, length data), True) :: (_, 'e) outcome)"
    using assms
    by (simp add: sb_poll_transmit_def sb_write_def send_default_def send_buffer_default_def rs_pop_min_def rs_peek_min_def wrap_simps
        Let_def u64_max_def)
  show "sb_get (snd_pending (message_sent data)) (0, length data) = data"
    using assms(1) small by (simp add: sb_get_def sb_write_def send_default_def send_buffer_default_def sb_base_def wrap_simps)
  show "send_is_pending (message_send data)" "\<not> send_is_reset (message_send data)"
    "\<not> send_is_pending (message_sent data)" "\<not> fin_pending send_default"
    using assms(1) small
    by (simp_all add: send_is_pending_def has_unsent_data_def sb_write_def send_default_def send_buffer_default_def wrap_simps
        send_is_reset_def rs_is_empty_def)
qed

context bytes_crate
begin

lemma message_frame:
  assumes "sid \<le> VARINT_MAX" "data \<noteq> []" "length data + 25 \<le> w_left w" "w_left w < 2 ^ 16"
  shows "\<exists>w1 bs. stream_meta_encode B \<lparr>sm_id = sid, sm_offsets = (0, length data), sm_fin = False\<rparr> True w = (Ok w1 :: (_, 'e) outcome) \<and>
    put_slice data w1 = (Ok (w\<lparr>w_bytes := w_bytes w @ bs, w_left := w_left w - length bs\<rparr>) :: (_, 'e) outcome) \<and>
    frame_bytes B bs (Stream \<lparr>sf_id = sid, sf_offset = 0, sf_fin = False, sf_data = data\<rparr>)"
proof -
  define meta where "meta = \<lparr>sm_id = sid, sm_offsets = (0, length data), sm_fin = False\<rparr>"
  define hd where "hd = varint_bytes B (stream_ty False True False) @ varint_bytes B sid @ varint_bytes B (length data)"
  define w1 where "w1 = w\<lparr>w_bytes := w_bytes w @ hd, w_left := w_left w - length hd\<rparr>"
  define w2 where "w2 = w\<lparr>w_bytes := w_bytes w @ hd @ data, w_left := w_left w - length (hd @ data)\<rparr>"
  have small: "length data \<le> VARINT_MAX" "length data < 2 ^ 64" using assms by (simp_all add: varint_max_values)
  have hd: "length hd \<le> 17"
    using varint_bytes_length_le [of sid] varint_bytes_length_le [of "length data"]
    by (simp add: hd_def varint_bytes_length stream_ty_def varint_max_values)
  have enc: "stream_meta_encode B meta True w = (Ok w1 :: (_, 'e) outcome)"
    using stream_meta_encode_eq [of meta 0 "length data" True w, where 'e = 'e] small hd assms(1,3)
    by (simp add: meta_def hd_def w1_def put_slice_def)
  have put: "put_slice data w1 = (Ok w2 :: (_, 'e) outcome)"
    using hd assms(3) by (simp add: w1_def w2_def put_slice_def)
  have "frame_bytes B (hd @ data) (Stream \<lparr>sf_id = sid, sf_offset = 0, sf_fin = False, sf_data = data\<rparr>)"
    using parses_as_bytes [OF stream_meta_parses [OF enc put, of 0], of "hd @ data"] assms(2) small(2)
    by (simp add: meta_def w2_def)
  then show ?thesis using enc put unfolding meta_def w2_def by blast
qed

lemma message_written:
  assumes "has_message st sid data" "data \<noteq> []" "length data + 25 \<le> w_left w" "w_left w < 2 ^ 16"
  shows "\<exists>bs st'. write_stream_frames B st w True =
      (Ok (st', w\<lparr>w_bytes := w_bytes w @ bs, w_left := w_left w - length bs\<rparr>, [\<lparr>sm_id = sid, sm_offsets = (0, length data), sm_fin = False\<rparr>])
        :: (_, 'e) outcome) \<and>
    frame_bytes B bs (Stream \<lparr>sf_id = sid, sf_offset = 0, sf_fin = False, sf_data = data\<rparr>) \<and> quiet_streams st'"
proof -
  define meta where "meta = \<lparr>sm_id = sid, sm_offsets = (0, length data), sm_fin = False\<rparr>"
  obtain p r where q: "pq_next (st_pending st) = None" "pq_streams (st_pending st) = [PendingStream p r sid]"
    "st_send st sid = Some (message_send data)" "sid \<le> VARINT_MAX"
    using assms(1) by (auto simp: has_message_def)
  obtain w1 bs where f: "stream_meta_encode B meta True w = (Ok w1 :: (_, 'e) outcome)"
    "put_slice data w1 = (Ok (w\<lparr>w_bytes := w_bytes w @ bs, w_left := w_left w - length bs\<rparr>) :: (_, 'e) outcome)"
    "frame_bytes B bs (Stream \<lparr>sf_id = sid, sf_offset = 0, sf_fin = False, sf_data = data\<rparr>)"
    using message_frame [OF q(4) assms(2-4), where 'e = 'e] unfolding meta_def by blast
  define w2 where "w2 = w\<lparr>w_bytes := w_bytes w @ bs, w_left := w_left w - length bs\<rparr>"
  define st' where "st' = st\<lparr>st_pending := (st_pending st)\<lparr>pq_streams := []\<rparr>, st_send := (st_send st)(sid \<mapsto> message_sent data)\<rparr>"
  note polled = message_polled(1) [OF assms(2-4), where 'e = 'e] message_polled(2-6) [OF assms(2-4)]
  have pop: "pq_pop (st_pending st) = ((st_pending st)\<lparr>pq_streams := []\<rparr>, Some (PendingStream p r sid))"
    by (simp add: pq_pop_def q heap_pop_def)
  have "wsf_emit B True st' w (message_sent data) meta True = (Ok (st', w2, Some meta, True) :: (_, 'e) outcome)"
    using assms(2) f(1,2) polled(2,5) by (simp add: wsf_emit_def meta_def range_is_empty_def w2_def)
  then have step: "wsf_step B True st w = (Ok (st', w2, Some meta, True) :: (_, 'e) outcome)"
    using assms(2,3) polled by (simp add: wsf_step_def STREAM_SIZE_BOUND_def pop q(3) Let_def range_is_empty_def st'_def meta_def)
  have stop: "wsf_step B True st' w2 = (Ok (st', w2, None, False) :: (_, 'e) outcome)"
    by (simp add: wsf_step_def pq_pop_def heap_pop_def st'_def q)
  obtain n where "wsf_fuel st w = Suc (Suc n)"
    using assms(3) by (cases "w_left w") (auto simp: wsf_fuel_def)
  then have "write_stream_frames B st w True = (Ok (st', w2, [meta]) :: (_, 'e) outcome)"
    by (simp add: write_stream_frames_def step stop)
  moreover have "quiet_streams st'" by (simp add: st'_def quiet_streams_def pq_iter_def q)
  ultimately show ?thesis using f(3) unfolding w2_def meta_def by blast
qed

end

section \<open>The packet\<close>

text \<open>
  A connection that is established and has nothing to send: no frames, no acknowledgements, no
  packet in the queue, and room in the congestion window and in the packet numbers.
\<close>

definition quiet_space :: "packet_space \<Rightarrow> bool" where
  "quiet_space s \<longleftrightarrow> sendable_is_empty (ps_can_send s)"

definition ready_to_send :: "connection \<Rightarrow> bool" where
  "ready_to_send c \<longleftrightarrow> cn_state c = CEstablished \<and> quiet_streams (cn_streams c) \<and> st_side (cn_streams c) = cn_side c \<and> (\<forall>k. quiet_space (cn_spaces c k)) \<and>
     if_bytes (np_in_flight (cn_path c)) < nr_window (congestion (cn_path c)) \<and> sending_queue (cn_path c) = [] \<and>
     pa_ranges (ps_pending_acks (cn_spaces c SData)) = [] \<and> acked_ok (cn_spaces c SData) \<and>
     next_packet_number (cn_spaces c SData) < 2 ^ 62 \<and>
     next_packet_number (cn_spaces c SData) < largest_acked_or_0 (cn_spaces c SData) + 2 ^ 31"

text \<open>A packet with the number \<open>n\<close> and the message in it, for a receiver that expects \<open>low\<close> or more.\<close>

definition message_packet :: "bytes_api \<Rightarrow> nat \<Rightarrow> nat \<Rightarrow> stream_id \<Rightarrow> bytes \<Rightarrow> bytes \<Rightarrow> bool" where
  "message_packet B low n sid data packet \<longleftrightarrow> (\<exists>h payload pn.
     header_decode B packet (length FAKE_CID) SUPPORTED_VERSIONS = Ok (h, payload) \<and>
     header_space h = SData \<and> is_1rtt h \<and> header_number h = Some pn \<and>
     (\<forall>expected. low \<le> expected \<longrightarrow> expected < n + 128 \<longrightarrow> pn_expand pn expected = n) \<and>
     payload_of B [Stream \<lparr>sf_id = sid, sf_offset = 0, sf_fin = False, sf_data = data\<rparr>] payload)"

lemma short_header_encode:
  assumes "bytes_crate B" "pn_new n low = (Ok num :: (_, 'e) outcome)" "low \<le> n" "n < 2 ^ 62"
  shows "\<exists>hb. length hb \<le> 25 \<and> 22 \<le> length hb \<and>
    header_encode B (packet_header SData hello_cid num) \<lparr>w_bytes = [], w_left = INITIAL_MTU\<rparr> =
      (Ok \<lparr>w_bytes = hb, w_left = INITIAL_MTU - length hb\<rparr> :: (_, 'e) outcome) \<and>
    (\<forall>sid data bs. frame_bytes B bs (Stream \<lparr>sf_id = sid, sf_offset = 0, sf_fin = False, sf_data = data\<rparr>) \<longrightarrow>
      message_packet B low n sid data (hb @ bs))"
proof -
  define hb where "hb = be_put B 1 (unat (FIXED_BIT OR pn_tag num)) @ FAKE_CID @ pn_bytes B num"
  have "length (pn_bytes B num) \<le> 4 \<and> 1 \<le> length (pn_bytes B num)"
    by (cases num) (simp_all add: pn_bytes_def bytes_crate.put_length [OF assms(1)])
  then have len: "length hb \<le> 25" "22 \<le> length hb" by (simp_all add: hb_def bytes_crate.put_length [OF assms(1)])
  have deref: "cid_deref hello_cid = FAKE_CID" by (simp add: cid_deref_def hello_cid_def)
  have "header_encode B (packet_header SData hello_cid num) w = (put_slice hb w :: (_, 'e) outcome)" for w
    by (simp add: packet_header_def put_uint_def codec_simps deref hb_def del: One_nat_def)
  then have enc: "header_encode B (packet_header SData hello_cid num) \<lparr>w_bytes = [], w_left = INITIAL_MTU\<rparr> =
      (Ok \<lparr>w_bytes = hb, w_left = INITIAL_MTU - length hb\<rparr> :: (_, 'e) outcome)"
    using len by (simp add: put_slice_def INITIAL_MTU_def)
  from bytes_crate.header_decode_encode [OF assms(1) packet_header_ok [OF fake_cid] this]
  have dec: "header_decode B (hb @ bs) (length FAKE_CID) SUPPORTED_VERSIONS = Ok (header_norm (packet_header SData hello_cid num), bs)" for bs
    by auto
  have "message_packet B low n sid data (hb @ bs)"
    if "frame_bytes B bs (Stream \<lparr>sf_id = sid, sf_offset = 0, sf_fin = False, sf_data = data\<rparr>)" for sid data bs
    using that pn_new_expand [OF assms(2-4)] dec [of bs] packet_header_norm [of SData hello_cid num] unfolding message_packet_def
    by (intro exI [of _ "header_norm (packet_header SData hello_cid num)"] exI [of _ bs] exI [of _ "pn_norm num"]) auto
  then show ?thesis using len enc by blast
qed

lemma quiet_space_simps:
  assumes "quiet_space s"
  shows "\<not> hello (ps_pending s)" "rt_reset_stream (ps_pending s) = []" "rt_stop_sending (ps_pending s) = []"
    "\<not> ping_pending s" "\<not> sd_acks (ps_can_send s)" "\<not> sd_other (ps_can_send s)"
  using assms by (simp_all add: quiet_space_def sendable_is_empty_def ps_can_send_def retransmits_is_empty_def)

lemma message_populated:
  assumes "bytes_crate B" "quiet_space (cn_spaces c SData)" "pa_ranges (ps_pending_acks (cn_spaces c SData)) = []"
    "has_message (cn_streams c) sid data" "data \<noteq> []" "length data + 25 \<le> w_left w" "w_left w < 2 ^ 16"
  shows "\<exists>bs st' sent. populate_packet B now SData c w =
      (Ok (c\<lparr>cn_streams := st'\<rparr>, sent, w\<lparr>w_bytes := w_bytes w @ bs, w_left := w_left w - length bs\<rparr>) :: (_, 'e) outcome) \<and>
    fr_largest_acked sent = None \<and> quiet_streams st' \<and>
    frame_bytes B bs (Stream \<lparr>sf_id = sid, sf_offset = 0, sf_fin = False, sf_data = data\<rparr>)"
proof -
  note quiet = quiet_space_simps [OF assms(2)]
  obtain bs st' where f: "write_stream_frames B (cn_streams c) w True =
      (Ok (st', w\<lparr>w_bytes := w_bytes w @ bs, w_left := w_left w - length bs\<rparr>, [\<lparr>sm_id = sid, sm_offsets = (0, length data), sm_fin = False\<rparr>])
        :: (_, 'e) outcome)"
    "frame_bytes B bs (Stream \<lparr>sf_id = sid, sf_offset = 0, sf_fin = False, sf_data = data\<rparr>)" "quiet_streams st'"
    using bytes_crate.message_written [OF assms(1,4-7), where 'e = 'e] by blast
  have "write_control_frames B (cn_streams c) w (ps_pending (cn_spaces c SData)) None = (Ok (w, ps_pending (cn_spaces c SData), None) :: (_, 'e) outcome)"
    by (simp add: write_control_frames_def quiet)
  moreover have "upd_space SData (\<lambda>s. s\<lparr>ps_pending := ps_pending (cn_spaces c SData)\<rparr>) c = c" by (simp add: upd_space_def)
  ultimately have "populate_packet B now SData c w =
      (Ok (c\<lparr>cn_streams := st'\<rparr>, sent_frames_default\<lparr>fr_stream_frames := [\<lparr>sm_id = sid, sm_offsets = (0, length data), sm_fin = False\<rparr>]\<rparr>,
        w\<lparr>w_bytes := w_bytes w @ bs, w_left := w_left w - length bs\<rparr>) :: (_, 'e) outcome)"
    using f(1) by (simp add: populate_packet_def assms(3) ars_is_empty_def quiet sent_frames_default_def Let_def)
  then show ?thesis using f(2,3) by (auto simp: sent_frames_default_def)
qed

lemma message_built:
  assumes "bytes_crate B" "ready_to_send c" "has_message st sid data" "data \<noteq> []" "length data \<le> 1400"
    and s: "s = cn_spaces c SData" and n: "n = next_packet_number s"
  shows "\<exists>q st'. build_packet B now False True SData (c\<lparr>cn_streams := st\<rparr>) = (Ok ((upd_space SData (\<lambda>s. s\<lparr>next_packet_number := Suc n\<rparr>) c)
      \<lparr>cn_streams := st', cn_path := (cn_path c)\<lparr>sending_queue := [q]\<rparr>\<rparr>) :: (_, 'e) outcome) \<and>
    quiet_streams st' \<and> sp_ack_eliciting (sch_meta q) \<and> sp_space_id (sch_meta q) = SData \<and>
    message_packet B (largest_acked_or_0 s) n sid data (sch_packet q)"
proof -
  define low where "low = largest_acked_or_0 s"
  have ready: "n < 2 ^ 62" "low \<le> n" "n - low < 2 ^ 31" "quiet_space s" "pa_ranges (ps_pending_acks s) = []" "sending_queue (cn_path c) = []"
    using assms(2) by (auto simp: ready_to_send_def low_def n s acked_ok_def largest_acked_or_0_def less_imp_le split: option.splits)
  obtain num where num: "pn_new n low = (Ok num :: (_, 'e) outcome)" using pn_new_Ok ready(1-3) by blast
  obtain hb where hb: "length hb \<le> 25"
    "header_encode B (packet_header SData hello_cid num) \<lparr>w_bytes = [], w_left = INITIAL_MTU\<rparr> =
      (Ok \<lparr>w_bytes = hb, w_left = INITIAL_MTU - length hb\<rparr> :: (_, 'e) outcome)"
    "\<And>sid data bs. frame_bytes B bs (Stream \<lparr>sf_id = sid, sf_offset = 0, sf_fin = False, sf_data = data\<rparr>) \<Longrightarrow>
      message_packet B low n sid data (hb @ bs)"
    using short_header_encode [OF assms(1) num ready(2,1)] by blast
  define s1 where "s1 = s\<lparr>next_packet_number := Suc n\<rparr>"
  have tx: "get_tx_number (cn_spaces (c\<lparr>cn_streams := st\<rparr>) SData) = (Ok (s1, n) :: (_, 'e) outcome)"
    using ready(1) by (simp add: get_tx_number_def s1_def n s add64_small)
  define c1 where "c1 = upd_space SData (\<lambda>_. s1) (c\<lparr>cn_streams := st\<rparr>)"
  have c1: "quiet_space (cn_spaces c1 SData)" "pa_ranges (ps_pending_acks (cn_spaces c1 SData)) = []" "has_message (cn_streams c1) sid data"
    using ready(4,5) assms(3) by (simp_all add: c1_def s1_def quiet_space_def ps_can_send_def)
  have low: "(case largest_acked_packet s1 of None \<Rightarrow> 0 | Some n \<Rightarrow> n) = low" by (simp add: s1_def low_def largest_acked_or_0_def)
  have room: "length data + 25 \<le> INITIAL_MTU - length hb" "INITIAL_MTU - length hb < 2 ^ 16"
    using assms(5) hb(1) by (simp_all add: INITIAL_MTU_def)
  obtain bs st' sent where p: "populate_packet B now SData c1 \<lparr>w_bytes = hb, w_left = INITIAL_MTU - length hb\<rparr> =
      (Ok (c1\<lparr>cn_streams := st'\<rparr>, sent, \<lparr>w_bytes = hb @ bs, w_left = INITIAL_MTU - length hb - length bs\<rparr>) :: (_, 'e) outcome)"
    "fr_largest_acked sent = None" "quiet_streams st'"
    "frame_bytes B bs (Stream \<lparr>sf_id = sid, sf_offset = 0, sf_fin = False, sf_data = data\<rparr>)"
    using message_populated [OF assms(1) c1 assms(4), of "\<lparr>w_bytes = hb, w_left = INITIAL_MTU - length hb\<rparr>" now, where 'e = 'e] room
    by auto
  show ?thesis
    unfolding build_packet_def tx bindO.simps prod.case Let_def c1_def [symmetric] low num fake_cid hb(2) if_False p(1,2)
    using p(3) hb(3) [OF p(4)] ready(6)
    by (intro exI conjI) (auto simp: c1_def s1_def s low_def upd_space_def intro!: arg_cong [where f = Ok] connection.equality)
qed

lemma message_poll:
  assumes "bytes_crate B" "ready_to_send c" "has_message st sid data" "data \<noteq> []" "length data \<le> 1400"
    and s: "s = cn_spaces c SData"
  shows "\<exists>c1 c2 packet. poll_transmit B now (c\<lparr>cn_streams := st\<rparr>) = (Ok (c1, False) :: (_, unit) outcome) \<and>
    send_next (Some at) c1 = Ok (c2, Some packet) \<and> cn_state c2 = CEstablished \<and> quiet_streams (cn_streams c2) \<and>
    message_packet B (largest_acked_or_0 s) (next_packet_number s) sid data packet"
proof -
  note ready = assms(2) [unfolded ready_to_send_def]
  obtain q st' where b: "build_packet B now False True SData (c\<lparr>cn_streams := st\<rparr>) =
      (Ok ((upd_space SData (\<lambda>t. t\<lparr>next_packet_number := Suc (next_packet_number s)\<rparr>) c)
        \<lparr>cn_streams := st', cn_path := (cn_path c)\<lparr>sending_queue := [q]\<rparr>\<rparr>) :: (_, unit) outcome)"
    "quiet_streams st'" "message_packet B (largest_acked_or_0 s) (next_packet_number s) sid data (sch_packet q)"
    using message_built [OF assms(1-5) refl refl, of now, where 'e = unit] unfolding s by blast
  define e where "e = (upd_space SData (\<lambda>t. t\<lparr>next_packet_number := Suc (next_packet_number s)\<rparr>) c)
    \<lparr>cn_streams := st', cn_path := (cn_path c)\<lparr>sending_queue := [q]\<rparr>\<rparr>"
  have quiet: "\<not> sd_acks (ps_can_send (cn_spaces c k))" "\<not> sd_other (ps_can_send (cn_spaces c k))" for k
    using ready quiet_space_simps [of "cn_spaces c k"] by simp_all
  have pending: "can_send_stream_data st"
    using assms(3) by (auto simp: has_message_def can_send_stream_data_def pq_iter_def send_default_def send_is_reset_def)
  have "ps_can_send (cn_spaces e k) = ps_can_send (cn_spaces c k)" for k by (simp add: e_def ps_can_send_def)
  then have more: "\<not> list_ex (\<lambda>sid. \<not> sendable_is_empty (space_can_send e sid)) space_variants"
    using b(2) by (simp add: space_variants_def space_can_send_def sendable_is_empty_def quiet e_def can_send_stream_data_def quiet_streams_def)
  have "poll_space B now False False SInitial (c\<lparr>cn_streams := st\<rparr>, False) = (Ok (c\<lparr>cn_streams := st\<rparr>, False) :: (_, unit) outcome)"
    "poll_space B now False False SHandshake (c\<lparr>cn_streams := st\<rparr>, False) = (Ok (c\<lparr>cn_streams := st\<rparr>, False) :: (_, unit) outcome)"
    "poll_space B now False False SData (c\<lparr>cn_streams := st\<rparr>, False) = (Ok (e, True) :: (_, unit) outcome)"
    using b(1) by (simp_all add: poll_space_def space_can_send_def sendable_is_empty_def quiet pending e_def)
  then obtain l where "poll_transmit B now (c\<lparr>cn_streams := st\<rparr>) = (Ok (e\<lparr>app_limited := l\<rparr>, False) :: (_, unit) outcome)"
    using ready more by (auto simp: poll_transmit_unfold Let_def not_le)
  moreover have "\<exists>c2. send_next (Some at) (e\<lparr>app_limited := l\<rparr>) = Ok (c2, Some (sch_packet q)) \<and> cn_state c2 = CEstablished \<and> quiet_streams (cn_streams c2)"
    using ready b(2) by (auto simp: e_def send_next_def send_one_def Let_def case_prod_unfold)
  ultimately show ?thesis using b(3) by blast
qed

section \<open>The receiver\<close>

text \<open>The first frame of a stream, received and read.\<close>

lemma message_ingested:
  assumes "data \<noteq> []" "length data < 2 ^ 62"
  shows "\<exists>rs. ingest recv_default \<lparr>sf_id = sid, sf_offset = 0, sf_fin = False, sf_data = data\<rparr> len = Ok (rs, length data, False) \<and>
    \<not> stopped rs \<and> asm_state (rcv_assembler rs) = Ordered \<and> asm_bytes_read (rcv_assembler rs) = 0 \<and>
    asm_data (rcv_assembler rs) = [buffer_new 0 data len]"
  using assms
  by (simp add: ingest_def recv_default_def final_offset_def add64_small saturating_sub_def Let_def asm_insert_def asm_place_def
      assembler_default_def)

lemma message_read:
  assumes "st_recv st sid = Some rs" "\<not> stopped rs" "asm_state (rcv_assembler rs) = Ordered" "asm_bytes_read (rcv_assembler rs) = 0"
    "asm_data (rcv_assembler rs) = [buffer_new 0 data len]" "length data \<le> max_length"
  shows "\<exists>st' ch ch'. chunks_new st sid True = (st', Ok ch) \<and>
    chunks_next ch max_length = (Ok (ch', Ok (Some \<lparr>chunk_offset = 0, chunk_bytes = data\<rparr>)) :: (_, 'e) outcome)"
  using assms by (simp add: chunks_new_def ensure_ordering_def is_ordered_def chunks_next_def asm_read_def buffer_new_def Let_def map_err_def)

lemma message_received:
  assumes "message_packet B low n sid data packet" "cn_state d = CEstablished" "initiator sid \<noteq> st_side (cn_streams d)"
    "st_recv (cn_streams d) sid = None" "low \<le> rx_packet (cn_spaces d SData) + 1" "rx_packet (cn_spaces d SData) < n + 127"
    "rx_packet (cn_spaces d SData) < 2 ^ 62" "\<not> snd (dedup_insert (ps_dedup (cn_spaces d SData)) n)" "data \<noteq> []" "length data < 2 ^ 62"
  shows "\<exists>d' rs len. handle_data B now packet d = Ok d' \<and> cn_state d' = CEstablished \<and>
    st_events (cn_streams d') = st_events (cn_streams d) @ [StreamEv (Readable sid)] \<and>
    st_recv (cn_streams d') = (st_recv (cn_streams d))(sid \<mapsto> rs) \<and>
    \<not> stopped rs \<and> asm_state (rcv_assembler rs) = Ordered \<and> asm_bytes_read (rcv_assembler rs) = 0 \<and>
    asm_data (rcv_assembler rs) = [buffer_new 0 data len]"
proof -
  define frame where "frame = \<lparr>sf_id = sid, sf_offset = 0, sf_fin = False, sf_data = data\<rparr>"
  obtain h payload pn where p: "header_decode B packet (length FAKE_CID) SUPPORTED_VERSIONS = Ok (h, payload)"
    "header_space h = SData" "header_number h = Some pn" "pn_expand pn (rx_packet (cn_spaces d SData) + 1) = n"
    "payload_of B [Stream frame] payload"
    using assms(1,5,6) unfolding message_packet_def frame_def by auto
  define d0 where "d0 = upd_space SData (\<lambda>s. s\<lparr>ps_dedup := fst (dedup_insert (ps_dedup (cn_spaces d SData)) n)\<rparr>) d"
  define d1 where "d1 = on_packet_authenticated now SData (Some n) d0"
  have d1: "cn_state d1 = CEstablished" "cn_streams d1 = cn_streams d" "cn_state d0 = CEstablished"
    using assms(2) by (auto simp: d1_def d0_def on_packet_authenticated_def Let_def case_prod_unfold)
  obtain rs where rs: "ingest recv_default frame (length payload) = Ok (rs, length data, False)" "\<not> stopped rs"
    "asm_state (rcv_assembler rs) = Ordered" "asm_bytes_read (rcv_assembler rs) = 0" "asm_data (rcv_assembler rs) = [buffer_new 0 data (length payload)]"
    using message_ingested [OF assms(9,10)] unfolding frame_def by blast
  define st where "st = (cn_streams d)\<lparr>st_recv := (st_recv (cn_streams d))(sid \<mapsto> rs), st_events := st_events (cn_streams d) @ [StreamEv (Readable sid)]\<rparr>"
  have "received (cn_streams d) frame (length payload) = (st, Ok ())"
    using assms(3,4,9) rs(1,2)
    by (auto simp: received_def validate_receive_id_def Let_def received_on_def is_receiving_def recv_default_def frame_def st_def send_event_def)
  then have "data_frame B now SData (length payload) (Stream frame) d1 = (d1\<lparr>cn_streams := st\<rparr>, Ok True)"
    by (simp add: data_frame_def d1)
  then have "process_packet B now (Some n) h payload d1 = (d1\<lparr>cn_streams := st\<rparr>, Ok ())"
    using process_frames_all [OF p(5)] by (simp add: process_packet_def p(2) process_payload_def map_err_def)
  then have "handle_data B now packet d = settle now False False (d1\<lparr>cn_streams := st\<rparr>, Ok ())"
    using p(1-4) assms(2,7,8) d1(3)
    by (simp add: handle_data_def Let_def case_prod_unfold add64_small flip: d0_def d1_def)
  then show ?thesis using rs(2-5) d1(1) by (auto simp: settle_def st_def)
qed

section \<open>From one application to the other\<close>

text \<open>
  A run from the sender \<open>c\<close> to the receiver \<open>d\<close>: the application opens a stream and writes, the task
  polls and sends one datagram, the peer handles it and tells its application that the stream
  is readable, and the application reads the message.
\<close>

definition delivers :: "bytes_api \<Rightarrow> connection \<Rightarrow> connection \<Rightarrow> dir \<Rightarrow> bytes \<Rightarrow> nat \<Rightarrow> instant \<Rightarrow> instant \<Rightarrow> instant \<Rightarrow> bool" where
  "delivers B c d dir data max_length t1 t2 t3 \<longleftrightarrow> (\<exists>sid c1 c2 c3 c4 packet d' st ch ch'.
     conn_open_stream dir c = (Ok (c1, sid) :: (_, unit) outcome) \<and>
     conn_write sid data c1 = (Ok (c2, Ok ()) :: (_, unit) outcome) \<and>
     poll_transmit B t1 c2 = (Ok (c3, False) :: (_, unit) outcome) \<and>
     send_next (Some t2) c3 = Ok (c4, Some packet) \<and>
     handle_data B t3 packet d = Ok d' \<and>
     st_events (cn_streams d') = st_events (cn_streams d) @ [StreamEv (Readable sid)] \<and>
     chunks_new (cn_streams d') sid True = (st, Ok ch) \<and>
     chunks_next ch max_length = (Ok (ch', Ok (Some \<lparr>chunk_offset = 0, chunk_bytes = data\<rparr>)) :: (_, unit) outcome))"

text \<open>What the receiver needs to take the next packet of the sender and a new stream of it.\<close>

definition ready_to_receive :: "connection \<Rightarrow> connection \<Rightarrow> bool" where
  "ready_to_receive c d \<longleftrightarrow> cn_state d = CEstablished \<and> st_side (cn_streams d) \<noteq> st_side (cn_streams c) \<and>
     (\<forall>dir. st_recv (cn_streams d) (stream_id_new (st_side (cn_streams c)) dir (st_next (cn_streams c) dir)) = None) \<and>
     (let n = next_packet_number (cn_spaces c SData); s = cn_spaces d SData in
      largest_acked_or_0 (cn_spaces c SData) \<le> rx_packet s + 1 \<and> rx_packet s < n + 127 \<and> rx_packet s < 2 ^ 62 \<and>
      \<not> snd (dedup_insert (ps_dedup s) n))"

lemma message_delivered:
  assumes "bytes_crate B" "ready_to_send c" "ready_to_receive c d" "st_next (cn_streams c) dir < 2 ^ 60"
    "data \<noteq> []" "length data \<le> 1400" "length data \<le> max_length"
  shows "delivers B c d dir data max_length t1 t2 t3"
proof -
  note rx = assms(3) [unfolded ready_to_receive_def Let_def]
  have c: "cn_state c = CEstablished" "quiet_streams (cn_streams c)" "st_side (cn_streams c) = cn_side c"
    using assms(2) by (simp_all add: ready_to_send_def)
  define sid where "sid = stream_id_new (cn_side c) dir (st_next (cn_streams c) dir)"
  obtain st1 where st1: "open_stream (cn_streams c) dir = (st1, sid)" by (auto simp: open_stream_def Let_def sid_def c)
  obtain st2 where st2: "sstream_write False st1 sid data = (st2, Ok ())" "has_message st2 sid data" "initiator sid = cn_side c"
    using message_queued [OF c(2) st1 assms(4), of data] c(3) by auto
  have opened: "conn_open_stream dir c = (Ok (c\<lparr>cn_streams := st1\<rparr>, sid) :: (_, unit) outcome)"
    by (simp add: conn_open_stream_def c st1)
  have written: "conn_write sid data (c\<lparr>cn_streams := st1\<rparr>) = (Ok (c\<lparr>cn_streams := st2\<rparr>, Ok ()) :: (_, unit) outcome)"
    using st2(1,3) by (simp add: conn_write_def may_send_def c)
  obtain c3 c4 packet where sent: "poll_transmit B t1 (c\<lparr>cn_streams := st2\<rparr>) = (Ok (c3, False) :: (_, unit) outcome)"
    "send_next (Some t2) c3 = Ok (c4, Some packet)"
    "message_packet B (largest_acked_or_0 (cn_spaces c SData)) (next_packet_number (cn_spaces c SData)) sid data packet"
    using message_poll [OF assms(1,2) st2(2) assms(5,6) refl, of t1 t2] by blast
  have "initiator sid \<noteq> st_side (cn_streams d)" "st_recv (cn_streams d) sid = None" "length data < 2 ^ 62"
    using st2(3) rx assms(6) c(3) by (auto simp: sid_def)
  then obtain d' rs len where received: "handle_data B t3 packet d = Ok d'"
    "st_events (cn_streams d') = st_events (cn_streams d) @ [StreamEv (Readable sid)]"
    "st_recv (cn_streams d') sid = Some rs" "\<not> stopped rs" "asm_state (rcv_assembler rs) = Ordered"
    "asm_bytes_read (rcv_assembler rs) = 0" "asm_data (rcv_assembler rs) = [buffer_new 0 data len]"
    using message_received [OF sent(3), of d t3] rx assms(5) by auto
  show ?thesis
    unfolding delivers_def
    using opened written sent(1,2) received(1,2) message_read [OF received(3-7) assms(7), where 'e = unit] by blast
qed

section \<open>Properties\<close>

text \<open>
  C4. A message arrives: on an established connection with nothing else to send the application opens a stream and
  writes a message that fits into one packet; the next poll gives one datagram, and the peer that receives it - established,
  without that stream, and not out of the window of packet numbers - tells its application that the stream is readable, which
  then reads exactly the message.
\<close>

theorem message_arrives:
  assumes "bytes_crate B" "ready_to_send c" "ready_to_receive c d" "st_next (cn_streams c) dir < 2 ^ 60"
    "data \<noteq> []" "length data \<le> 1400" "length data \<le> max_length"
  shows "\<exists>sid c1 c2 c3 c4 packet d' st ch ch'.
     conn_open_stream dir c = (Ok (c1, sid) :: (_, unit) outcome) \<and>
     conn_write sid data c1 = (Ok (c2, Ok ()) :: (_, unit) outcome) \<and>
     poll_transmit B t1 c2 = (Ok (c3, False) :: (_, unit) outcome) \<and>
     send_next (Some t2) c3 = Ok (c4, Some packet) \<and>
     handle_data B t3 packet d = Ok d' \<and>
     st_events (cn_streams d') = st_events (cn_streams d) @ [StreamEv (Readable sid)] \<and>
     chunks_new (cn_streams d') sid True = (st, Ok ch) \<and>
     chunks_next ch max_length = (Ok (ch', Ok (Some \<lparr>chunk_offset = 0, chunk_bytes = data\<rparr>)) :: (_, unit) outcome)"
  using message_delivered [OF assms] unfolding delivers_def .

text \<open>A server that has just been established has nothing to send; it sends two bytes to its client.\<close>

lemma established_server_ready: "ready_to_send ((conn_new Server 0)\<lparr>cn_state := CEstablished\<rparr>)"
  by (simp add: ready_to_send_def quiet_streams_def quiet_space_def sendable_is_empty_def ps_can_send_def conn_new_def packet_space_new_def
      retransmits_is_empty_def retransmits_default_def acks_can_send_def pending_acks_new_def streams_new_def pending_queue_new_def
      pq_iter_def path_new_def reno_new_def in_flight_default_def INITIAL_MTU_def acked_ok_def largest_acked_or_0_def)

theorem message_arrives_witness:
  "\<exists>sid c1 c2 c3 c4 packet d' st ch ch'.
     conn_open_stream Bi ((conn_new Server 0)\<lparr>cn_state := CEstablished\<rparr>) = (Ok (c1, sid) :: (_, unit) outcome) \<and>
     conn_write sid [104, 105] c1 = (Ok (c2, Ok ()) :: (_, unit) outcome) \<and>
     poll_transmit std_bytes 1 c2 = (Ok (c3, False) :: (_, unit) outcome) \<and>
     send_next (Some 2) c3 = Ok (c4, Some packet) \<and>
     handle_data std_bytes 3 packet ((conn_new Client 0)\<lparr>cn_state := CEstablished\<rparr>) = Ok d' \<and>
     st_events (cn_streams d') = st_events (cn_streams ((conn_new Client 0)\<lparr>cn_state := CEstablished\<rparr>)) @ [StreamEv (Readable sid)] \<and>
     chunks_new (cn_streams d') sid True = (st, Ok ch) \<and>
     chunks_next ch 1024 = (Ok (ch', Ok (Some \<lparr>chunk_offset = 0, chunk_bytes = [104, 105]\<rparr>)) :: (_, unit) outcome)"
proof (rule message_arrives)
  show "ready_to_receive ((conn_new Server 0)\<lparr>cn_state := CEstablished\<rparr>) ((conn_new Client 0)\<lparr>cn_state := CEstablished\<rparr>)"
    by (simp add: ready_to_receive_def conn_new_def upd_space_def streams_new_def packet_space_new_def largest_acked_or_0_def
        dedup_insert_def dedup_new_def checked_sub_def)
qed (rule std.bytes_crate_axioms established_server_ready | simp add: conn_new_def streams_new_def)+

end
