(* ===== verification/Long_Message.thy ===== *)
theory Long_Message
  imports Message
begin

text \<open>
  What happens to a message that does not fit into the packet: \<open>write_stream_frames\<close> lets
  \<open>poll_transmit\<close> of the send buffer take as many bytes as are left in the packet, and then writes
  the header of the frame before them.
\<close>

lemma long_message_polled:
  assumes "l \<le> length data" "0 < l" "length data < 2 ^ 64"
  shows "\<exists>sb. sb_poll_transmit (snd_pending (message_send data)) l = (Ok (sb, (0, l), False) :: (_, 'e) outcome) \<and>
    sb_get sb (0, l) = take l data"
proof -
  have "l < 2 ^ 64" using assms(1,3) by simp
  then show ?thesis
    using assms
    by (auto simp: sb_poll_transmit_def sb_write_def send_default_def send_buffer_default_def rs_pop_min_def rs_peek_min_def wrap_simps
        Let_def u64_max_def sb_get_def sb_base_def min_def)
qed

context bytes_crate
begin

lemma long_message_overflows:
  assumes "has_message st sid data" "25 \<le> w_left w" "w_left w \<le> length data" "w_left w < 2 ^ 16" "length data < 2 ^ 64"
  shows "write_stream_frames B st w True = (Panic :: (_, 'e) outcome)"
proof -
  obtain p r where q: "pq_next (st_pending st) = None" "pq_streams (st_pending st) = [PendingStream p r sid]"
    "st_send st sid = Some (message_send data)" "sid \<le> VARINT_MAX"
    using assms(1) by (auto simp: has_message_def)
  obtain sb where sb: "sb_poll_transmit (snd_pending (message_send data)) (w_left w) = (Ok (sb, (0, w_left w), False) :: (_, 'e) outcome)"
    "sb_get sb (0, w_left w) = take (w_left w) data"
    using long_message_polled [OF assms(3) _ assms(5), where 'e = 'e] assms(2) by auto
  have pending: "send_is_pending (message_send data)" "\<not> send_is_reset (message_send data)" "\<not> fin_pending send_default"
    using assms(2,3,5)
    by (auto simp: send_is_pending_def has_unsent_data_def sb_write_def send_default_def send_buffer_default_def wrap_simps send_is_reset_def)
  have pop: "pq_pop (st_pending st) = ((st_pending st)\<lparr>pq_streams := []\<rparr>, Some (PendingStream p r sid))"
    by (simp add: pq_pop_def q heap_pop_def)
  define meta where "meta = \<lparr>sm_id = sid, sm_offsets = (0, w_left w), sm_fin = False\<rparr>"
  define hd where "hd = varint_bytes B (stream_ty False False False) @ varint_bytes B sid"
  have hd: "length hd \<le> 9" "0 < length hd"
    using varint_bytes_length_le [of sid] by (simp_all add: hd_def varint_bytes_length stream_ty_def varint_max_values)
  have big: "\<not> w_left w \<le> w_left w - length hd" using hd assms(2) by linarith
  have "stream_meta_encode B meta False w = (put_slice hd w :: (_, 'e) outcome)"
    using stream_meta_encode_eq [of meta 0 "w_left w" False w, where 'e = 'e] q(4) assms(4) by (simp add: meta_def hd_def)
  then have "wsf_emit B True st' w (send_default\<lparr>snd_pending := sb\<rparr>) meta False = (Panic :: (_, 'e) outcome)" for st'
    using assms(2,3) hd(1) big by (simp add: wsf_emit_def put_slice_def) (simp add: meta_def range_is_empty_def sb(2))
  then have step: "wsf_step B True st w = (Panic :: (_, 'e) outcome)"
    using assms(2) pending sb(1) by (simp add: wsf_step_def STREAM_SIZE_BOUND_def pop q(3) Let_def range_is_empty_def meta_def)
  obtain n where "wsf_fuel st w = Suc n" by (simp add: wsf_fuel_def)
  then show ?thesis by (simp add: write_stream_frames_def step)
qed

end

lemma long_message_built:
  assumes "bytes_crate B" "ready_to_send c" "has_message st sid data" "1450 \<le> length data" "length data < 2 ^ 64"
  shows "build_packet B now False True SData (c\<lparr>cn_streams := st\<rparr>) = (Panic :: (_, 'e) outcome)"
proof -
  define s where "s = cn_spaces c SData"
  define n where "n = next_packet_number s"
  define low where "low = largest_acked_or_0 s"
  have ready: "n < 2 ^ 62" "low \<le> n" "n - low < 2 ^ 31" "quiet_space s" "pa_ranges (ps_pending_acks s) = []"
    using assms(2) by (auto simp: ready_to_send_def low_def n_def s_def acked_ok_def largest_acked_or_0_def less_imp_le split: option.splits)
  obtain num where num: "pn_new n low = (Ok num :: (_, 'e) outcome)" using pn_new_Ok ready(1-3) by blast
  obtain hb where hb: "length hb \<le> 25" "22 \<le> length hb"
    "header_encode B (packet_header SData hello_cid num) \<lparr>w_bytes = [], w_left = INITIAL_MTU\<rparr> =
      (Ok \<lparr>w_bytes = hb, w_left = INITIAL_MTU - length hb\<rparr> :: (_, 'e) outcome)"
    using short_header_encode [OF assms(1) num ready(2,1)] by blast
  define s1 where "s1 = s\<lparr>next_packet_number := Suc n\<rparr>"
  have tx: "get_tx_number (cn_spaces (c\<lparr>cn_streams := st\<rparr>) SData) = (Ok (s1, n) :: (_, 'e) outcome)"
    using ready(1) by (simp add: get_tx_number_def s1_def n_def s_def add64_small)
  define c1 where "c1 = upd_space SData (\<lambda>_. s1) (c\<lparr>cn_streams := st\<rparr>)"
  have c1: "quiet_space (cn_spaces c1 SData)" "pa_ranges (ps_pending_acks (cn_spaces c1 SData)) = []" "cn_streams c1 = st"
    using ready(4,5) by (simp_all add: c1_def s1_def quiet_space_def ps_can_send_def)
  have low: "(case largest_acked_packet s1 of None \<Rightarrow> 0 | Some n \<Rightarrow> n) = low" by (simp add: s1_def low_def largest_acked_or_0_def)
  note quiet = quiet_space_simps [OF c1(1)]
  have room: "25 \<le> INITIAL_MTU - length hb" "INITIAL_MTU - length hb \<le> length data" "INITIAL_MTU - length hb < 2 ^ 16"
    using hb(1,2) assms(4) by (simp_all add: INITIAL_MTU_def)
  have "write_control_frames B st w (ps_pending (cn_spaces c1 SData)) None = (Ok (w, ps_pending (cn_spaces c1 SData), None) :: (_, 'e) outcome)" for w
    by (simp add: write_control_frames_def quiet)
  then have "populate_packet B now SData c1 \<lparr>w_bytes = hb, w_left = INITIAL_MTU - length hb\<rparr> = (Panic :: (_, 'e) outcome)"
    using bytes_crate.long_message_overflows [OF assms(1,3), of "\<lparr>w_bytes = hb, w_left = INITIAL_MTU - length hb\<rparr>", where 'e = 'e] room assms(5)
    by (simp add: populate_packet_def c1(2,3) ars_is_empty_def quiet sent_frames_default_def Let_def)
  then show ?thesis
    unfolding build_packet_def tx bindO.simps prod.case Let_def c1_def [symmetric] low num fake_cid hb(3) if_False by simp
qed

section \<open>Properties\<close>

text \<open>
  C38. A long message ends the connection's task: an application that writes 1450 bytes or more at once on a new stream of
  an established connection with nothing else to send makes the next \<open>poll_transmit\<close> panic, because the send buffer is offered all
  the space of the packet and the header of the STREAM frame is written before the data.
\<close>

theorem long_message_panics:
  assumes "bytes_crate B" "ready_to_send c" "st_next (cn_streams c) dir < 2 ^ 60" "1450 \<le> length data" "length data < 2 ^ 64"
  shows "\<exists>c1 sid c2. conn_open_stream dir c = (Ok (c1, sid) :: (_, unit) outcome) \<and>
    conn_write sid data c1 = (Ok (c2, Ok ()) :: (_, unit) outcome) \<and> poll_transmit B now c2 = (Panic :: (_, unit) outcome)"
proof -
  have c: "cn_state c = CEstablished" "quiet_streams (cn_streams c)" "st_side (cn_streams c) = cn_side c"
    "if_bytes (np_in_flight (cn_path c)) < nr_window (congestion (cn_path c))"
    using assms(2) by (simp_all add: ready_to_send_def)
  obtain st1 sid where st1: "open_stream (cn_streams c) dir = (st1, sid)" by force
  obtain st2 where st2: "sstream_write False st1 sid data = (st2, Ok ())" "has_message st2 sid data" "initiator sid = cn_side c"
    using message_queued [OF c(2) st1 assms(3), of data] c(3) by auto
  have quiet: "\<not> sd_acks (ps_can_send (cn_spaces c k))" "\<not> sd_other (ps_can_send (cn_spaces c k))" for k
    using assms(2) quiet_space_simps [of "cn_spaces c k"] by (simp_all add: ready_to_send_def)
  have "can_send_stream_data st2"
    using st2(2) by (auto simp: has_message_def can_send_stream_data_def pq_iter_def send_default_def send_is_reset_def)
  then have "poll_transmit B now (c\<lparr>cn_streams := st2\<rparr>) = (Panic :: (_, unit) outcome)"
    using long_message_built [OF assms(1,2) st2(2) assms(4,5), where 'e = unit] c(1,4)
    by (simp add: poll_transmit_unfold poll_space_def space_can_send_def sendable_is_empty_def quiet)
  then show ?thesis
    using st1 st2(1,3) c(1) by (simp add: conn_open_stream_def conn_write_def may_send_def)
qed

theorem long_message_panics_witness:
  "\<exists>c1 sid c2. conn_open_stream Bi ((conn_new Server 0)\<lparr>cn_state := CEstablished\<rparr>) = (Ok (c1, sid) :: (_, unit) outcome) \<and>
    conn_write sid (replicate 1500 7) c1 = (Ok (c2, Ok ()) :: (_, unit) outcome) \<and> poll_transmit std_bytes 1 c2 = (Panic :: (_, unit) outcome)"
  by (rule long_message_panics [OF std.bytes_crate_axioms established_server_ready]) (simp_all add: conn_new_def streams_new_def)

end
