(* ===== verification/Endpoint.thy ===== *)
theory Endpoint
  imports Connection_Steps
begin

text \<open>
  The endpoint (\<open>core/src/endpoint.rs\<close>) and the handle it keeps of the task of a connection
  (\<open>ConnectionTask\<close> in \<open>connection/mod.rs\<close>): the table of connections, the routes from peer
  addresses to them, and what a datagram, a call of \<open>connect\<close>, a turn of a task and the
  periodic check do.  The \<open>slab\<close> crate is a parameter.  Addresses are an arbitrary type.
\<close>

section \<open>The slab crate\<close>

record ('s, 't) slab_api =
  sl_new :: 's
  sl_vacant_key :: "'s \<Rightarrow> nat"
  sl_insert :: "'s \<Rightarrow> 't \<Rightarrow> 's"
  sl_get :: "'s \<Rightarrow> nat \<Rightarrow> 't option"
  sl_modify :: "'s \<Rightarrow> nat \<Rightarrow> ('t \<Rightarrow> 't) \<Rightarrow> 's"
  sl_try_remove :: "'s \<Rightarrow> nat \<Rightarrow> 's \<times> 't option"
  sl_iter :: "'s \<Rightarrow> (nat \<times> 't) list"
  sl_retain :: "'s \<Rightarrow> (nat \<Rightarrow> 't \<Rightarrow> bool) \<Rightarrow> 's"
  sl_is_empty :: "'s \<Rightarrow> bool"

text \<open>What its documentation says of the operations.\<close>

locale slab_crate =
  fixes S :: "('s, 't) slab_api"
  assumes get_new: "sl_get S (sl_new S) k = None"
    and vacant: "sl_get S s (sl_vacant_key S s) = None"
    and get_insert: "sl_get S (sl_insert S s t) k = (if k = sl_vacant_key S s then Some t else sl_get S s k)"
    and get_modify: "sl_get S (sl_modify S s j f) k = (if k = j then map_option f (sl_get S s k) else sl_get S s k)"
    and try_remove: "snd (sl_try_remove S s k) = sl_get S s k"
    and get_try_remove: "sl_get S (fst (sl_try_remove S s j)) k = (if k = j then None else sl_get S s k)"
    and iter: "(k, t) \<in> set (sl_iter S s) \<longleftrightarrow> sl_get S s k = Some t"
    and get_retain: "sl_get S (sl_retain S s P) k = (case sl_get S s k of None \<Rightarrow> None | Some t \<Rightarrow> if P k t then Some t else None)"
    and is_empty: "sl_is_empty S s \<longleftrightarrow> (\<forall>k. sl_get S s k = None)"
begin

lemmas slab_simps = get_new get_insert get_modify get_try_remove get_retain try_remove

end

text \<open>A vector of entries, as the crate has it; a vacant entry is \<open>None\<close>.\<close>

definition vec_get :: "'t option list \<Rightarrow> nat \<Rightarrow> 't option" where
  "vec_get s k = (if k < length s then s ! k else None)"

fun vec_vacant :: "'t option list \<Rightarrow> nat" where
  "vec_vacant [] = 0"
| "vec_vacant (None # s) = 0"
| "vec_vacant (Some t # s) = Suc (vec_vacant s)"

definition vec_set :: "'t option list \<Rightarrow> nat \<Rightarrow> 't option \<Rightarrow> 't option list" where
  "vec_set s k v = (if k < length s then s[k := v] else if k = length s \<and> v \<noteq> None then s @ [v] else s)"

definition vec_slab :: "('t option list, 't) slab_api" where
  "vec_slab =
     \<lparr>sl_new = [], sl_vacant_key = vec_vacant, sl_insert = (\<lambda>s t. vec_set s (vec_vacant s) (Some t)),
      sl_get = vec_get, sl_modify = (\<lambda>s k f. vec_set s k (map_option f (vec_get s k))),
      sl_try_remove = (\<lambda>s k. (vec_set s k None, vec_get s k)),
      sl_iter = (\<lambda>s. List.map_filter (\<lambda>k. map_option (Pair k) (s ! k)) [0..<length s]),
      sl_retain = (\<lambda>s P. map (\<lambda>k. case s ! k of None \<Rightarrow> None | Some t \<Rightarrow> if P k t then Some t else None) [0..<length s]),
      sl_is_empty = (\<lambda>s. list_all (\<lambda>e. e = None) s)\<rparr>"

lemma vec_vacant_le: "vec_vacant s \<le> length s"
  by (induction s rule: vec_vacant.induct) simp_all

lemma vec_vacant_None: "vec_get s (vec_vacant s) = None"
  by (induction s rule: vec_vacant.induct) (auto simp: vec_get_def)

lemma vec_get_set:
  "k \<le> length s \<Longrightarrow> vec_get (vec_set s k (Some t)) j = (if j = k then Some t else vec_get s j)"
  "vec_get (vec_set s k None) j = (if j = k then None else vec_get s j)"
  by (auto simp: vec_get_def vec_set_def nth_append)

interpretation vec: slab_crate vec_slab
proof unfold_locales
  fix s :: "'t option list" and P :: "nat \<Rightarrow> 't \<Rightarrow> bool" and f :: "'t \<Rightarrow> 't" and t :: 't and j k :: nat
  show "sl_get vec_slab (sl_new vec_slab) k = None" by (simp add: vec_slab_def vec_get_def)
  show "sl_get vec_slab s (sl_vacant_key vec_slab s) = None" by (simp add: vec_slab_def vec_vacant_None)
  show "sl_get vec_slab (sl_insert vec_slab s t) k = (if k = sl_vacant_key vec_slab s then Some t else sl_get vec_slab s k)"
    by (simp add: vec_slab_def vec_get_set vec_vacant_le)
  show "sl_get vec_slab (sl_modify vec_slab s j f) k =
      (if k = j then map_option f (sl_get vec_slab s k) else sl_get vec_slab s k)"
    by (cases "vec_get s j") (auto simp: vec_slab_def vec_get_set vec_get_def vec_set_def)
  show "snd (sl_try_remove vec_slab s k) = sl_get vec_slab s k" by (simp add: vec_slab_def)
  show "sl_get vec_slab (fst (sl_try_remove vec_slab s j)) k = (if k = j then None else sl_get vec_slab s k)"
    by (simp add: vec_slab_def vec_get_set)
  show "(k, t) \<in> set (sl_iter vec_slab s) \<longleftrightarrow> sl_get vec_slab s k = Some t"
    by (force simp: vec_slab_def vec_get_def List.map_filter_def image_iff)
  show "sl_get vec_slab (sl_retain vec_slab s P) k =
      (case sl_get vec_slab s k of None \<Rightarrow> None | Some t \<Rightarrow> if P k t then Some t else None)"
    by (auto simp: vec_slab_def vec_get_def split: option.split)
  show "sl_is_empty vec_slab s \<longleftrightarrow> (\<forall>k. sl_get vec_slab s k = None)"
    by (auto simp: vec_slab_def vec_get_def list_all_length)
qed

section \<open>Connection tasks\<close>

text \<open>
  The endpoint's side of a task: its channel (the datagrams not yet taken), whether the task
  has ended, its handle and the peer; \<open>ct_conn\<close> is the connection the task owns.
\<close>

record 'addr connection_task =
  ct_inbox :: "(instant \<times> bytes) list"
  ct_finished :: bool
  ct_handle :: nat
  ct_remote :: 'addr
  ct_conn :: connection

definition with_connection :: "connection \<Rightarrow> nat \<Rightarrow> 'addr \<Rightarrow> 'addr connection_task" where
  "with_connection c handle remote =
     \<lparr>ct_inbox = [], ct_finished = False, ct_handle = handle, ct_remote = remote, ct_conn = c\<rparr>"

definition task_new :: "instant \<Rightarrow> nat \<Rightarrow> 'addr \<Rightarrow> side \<Rightarrow> 'addr connection_task" where
  "task_new now handle remote s = with_connection (conn_new s now) handle remote"

definition is_alive :: "'addr connection_task \<Rightarrow> bool" where
  "is_alive t = (\<not> ct_finished t)"

text \<open>\<open>data_tx.send(..).ok()\<close>: nothing happens when the task has dropped the receiver.\<close>

definition data_send :: "instant \<times> bytes \<Rightarrow> 'addr connection_task \<Rightarrow> 'addr connection_task" where
  "data_send d t = (if ct_finished t then t else t\<lparr>ct_inbox := ct_inbox t @ [d]\<rparr>)"

text \<open>
  The task runs one turn; it has ended when the connection is drained or when it panicked.
  Datagrams that arrive meanwhile are added before or after the turn.
\<close>

definition task_turn :: "bytes_api \<Rightarrow> (event \<Rightarrow> app_call list) \<Rightarrow> instant \<Rightarrow> (nat \<Rightarrow> instant option) \<Rightarrow> instant \<Rightarrow>
    'addr connection_task \<Rightarrow> 'addr connection_task" where
  "task_turn B app now sent_at woken t =
     (if ct_finished t then t
      else case run_turn B app now sent_at woken (ct_inbox t) (ct_conn t) of
        Ok (c, inbox, out) \<Rightarrow> t\<lparr>ct_conn := c, ct_inbox := inbox, ct_finished := (cn_state c = CDrained)\<rparr>
      | _ \<Rightarrow> t\<lparr>ct_finished := True\<rparr>)"

section \<open>The endpoint\<close>

record ('addr, 's) endpoint =
  ep_connections :: 's
  ep_routes :: "'addr \<Rightarrow> nat option"

definition endpoint_new :: "('s, 'addr connection_task) slab_api \<Rightarrow> ('addr, 's) endpoint" where
  "endpoint_new S = \<lparr>ep_connections = sl_new S, ep_routes = (\<lambda>_. None)\<rparr>"

text \<open>\<open>entry.insert\<close> and the route to it.\<close>

definition insert_task :: "('s, 'addr connection_task) slab_api \<Rightarrow> 'addr \<Rightarrow> 'addr connection_task \<Rightarrow>
    ('addr, 's) endpoint \<Rightarrow> ('addr, 's) endpoint" where
  "insert_task S addr t e =
     e\<lparr>ep_connections := sl_insert S (ep_connections e) t, ep_routes := (ep_routes e)(addr := Some (ct_handle t))\<rparr>"

definition start_connection :: "('s, 'addr connection_task) slab_api \<Rightarrow> instant \<Rightarrow> 'addr \<Rightarrow> ('addr, 's) endpoint \<Rightarrow> ('addr, 's) endpoint" where
  "start_connection S now addr e =
     insert_task S addr (task_new now (sl_vacant_key S (ep_connections e)) addr Client) e"

definition ep_connect :: "('s, 'addr connection_task) slab_api \<Rightarrow> instant \<Rightarrow> 'addr \<Rightarrow> ('addr, 's) endpoint \<Rightarrow> ('addr, 's) endpoint" where
  "ep_connect S now addr e =
     (if ep_routes e addr \<noteq> None then e else start_connection S now addr e)"

text \<open>\<open>created\<close> is the time \<open>Connection::new\<close> reads itself.\<close>

definition accept_connection :: "('s, 'addr connection_task) slab_api \<Rightarrow> bytes_api \<Rightarrow> 'addr \<Rightarrow> bytes \<Rightarrow> instant \<Rightarrow> instant \<Rightarrow>
    ('addr, 's) endpoint \<Rightarrow> (('addr, 's) endpoint, unit) outcome" where
  "accept_connection S B addr packet now created e =
     (case header_decode B packet 0 SUPPORTED_VERSIONS of
        Err _ \<Rightarrow> Ok e
      | Panic \<Rightarrow> Panic
      | Ok (HInitial ih, payload) \<Rightarrow>
          (case handle_first_packet B now ih payload (conn_new Server created) of
             (c, Err _) \<Rightarrow> Ok e
           | (c, Panic) \<Rightarrow> Panic
           | (c, Ok _) \<Rightarrow> Ok (insert_task S addr (with_connection c (sl_vacant_key S (ep_connections e)) addr) e))
      | Ok (_, payload) \<Rightarrow> Ok e)"

definition remove_connection :: "('s, 'addr connection_task) slab_api \<Rightarrow> nat \<Rightarrow> ('addr, 's) endpoint \<Rightarrow> ('addr, 's) endpoint" where
  "remove_connection S ch e =
     (case sl_try_remove S (ep_connections e) ch of
        (s, Some t) \<Rightarrow> e\<lparr>ep_connections := s, ep_routes := (ep_routes e)(ct_remote t := None)\<rparr>
      | (s, None) \<Rightarrow> e\<lparr>ep_connections := s\<rparr>)"

definition dispatch_datagram :: "('s, 'addr connection_task) slab_api \<Rightarrow> bytes_api \<Rightarrow> bytes \<Rightarrow> 'addr \<Rightarrow> instant \<Rightarrow> instant \<Rightarrow>
    ('addr, 's) endpoint \<Rightarrow> (('addr, 's) endpoint, unit) outcome" where
  "dispatch_datagram S B data addr now created e =
     (case ep_routes e addr of
        Some ch \<Rightarrow>
          (case sl_get S (ep_connections e) ch of
             None \<Rightarrow> Panic
           | Some t \<Rightarrow> Ok (e\<lparr>ep_connections := sl_modify S (ep_connections e) ch (data_send (now, data))\<rparr>))
      | None \<Rightarrow> accept_connection S B addr data now created e)"

text \<open>
  The branch of \<open>run\<close> that runs every second: the closure given to \<open>retain\<close> collects the
  identifiers of the dead connections.  The result also says whether the endpoint exits.
\<close>

definition check_close :: "('s, 'addr connection_task) slab_api \<Rightarrow> bool \<Rightarrow> ('addr, 's) endpoint \<Rightarrow> ('addr, 's) endpoint \<times> bool" where
  "check_close S exit e =
     (let removed = map fst (filter (\<lambda>(k, t). \<not> is_alive t) (sl_iter S (ep_connections e)));
          e = e\<lparr>ep_connections := sl_retain S (ep_connections e) (\<lambda>k t. is_alive t)\<rparr>;
          e = foldl (\<lambda>e k. remove_connection S k e) e removed in
      (e, exit \<and> sl_is_empty S (ep_connections e)))"

text \<open>The task with handle \<open>k\<close> runs a turn.\<close>

definition run_task :: "('s, 'addr connection_task) slab_api \<Rightarrow> bytes_api \<Rightarrow> (event \<Rightarrow> app_call list) \<Rightarrow> instant \<Rightarrow>
    (nat \<Rightarrow> instant option) \<Rightarrow> instant \<Rightarrow> nat \<Rightarrow> ('addr, 's) endpoint \<Rightarrow> ('addr, 's) endpoint" where
  "run_task S B app now sent_at woken k e =
     e\<lparr>ep_connections := sl_modify S (ep_connections e) k (task_turn B app now sent_at woken)\<rparr>"

text \<open>
  The loop of \<open>run\<close>.  What \<open>select!\<close> waits for comes from outside: a datagram (with the times
  read while it is dispatched), an error of the socket, or the tick of the interval; the turns of
  the tasks, which run beside the loop, are events of the same sequence.  One iteration gives the
  endpoint and whether the loop ends; the loop runs over the events until it ends or panics.
\<close>

datatype 'addr run_event =
    Datagram_In bytes 'addr instant instant
  | Recv_Error
  | Check_Tick
  | Task_Turn nat "event \<Rightarrow> app_call list" instant "nat \<Rightarrow> instant option" instant

fun run_iteration :: "('s, 'addr connection_task) slab_api \<Rightarrow> bytes_api \<Rightarrow> bool \<Rightarrow> 'addr run_event \<Rightarrow>
    ('addr, 's) endpoint \<Rightarrow> (('addr, 's) endpoint \<times> bool, unit) outcome" where
  "run_iteration S B exit (Datagram_In buf addr now created) e =
     (case dispatch_datagram S B buf addr now created e of
        Ok e \<Rightarrow> Ok (e, False) | Err u \<Rightarrow> Err u | Panic \<Rightarrow> Panic)"
| "run_iteration S B exit Recv_Error e = Ok (e, False)"
| "run_iteration S B exit Check_Tick e = Ok (check_close S exit e)"
| "run_iteration S B exit (Task_Turn k app now sent_at woken) e = Ok (run_task S B app now sent_at woken k e, False)"

fun ep_run :: "('s, 'addr connection_task) slab_api \<Rightarrow> bytes_api \<Rightarrow> bool \<Rightarrow> 'addr run_event list \<Rightarrow>
    ('addr, 's) endpoint \<Rightarrow> (('addr, 's) endpoint \<times> bool, unit) outcome" where
  "ep_run S B exit [] e = Ok (e, False)"
| "ep_run S B exit (ev # evs) e =
     (case run_iteration S B exit ev e of
        Ok (e, exited) \<Rightarrow> if exited then Ok (e, True) else ep_run S B exit evs e
      | Err u \<Rightarrow> Err u
      | Panic \<Rightarrow> Panic)"

section \<open>Routes and connections agree\<close>

text \<open>Every route leads to the connection of its address, and every connection has its route.\<close>

definition routes_ok :: "('s, 'addr connection_task) slab_api \<Rightarrow> ('addr, 's) endpoint \<Rightarrow> bool" where
  "routes_ok S e \<longleftrightarrow>
     (\<forall>addr ch. ep_routes e addr = Some ch \<longrightarrow> (\<exists>t. sl_get S (ep_connections e) ch = Some t \<and> ct_remote t = addr)) \<and>
     (\<forall>ch t. sl_get S (ep_connections e) ch = Some t \<longrightarrow> ep_routes e (ct_remote t) = Some ch \<and> ct_handle t = ch)"

text \<open>Every connection of the endpoint is one that can be reached.\<close>

definition tasks_ok :: "('s, 'addr connection_task) slab_api \<Rightarrow> bytes_api \<Rightarrow> ('addr, 's) endpoint \<Rightarrow> bool" where
  "tasks_ok S B e \<longleftrightarrow> (\<forall>ch t. sl_get S (ep_connections e) ch = Some t \<longrightarrow> conn_reach B (ct_conn t))"

text \<open>The counters of all connections are in range.\<close>

definition ep_roomy :: "('s, 'addr connection_task) slab_api \<Rightarrow> ('addr, 's) endpoint \<Rightarrow> bool" where
  "ep_roomy S e \<longleftrightarrow> (\<forall>ch t. sl_get S (ep_connections e) ch = Some t \<longrightarrow> roomy (ct_conn t))"

text \<open>The slab of an endpoint holds connection tasks.\<close>

locale task_slab = slab_crate S for S :: "('s, 'addr connection_task) slab_api"
begin

lemma new_ok: "routes_ok S (endpoint_new S)" "tasks_ok S B (endpoint_new S)"
  by (simp_all add: routes_ok_def tasks_ok_def endpoint_new_def get_new)

lemma insert_task_ok:
  assumes "routes_ok S e" "ep_routes e addr = None" "ct_handle t = sl_vacant_key S (ep_connections e)" "ct_remote t = addr"
  shows "routes_ok S (insert_task S addr t e)"
proof -
  have "ct_remote u \<noteq> addr" if "sl_get S (ep_connections e) ch = Some u" for ch u
    using assms(1,2) that by (auto simp: routes_ok_def)
  moreover have "ch \<noteq> sl_vacant_key S (ep_connections e)" if "ep_routes e a = Some ch" for a ch
    using assms(1) that vacant by (metis option.distinct(1) routes_ok_def)
  ultimately show ?thesis
    using assms unfolding routes_ok_def insert_task_def by (auto simp: get_insert split: if_splits)
qed

lemma connect_ok: "routes_ok S e \<Longrightarrow> routes_ok S (ep_connect S now addr e)"
  by (auto simp: ep_connect_def start_connection_def task_new_def with_connection_def intro!: insert_task_ok)

lemma modify_ok:
  assumes "routes_ok S e" "\<And>t. ct_remote (f t) = ct_remote t \<and> ct_handle (f t) = ct_handle t"
  shows "routes_ok S (e\<lparr>ep_connections := sl_modify S (ep_connections e) k f\<rparr>)"
  using assms unfolding routes_ok_def by (auto simp: get_modify split: if_splits) metis+

lemma data_send_fields [simp]:
  "ct_remote (data_send d t) = ct_remote t" "ct_handle (data_send d t) = ct_handle t" "ct_conn (data_send d t) = ct_conn t"
  by (simp_all add: data_send_def)

lemma task_turn_fields [simp]:
  "ct_remote (task_turn B app now sent_at woken t) = ct_remote t"
  "ct_handle (task_turn B app now sent_at woken t) = ct_handle t"
  by (simp_all add: task_turn_def split: outcome.split prod.split)

lemma run_task_ok: "routes_ok S e \<Longrightarrow> routes_ok S (run_task S B app now sent_at woken k e)"
  by (simp add: run_task_def modify_ok)

text \<open>What accepting a datagram from an unknown address comes to.\<close>

lemma accept_cases:
  assumes "accept_connection S B addr data now created e = Ok e'"
  obtains "e' = e" | ih payload c where "handle_first_packet B now ih payload (conn_new Server created) = (c, Ok ())"
    "e' = insert_task S addr (with_connection c (sl_vacant_key S (ep_connections e)) addr) e"
  using assms unfolding accept_connection_def
  by (auto split: outcome.splits prod.splits header.splits)

lemma dispatch_ok:
  assumes "routes_ok S e" "dispatch_datagram S B data addr now created e = Ok e'"
  shows "routes_ok S e'"
proof (cases "ep_routes e addr")
  case None
  then have "accept_connection S B addr data now created e = Ok e'" using assms(2) by (simp add: dispatch_datagram_def)
  then show ?thesis
    using assms(1) None by (cases rule: accept_cases) (auto simp: with_connection_def intro!: insert_task_ok)
next
  case (Some ch)
  then show ?thesis
    using assms by (auto simp: dispatch_datagram_def intro!: modify_ok split: option.splits)
qed

lemma remove_ok:
  assumes "routes_ok S e"
  shows "routes_ok S (remove_connection S ch e)"
proof (cases "sl_get S (ep_connections e) ch")
  case None
  then have "ep_routes e addr \<noteq> Some ch" for addr using assms by (fastforce simp: routes_ok_def)
  with None show ?thesis
    using assms by (auto simp: remove_connection_def routes_ok_def get_try_remove case_prod_unfold try_remove split: if_splits)
next
  case (Some t)
  have route: "ep_routes e (ct_remote t) = Some ch" using assms Some by (simp add: routes_ok_def)
  have other: "ct_remote u \<noteq> ct_remote t" if "sl_get S (ep_connections e) k = Some u" "k \<noteq> ch" for k u
  proof -
    have "ep_routes e (ct_remote u) = Some k" using assms that(1) unfolding routes_ok_def by blast
    then show ?thesis using route that(2) by auto
  qed
  have result: "ep_routes (remove_connection S ch e) = (ep_routes e)(ct_remote t := None)"
    "sl_get S (ep_connections (remove_connection S ch e)) k = (if k = ch then None else sl_get S (ep_connections e) k)" for k
    using Some by (simp_all add: remove_connection_def get_try_remove case_prod_unfold try_remove)
  have "ch' \<noteq> ch \<and> (\<exists>u. sl_get S (ep_connections e) ch' = Some u \<and> ct_remote u = addr)"
    if to: "ep_routes e addr = Some ch'" "addr \<noteq> ct_remote t" for addr ch'
  proof -
    obtain u where "sl_get S (ep_connections e) ch' = Some u" "ct_remote u = addr"
      using assms to(1) unfolding routes_ok_def by blast
    then show ?thesis using Some to(2) by auto
  qed
  moreover have "ep_routes e (ct_remote u) = Some k \<and> ct_handle u = k" if "sl_get S (ep_connections e) k = Some u" for k u
    using assms that unfolding routes_ok_def by blast
  ultimately show ?thesis unfolding routes_ok_def result using other by simp
qed

text \<open>Removing a connection that is gone already changes nothing.\<close>

lemma remove_gone:
  assumes "sl_get S (ep_connections e) k = None"
  shows "ep_routes (remove_connection S k e) = ep_routes e" "sl_get S (ep_connections (remove_connection S k e)) = sl_get S (ep_connections e)"
  using assms by (auto simp: remove_connection_def case_prod_unfold try_remove get_try_remove fun_eq_iff)

lemma remove_all_gone:
  assumes "\<forall>k\<in>set ks. sl_get S (ep_connections e) k = None"
  shows "ep_routes (foldl (\<lambda>e k. remove_connection S k e) e ks) = ep_routes e \<and>
    sl_get S (ep_connections (foldl (\<lambda>e k. remove_connection S k e) e ks)) = sl_get S (ep_connections e)"
  using assms
proof (induction ks arbitrary: e)
  case (Cons k ks)
  then show ?case using remove_gone [of e k] by simp
qed simp

text \<open>The periodic check forgets the dead connections, and no route.\<close>

lemma check_close_result:
  "ep_routes (fst (check_close S exit e)) = ep_routes e"
  "sl_get S (ep_connections (fst (check_close S exit e))) k =
     (case sl_get S (ep_connections e) k of None \<Rightarrow> None | Some t \<Rightarrow> if is_alive t then Some t else None)"
proof -
  let ?e = "e\<lparr>ep_connections := sl_retain S (ep_connections e) (\<lambda>k t. is_alive t)\<rparr>"
  let ?ks = "map fst (filter (\<lambda>(k, t). \<not> is_alive t) (sl_iter S (ep_connections e)))"
  have "\<forall>k\<in>set ?ks. sl_get S (ep_connections ?e) k = None" by (auto simp: iter get_retain)
  from remove_all_gone [OF this] show "ep_routes (fst (check_close S exit e)) = ep_routes e"
    "sl_get S (ep_connections (fst (check_close S exit e))) k =
       (case sl_get S (ep_connections e) k of None \<Rightarrow> None | Some t \<Rightarrow> if is_alive t then Some t else None)"
    by (simp_all add: check_close_def Let_def get_retain)
qed

lemma quiet_check_ok:
  assumes "routes_ok S e" "\<forall>k t. sl_get S (ep_connections e) k = Some t \<longrightarrow> is_alive t"
  shows "routes_ok S (fst (check_close S exit e))"
proof -
  have "sl_get S (ep_connections (fst (check_close S exit e))) k = sl_get S (ep_connections e) k" for k
    using assms(2) by (auto simp: check_close_result split: option.split)
  then show ?thesis using assms(1) by (simp add: routes_ok_def check_close_result)
qed

lemma insert_task_tasks: "tasks_ok S B e \<Longrightarrow> conn_reach B (ct_conn t) \<Longrightarrow> tasks_ok S B (insert_task S addr t e)"
  by (auto simp: tasks_ok_def insert_task_def get_insert)

lemma connect_tasks: "tasks_ok S B e \<Longrightarrow> tasks_ok S B (ep_connect S now addr e)"
  using conn_reach.new
  by (auto simp: ep_connect_def start_connection_def task_new_def with_connection_def intro!: insert_task_tasks)

lemma dispatch_tasks:
  assumes "tasks_ok S B e" "dispatch_datagram S B data addr now created e = Ok e'" "ep_roomy S e'"
  shows "tasks_ok S B e'"
proof (cases "ep_routes e addr")
  case None
  then have "accept_connection S B addr data now created e = Ok e'" using assms(2) by (simp add: dispatch_datagram_def)
  then show ?thesis
  proof (cases rule: accept_cases)
    case (2 ih payload c)
    then have "roomy c" using assms(3) by (auto simp: ep_roomy_def insert_task_def get_insert with_connection_def split: if_splits)
    then have "conn_reach B c" using conn_reach.first [OF 2(1)] by blast
    then show ?thesis using assms(1) 2(2) by (auto simp: with_connection_def intro!: insert_task_tasks)
  qed (use assms(1) in simp)
next
  case (Some ch)
  then show ?thesis
    using assms(1,2) by (auto simp: dispatch_datagram_def tasks_ok_def get_modify split: option.splits if_splits)
qed

lemma run_task_tasks:
  assumes "tasks_ok S B e" "ep_roomy S (run_task S B app now sent_at woken k e)"
  shows "tasks_ok S B (run_task S B app now sent_at woken k e)"
proof -
  have "conn_reach B (ct_conn (task_turn B app now sent_at woken t))"
    if "sl_get S (ep_connections e) k = Some t" for t
  proof -
    have t: "conn_reach B (ct_conn t)" using assms(1) that by (simp add: tasks_ok_def)
    have "roomy (ct_conn (task_turn B app now sent_at woken t))"
      using assms(2) [unfolded ep_roomy_def, rule_format, of k] that by (simp add: run_task_def get_modify)
    then show ?thesis
      using t reach_steps [OF run_turn_steps [of B app now sent_at woken "ct_inbox t" "ct_conn t"] t]
      by (auto simp: task_turn_def split: outcome.splits prod.splits if_splits)
  qed
  then show ?thesis using assms(1) by (auto simp: tasks_ok_def run_task_def get_modify split: if_splits)
qed

end

interpretation tasks: task_slab vec_slab ..

section \<open>Reachable endpoints\<close>

text \<open>
  Calls of \<open>connect\<close>, datagrams, turns of the tasks and checks that find no dead connection, in
  any order.
\<close>

inductive ep_reach :: "('s, 'addr connection_task) slab_api \<Rightarrow> bytes_api \<Rightarrow> ('addr, 's) endpoint \<Rightarrow> bool" for S B where
  new: "ep_reach S B (endpoint_new S)"
| connect: "ep_reach S B e \<Longrightarrow> ep_reach S B (ep_connect S now addr e)"
| datagram: "ep_reach S B e \<Longrightarrow> dispatch_datagram S B data addr now created e = Ok e' \<Longrightarrow> ep_roomy S e' \<Longrightarrow> ep_reach S B e'"
| turn: "ep_reach S B e \<Longrightarrow> e' = run_task S B app now sent_at woken k e \<Longrightarrow> ep_roomy S e' \<Longrightarrow> ep_reach S B e'"
| tick: "ep_reach S B e \<Longrightarrow> \<forall>k t. sl_get S (ep_connections e) k = Some t \<longrightarrow> is_alive t \<Longrightarrow>
    ep_reach S B (fst (check_close S exit e))"

lemma ep_reach_ok:
  assumes "slab_crate S" "ep_reach S B e"
  shows "routes_ok S e \<and> tasks_ok S B e"
proof -
  have ts: "task_slab S" using assms(1) by (simp add: task_slab_def)
  show ?thesis
    using assms(2)
  proof (induction rule: ep_reach.induct)
    case new
    then show ?case using task_slab.new_ok [OF ts] by blast
  next
    case (connect e now addr)
    then show ?case using task_slab.connect_ok [OF ts] task_slab.connect_tasks [OF ts] by blast
  next
    case (datagram e data addr now created e')
    then show ?case using task_slab.dispatch_ok [OF ts] task_slab.dispatch_tasks [OF ts] by blast
  next
    case (turn e e' app now sent_at woken k)
    then show ?case using task_slab.run_task_ok [OF ts] task_slab.run_task_tasks [OF ts] by blast
  next
    case (tick e exit)
    have "tasks_ok S B (fst (check_close S exit e))"
      using tick by (auto simp: tasks_ok_def task_slab.check_close_result [OF ts] split: option.splits if_splits)
    then show ?case using tick task_slab.quiet_check_ok [OF ts] by blast
  qed
qed

section \<open>Properties\<close>

text \<open>
  C11. Routes and connections of an endpoint agree in every state it can reach before a connection ends: every
  address with a route has a connection to exactly that peer, every connection is reached by the route of its
  peer under its own handle, and every connection satisfies its invariant.
\<close>

theorem endpoint_routes_ok:
  assumes "slab_crate S" "ep_reach S B e"
  shows "(\<forall>addr ch. ep_routes e addr = Some ch \<longrightarrow> (\<exists>t. sl_get S (ep_connections e) ch = Some t \<and> ct_remote t = addr)) \<and>
    (\<forall>ch t. sl_get S (ep_connections e) ch = Some t \<longrightarrow>
       ep_routes e (ct_remote t) = Some ch \<and> ct_handle t = ch \<and> conn_inv (ct_conn t))"
  using ep_reach_ok [OF assms] conn_reach_sound by (fastforce simp: routes_ok_def tasks_ok_def good_def)

theorem endpoint_routes_ok_witness:
  "\<exists>t. sl_get vec_slab (ep_connections (ep_connect vec_slab 0 (7 :: nat) (endpoint_new vec_slab))) 0 = Some t \<and> ct_remote t = 7"
proof -
  have "ep_reach vec_slab std_bytes (ep_connect vec_slab 0 (7 :: nat) (endpoint_new vec_slab))"
    by (intro ep_reach.connect ep_reach.new)
  from endpoint_routes_ok [OF vec.slab_crate_axioms this] show ?thesis
    by (simp add: ep_connect_def endpoint_new_def start_connection_def insert_task_def task_new_def with_connection_def vec_slab_def)
qed



text \<open>
  C13. The loop of the endpoint ends when it should: it ends only with the exit flag and when no connection is left,
  and with the flag the first check that finds all tasks ended does end it, whatever events follow.
\<close>

theorem endpoint_run_exits:
  assumes "slab_crate S"
  shows "(ep_run S B exit evs e = Ok (e', True) \<longrightarrow> exit \<and> (\<forall>k. sl_get S (ep_connections e') k = None)) \<and>
    ((\<forall>k t. sl_get S (ep_connections e) k = Some t \<longrightarrow> ct_finished t) \<longrightarrow>
      (\<exists>e'. ep_run S B True (Check_Tick # evs) e = Ok (e', True)))"
proof -
  have ts: "task_slab S" using assms by (simp add: task_slab_def)
  note empty = slab_crate.is_empty [OF assms]
  have "exit \<and> (\<forall>k. sl_get S (ep_connections e') k = None)" if "ep_run S B exit evs e = Ok (e', True)"
    using that
  proof (induction evs arbitrary: e)
    case (Cons ev evs)
    then obtain e1 exited where i: "run_iteration S B exit ev e = Ok (e1, exited)"
      "if exited then e1 = e' else ep_run S B exit evs e1 = Ok (e', True)"
      by (auto split: outcome.splits if_splits)
    show ?case
    proof (cases exited)
      case True
      then have "ev = Check_Tick" using i(1) by (cases ev) (auto split: outcome.splits)
      with True i show ?thesis by (auto simp: check_close_def Let_def empty)
    next
      case False
      with i(2) Cons.IH [of e1] show ?thesis by simp
    qed
  qed simp
  moreover have "\<exists>e'. ep_run S B True (Check_Tick # evs) e = Ok (e', True)"
    if fin: "\<forall>k t. sl_get S (ep_connections e) k = Some t \<longrightarrow> ct_finished t"
  proof -
    have "sl_get S (ep_connections (fst (check_close S True e))) k = None" for k
      using fin by (auto simp: task_slab.check_close_result [OF ts] is_alive_def split: option.split)
    then have "sl_is_empty S (ep_connections (fst (check_close S True e)))" by (simp add: empty)
    then have "snd (check_close S True e)" by (simp add: check_close_def Let_def)
    then show ?thesis by (cases "check_close S True e") simp
  qed
  ultimately show ?thesis by blast
qed

text \<open>A client whose connection was drained.\<close>

definition ended_client :: "(nat, nat connection_task option list) endpoint" where
  "ended_client = \<lparr>ep_connections = [Some ((task_new 0 0 7 Client)\<lparr>ct_finished := True\<rparr>)], ep_routes = [7 \<mapsto> 0]\<rparr>"

theorem endpoint_run_exits_witness:
  "\<exists>e'. ep_run vec_slab std_bytes True [Check_Tick, Recv_Error] ended_client = Ok (e', True)"
  by (rule endpoint_run_exits [OF vec.slab_crate_axioms, THEN conjunct2, THEN mp])
    (simp add: ended_client_def vec_slab_def vec_get_def)

text \<open>
  C40. The periodic check leaves the routes of the connections it removes behind: it empties the table with
  \<open>retain\<close> before \<open>remove_connection\<close> looks the connection up.  The next datagram from such a peer makes
  \<open>dispatch_datagram\<close> unwrap a missing connection, and the endpoint panics.
\<close>

theorem stale_route_panics:
  assumes "slab_crate S" "routes_ok S e" "sl_get S (ep_connections e) ch = Some t" "ct_finished t"
  shows "dispatch_datagram S B data (ct_remote t) now created (fst (check_close S exit e)) = Panic"
proof -
  have ts: "task_slab S" using assms(1) by (simp add: task_slab_def)
  have "ep_routes e (ct_remote t) = Some ch" using assms(2,3) by (simp add: routes_ok_def)
  then show ?thesis
    using assms(3,4) by (simp add: dispatch_datagram_def task_slab.check_close_result [OF ts] is_alive_def)
qed

theorem stale_route_panics_witness:
  "dispatch_datagram vec_slab std_bytes [1] 7 9 9 (fst (check_close vec_slab False ended_client)) = Panic"
proof -
  let ?t = "(task_new 0 0 7 Client)\<lparr>ct_finished := True\<rparr> :: nat connection_task"
  have "routes_ok vec_slab ended_client" "sl_get vec_slab (ep_connections ended_client) 0 = Some ?t"
    by (auto simp: routes_ok_def ended_client_def vec_slab_def vec_get_def task_new_def with_connection_def split: if_splits)
  from stale_route_panics [OF vec.slab_crate_axioms this, of std_bytes "[1]" 9 9 False] show ?thesis
    by (simp add: task_new_def with_connection_def)
qed

end
