(* ===== verification/Handshake_Run.thy ===== *)
theory Handshake_Run
  imports Message Endpoint
begin

text \<open>
  The handshake of two connections, over all layers: the client's first packet, the connection
  that the server's endpoint makes of it, the server's answer, and the client that receives it.
\<close>

section \<open>Sending the packet\<close>

text \<open>After the packet was sent it is watched in the Initial space; nothing else was sent.\<close>

lemma hello_send_next:
  assumes "sending_queue (cn_path c) = []" "sent_packets (cn_spaces c SInitial) = []"
    and d: "d = (hello_sent now packet n c)\<lparr>app_limited := l\<rparr>"
  shows "\<exists>d' p. send_next (Some at) d = Ok (d', Some packet) \<and> cn_state d' = cn_state c \<and> cn_side d' = cn_side c \<and>
    cn_streams d' = cn_streams c \<and> sent_packets (cn_spaces d' SInitial) = [(0, p)] \<and> sp_stream_frames p = [] \<and>
    next_packet_number (cn_spaces d' SInitial) = 1 \<and> hi (cn_spaces d' SInitial) \<and>
    largest_acked_packet (cn_spaces d' SInitial) = largest_acked_packet (cn_spaces c SInitial) \<and>
    rx_packet (cn_spaces d' SInitial) = rx_packet (cn_spaces c SInitial) \<and>
    ps_dedup (cn_spaces d' SInitial) = ps_dedup (cn_spaces c SInitial) \<and> cn_spaces d' SData = cn_spaces c SData"
  using assms(1,2) unfolding d
  by (auto simp: send_next_def send_one_def Let_def hello_sent_def stop_timer_def upd_acks_def upd_space_def ps_sent_def case_prod_unfold)

section \<open>Receiving the hello\<close>

lemma ack_first:
  assumes "sent_packets (cn_spaces c SInitial) = [(0, p)]" "sp_stream_frames p = []" "next_packet_number (cn_spaces c SInitial) = 1"
    "largest_acked_packet (cn_spaces c SInitial) = None" "ack_largest a = 0"
    "ack_ranges B a = (Ok [(0, 0)] :: (_, transport_error) outcome)"
  shows "\<exists>c'. on_ack_received B now SInitial a c = (c', Ok ()) \<and> cn_state c' = cn_state c \<and> cn_streams c' = cn_streams c \<and>
    sent_packets (cn_spaces c' SInitial) = [] \<and> hi (cn_spaces c' SInitial) = hi (cn_spaces c SInitial) \<and>
    cn_spaces c' SData = cn_spaces c SData"
proof -
  obtain d where d: "ack_packet SInitial (c, None) 0 = (d, Some p)" "cn_state d = cn_state c" "cn_streams d = cn_streams c"
    "sent_packets (cn_spaces d SInitial) = []" "hi (cn_spaces d SInitial) = hi (cn_spaces c SInitial)"
    "largest_acked_packet (cn_spaces d SInitial) = None" "cn_spaces d SData = cn_spaces c SData"
    using assms(1,2,4)
    by (auto simp: ack_packet_def ps_take_def Let_def case_prod_unfold upd_acks_def upd_space_def bt_remove_def split: option.split)
  show ?thesis
    using assms(3,4,5)
    by (simp add: on_ack_received_def assms(6) range_numbers_def d detect_lost_packets_def Let_def)
qed

lemma hello_handled:
  assumes "cn_state c = CHandshake"
  shows "\<exists>c'. early_frame B now SInitial (Crypto cr) c = (c', Ok True) \<and> cn_state c' = CEstablished \<and>
    cn_streams c' = (cn_streams c)\<lparr>st_events := st_events (cn_streams c) @ [Connected]\<rparr> \<and>
    cn_path c' = cn_path c \<and> cn_side c' = cn_side c \<and> (\<forall>k. k \<noteq> SInitial \<longrightarrow> cn_spaces c' k = cn_spaces c k) \<and>
    cn_spaces c' SInitial = (cn_spaces c SInitial)\<lparr>hi := True, ps_pending :=
      (if hi (cn_spaces c SInitial) then ps_pending (cn_spaces c SInitial) else (ps_pending (cn_spaces c SInitial))\<lparr>hello := True\<rparr>)\<rparr>"
  using assms by (auto simp: early_frame_def Let_def emit_def upd_space_def)

text \<open>A packet of the Initial space is recorded in its acknowledgements only.\<close>

lemma initial_authenticated:
  "\<exists>acks. on_packet_authenticated now SInitial (Some n) c =
     upd_space SInitial (\<lambda>s. s\<lparr>rx_packet := max n (rx_packet s), ps_pending_acks := acks\<rparr>) c \<and> immediate_ack_required acks \<and>
     pa_ranges acks = pa_ranges (pa_insert_one (ps_pending_acks (cn_spaces c SInitial)) n now)"
proof -
  obtain acks arm where a: "packet_received (ps_pending_acks (cn_spaces c SInitial)) now n True (ps_dedup (cn_spaces c SInitial)) = (acks, arm)"
    by force
  have "pa_ranges acks = pa_ranges (pa_insert_one (ps_pending_acks (cn_spaces c SInitial)) n now)"
    using a by (auto simp: packet_received_def Let_def split: if_splits)
  then show ?thesis
    by (intro exI [of _ "set_immediate_ack_required acks"])
      (auto simp: on_packet_authenticated_def a Let_def upd_acks_def upd_space_def set_immediate_ack_required_def max_def
        intro!: connection.equality packet_space.equality)
qed

lemma first_acked: "pa_ranges (pa_insert_one pending_acks_new 0 now) = [(0, 1)]"
  by (simp add: pa_insert_one_def pending_acks_new_def ars_insert_one_def ars_insert_def add64_def ars_len_def MAX_ACK_BLOCKS_def Let_def)

lemma first_expanded: "pn_expand (U8 0) 0 = 0" "pn_expand (U8 0) (Suc 0) = 0"
proof -
  have "pn_new 0 0 = (Ok (U8 0) :: (_, unit) outcome)" by (simp add: pn_new_def sub64_def mul64_def)
  from pn_new_expand [OF this] show "pn_expand (U8 0) 0 = 0" "pn_expand (U8 0) (Suc 0) = 0" by simp_all
qed

text \<open>The server's connection after the first packet has its own hello to send, and the client's to acknowledge.\<close>

lemma server_first:
  assumes "hello_packet B False packet"
  shows "\<exists>ih payload s. header_decode B packet 0 SUPPORTED_VERSIONS = Ok (HInitial ih, payload) \<and>
    handle_first_packet B now ih payload (conn_new Server created) = (s, Ok ()) \<and> hello_due True s \<and>
    cn_state s = CEstablished \<and> cn_streams s = (streams_new Server)\<lparr>st_events := [Connected]\<rparr> \<and> cn_side s = Server \<and>
    cn_path s = path_new created \<and> cn_spaces s SHandshake = packet_space_new created \<and> cn_spaces s SData = packet_space_new created \<and>
    sent_packets (cn_spaces s SInitial) = []"
proof -
  obtain payload where p: "\<And>len. header_decode B packet len SUPPORTED_VERSIONS = Ok (first_header, payload)"
    "payload_of B [Crypto (hello_frame B)] payload"
    using assms by (auto simp: hello_packet_def)
  obtain ih where ih: "first_header = HInitial ih" "ih_number ih = U8 0" by (simp add: packet_header_def)
  define c where "c = conn_new Server created"
  have c: "cn_spaces c k = packet_space_new created" "cn_streams c = streams_new Server" "cn_state c = CHandshake"
    "cn_path c = path_new created" "cn_side c = Server" for k
    by (simp_all add: c_def conn_new_def Let_def)
  obtain acks where acks: "on_packet_authenticated now SInitial (Some 0) c =
      upd_space SInitial (\<lambda>s. s\<lparr>rx_packet := max 0 (rx_packet s), ps_pending_acks := acks\<rparr>) c" "pa_ranges acks = [(0, 1)]"
    using initial_authenticated [of now 0 c] by (auto simp: c packet_space_new_def first_acked)
  define d where "d = on_packet_authenticated now SInitial (Some 0) c"
  have d: "cn_state d = CHandshake" "cn_streams d = streams_new Server" "cn_path d = path_new created" "cn_side d = Server"
    "\<And>k. k \<noteq> SInitial \<Longrightarrow> cn_spaces d k = packet_space_new created"
    "cn_spaces d SInitial = (packet_space_new created)\<lparr>ps_pending_acks := acks\<rparr>"
    by (simp_all add: d_def acks c packet_space_new_def)
  obtain s where s: "early_frame B now SInitial (Crypto (hello_frame B)) d = (s, Ok True)" "cn_state s = CEstablished"
    "cn_streams s = (streams_new Server)\<lparr>st_events := [Connected]\<rparr>" "cn_path s = path_new created" "cn_side s = Server"
    "\<And>k. k \<noteq> SInitial \<Longrightarrow> cn_spaces s k = packet_space_new created"
    "cn_spaces s SInitial = (packet_space_new created)\<lparr>ps_pending_acks := acks, hi := True, ps_pending := retransmits_default\<lparr>hello := True\<rparr>\<rparr>"
    using hello_handled [OF d(1), of B now "hello_frame B"] d(2-6) by (auto simp: streams_new_def packet_space_new_def)
  have "process_packet B now (Some 0) first_header payload d = (s, Ok ())"
    using process_frames_all [OF p(2)] s(1)
    by (simp add: process_packet_def process_early_payload_def packet_header_def map_err_def)
  then have "handle_first_packet B now ih payload (conn_new Server created) = (s, Ok ())"
    by (simp add: handle_first_packet_def ih(2) Let_def d_def c_def first_expanded ih(1) [symmetric])
  moreover have "hello_due True s"
    using acks(2)
    by (simp add: hello_due_def Let_def s idle_space_def space_can_send_def ps_can_send_def sendable_is_empty_def packet_space_new_def
        acks_can_send_def pending_acks_new_def retransmits_is_empty_def retransmits_default_def can_send_stream_data_def streams_new_def
        pending_queue_new_def pq_iter_def path_new_def reno_new_def in_flight_default_def INITIAL_MTU_def)
  ultimately show ?thesis
    using p(1) [of 0] ih(1) s by (auto simp: packet_space_new_def)
qed

lemma client_answered:
  assumes "hello_packet B True packet" "cn_state c = CHandshake" "cn_side c = Client" "hi (cn_spaces c SInitial)"
    "sent_packets (cn_spaces c SInitial) = [(0, p)]" "sp_stream_frames p = []" "next_packet_number (cn_spaces c SInitial) = 1"
    "largest_acked_packet (cn_spaces c SInitial) = None" "rx_packet (cn_spaces c SInitial) = 0"
    "ps_dedup (cn_spaces c SInitial) = dedup_new"
  shows "\<exists>c'. handle_data B now packet c = Ok c' \<and> cn_state c' = CEstablished \<and>
    cn_streams c' = (cn_streams c)\<lparr>st_events := st_events (cn_streams c) @ [Connected]\<rparr> \<and>
    sent_packets (cn_spaces c' SInitial) = [] \<and> cn_spaces c' SData = cn_spaces c SData"
proof -
  obtain payload a where p: "\<And>len. header_decode B packet len SUPPORTED_VERSIONS = Ok (first_header, payload)"
    "payload_of B [Ack a, Crypto (hello_frame B)] payload"
    "ack_largest a = 0" "ack_ranges B a = (Ok [(0, 0)] :: (_, transport_error) outcome)"
    using assms(1) by (auto simp: hello_packet_def)
  define c0 where "c0 = upd_space SInitial (\<lambda>s. s\<lparr>ps_dedup := fst (dedup_insert dedup_new 0)\<rparr>) c"
  define c1 where "c1 = on_packet_authenticated now SInitial (Some 0) c0"
  obtain acks where acks: "c1 = upd_space SInitial (\<lambda>s. s\<lparr>rx_packet := max 0 (rx_packet s), ps_pending_acks := acks\<rparr>) c0"
    using initial_authenticated [of now 0 c0] by (auto simp: c1_def)
  have c1: "sent_packets (cn_spaces c1 SInitial) = [(0, p)]" "next_packet_number (cn_spaces c1 SInitial) = 1"
    "largest_acked_packet (cn_spaces c1 SInitial) = None" "hi (cn_spaces c1 SInitial)" "cn_state c1 = CHandshake" "cn_streams c1 = cn_streams c"
    "cn_spaces c1 SData = cn_spaces c SData"
    using assms by (simp_all add: acks c0_def)
  obtain c2 where c2: "on_ack_received B now SInitial a c1 = (c2, Ok ())" "cn_state c2 = CHandshake" "cn_streams c2 = cn_streams c"
    "sent_packets (cn_spaces c2 SInitial) = []" "cn_spaces c2 SData = cn_spaces c SData"
    using ack_first [OF c1(1) assms(6) c1(2,3) p(3,4), of now] c1 by auto
  obtain c3 where c3: "early_frame B now SInitial (Crypto (hello_frame B)) c2 = (c3, Ok True)" "cn_state c3 = CEstablished"
    "cn_streams c3 = (cn_streams c)\<lparr>st_events := st_events (cn_streams c) @ [Connected]\<rparr>" "sent_packets (cn_spaces c3 SInitial) = []"
    "cn_spaces c3 SData = cn_spaces c SData"
    using hello_handled [OF c2(2), of B now "hello_frame B"] c2 by auto
  have "early_frame B now SInitial (Ack a) c1 = (c2, Ok True)" by (simp add: early_frame_def c2(1))
  then have "process_packet B now (Some 0) first_header payload c1 = (c3, Ok ())"
    using process_frames_all [OF p(2)] c3(1)
    by (simp add: process_packet_def process_early_payload_def packet_header_def map_err_def)
  moreover have "\<not> snd (dedup_insert dedup_new 0)" by (simp add: dedup_insert_def dedup_new_def checked_sub_def)
  moreover have "header_space first_header = SInitial" "header_number first_header = Some (U8 0)" "\<not> is_1rtt first_header"
    by (simp_all add: packet_header_def)
  moreover have "cn_state c0 = CHandshake" using assms(2) by (simp add: c0_def)
  ultimately have "handle_data B now packet c = settle now False False (c3, Ok ())"
    using assms(2,9,10) by (simp add: handle_data_def p(1) Let_def case_prod_unfold add64_def first_expanded c0_def [symmetric] c1_def [symmetric])
  then show ?thesis using c3 by (simp add: settle_def)
qed

text \<open>The server that has sent its hello can send more.\<close>

lemma hello_sender_ready:
  assumes "hello_due True s" "cn_state s = CEstablished" "cn_streams s = (streams_new Server)\<lparr>st_events := evs\<rparr>" "cn_side s = Server"
    "cn_path s = path_new created" "cn_spaces s SHandshake = packet_space_new created" "cn_spaces s SData = packet_space_new created"
    "sent_packets (cn_spaces s SInitial) = []" "n \<le> INITIAL_MTU"
    "send_next (Some at) ((hello_sent now packet n s)\<lparr>app_limited := l\<rparr>) = Ok (s2, Some packet)"
  shows "ready_to_send s2 \<and> cn_streams s2 = cn_streams s \<and> next_packet_number (cn_spaces s2 SData) = 0 \<and>
    largest_acked_packet (cn_spaces s2 SData) = None"
proof -
  note due = assms(1) [unfolded hello_due_def Let_def]
  have s2: "cn_state s2 = CEstablished" "cn_streams s2 = cn_streams s" "cn_side s2 = Server" "sending_queue (cn_path s2) = []"
    "congestion (cn_path s2) = reno_new created" "if_bytes (np_in_flight (cn_path s2)) \<le> INITIAL_MTU"
    "cn_spaces s2 SHandshake = packet_space_new created" "cn_spaces s2 SData = packet_space_new created"
    "ps_pending (cn_spaces s2 SInitial) = retransmits_default" "\<not> ping_pending (cn_spaces s2 SInitial)"
    "\<not> immediate_ack_pending (cn_spaces s2 SInitial)" "\<not> immediate_ack_required (ps_pending_acks (cn_spaces s2 SInitial))"
    using assms(2-10) due
    by (auto simp: send_next_def send_one_def Let_def hello_sent_def stop_timer_def upd_acks_def upd_space_def ps_sent_def case_prod_unfold
        path_new_def in_flight_insert_def in_flight_default_def acks_sent_def ars_max_def retransmits_default_def saturating_sub_def add64_def)
  have "quiet_space (cn_spaces s2 k)" for k
    using s2(7-12)
    by (cases k) (simp_all add: quiet_space_def sendable_is_empty_def ps_can_send_def packet_space_new_def retransmits_is_empty_def
        retransmits_default_def acks_can_send_def pending_acks_new_def)
  then have "ready_to_send s2"
    using s2(1-6,8) assms(3)
    by (simp add: ready_to_send_def quiet_streams_def streams_new_def pending_queue_new_def pq_iter_def reno_new_def INITIAL_MTU_def
        packet_space_new_def pending_acks_new_def acked_ok_def largest_acked_or_0_def)
  then show ?thesis using s2(2,8) by (simp add: packet_space_new_def)
qed

section \<open>Properties\<close>

text \<open>
  C5. A session works from the first packet on: the first poll of a new client gives one datagram; the endpoint of a server
  that has no connection to the sender makes an established connection of it, with the event \<open>Connected\<close>; the first poll of
  that connection gives one datagram, and the client that receives it is established, with the event \<open>Connected\<close>, and its own
  datagram is acknowledged.  A message that the server then writes on a new stream reaches the client's application.  This holds
  whatever the clocks of the two sides show.
\<close>

theorem session_works:
  assumes "bytes_crate B" "ep_routes e addr = None" "data \<noteq> []" "length data \<le> 1400" "length data \<le> max_length"
  shows "\<exists>c1 c2 request s s1 s2 answer c3.
    poll_transmit B t1 (conn_new Client t0) = (Ok (c1, False) :: (_, unit) outcome) \<and>
    send_next (Some t2) c1 = Ok (c2, Some request) \<and>
    dispatch_datagram S B request addr t4 t3 e = Ok (insert_task S addr (with_connection s (sl_vacant_key S (ep_connections e)) addr) e) \<and>
    cn_state s = CEstablished \<and> st_events (cn_streams s) = [Connected] \<and>
    poll_transmit B t5 s = (Ok (s1, False) :: (_, unit) outcome) \<and>
    send_next (Some t6) s1 = Ok (s2, Some answer) \<and>
    handle_data B t7 answer c2 = Ok c3 \<and>
    cn_state c3 = CEstablished \<and> st_events (cn_streams c3) = [Connected] \<and> sent_packets (cn_spaces c3 SInitial) = [] \<and>
    delivers B s2 c3 dir data max_length t8 t9 t10"
proof -
  define c where "c = conn_new Client t0"
  have c: "sending_queue (cn_path c) = []" "sent_packets (cn_spaces c SInitial) = []" "cn_state c = CHandshake" "cn_side c = Client"
    "largest_acked_packet (cn_spaces c SInitial) = None" "rx_packet (cn_spaces c SInitial) = 0"
    "ps_dedup (cn_spaces c SInitial) = dedup_new" "cn_streams c = streams_new Client" "cn_spaces c SData = packet_space_new t0"
    by (simp_all add: c_def conn_new_def Let_def upd_space_def path_new_def packet_space_new_def)
  obtain request n l where c1: "poll_transmit B t1 c = (Ok ((hello_sent t1 request n c)\<lparr>app_limited := l\<rparr>, False) :: (_, unit) outcome)"
    "hello_packet B False request"
    using hello_poll [OF assms(1) client_due [of t0], where now = t1 and 'e = unit] by (auto simp: c_def)
  obtain c2 p where c2: "send_next (Some t2) ((hello_sent t1 request n c)\<lparr>app_limited := l\<rparr>) = Ok (c2, Some request)"
    "cn_state c2 = CHandshake" "cn_side c2 = Client" "hi (cn_spaces c2 SInitial)"
    "sent_packets (cn_spaces c2 SInitial) = [(0, p)]" "sp_stream_frames p = []" "next_packet_number (cn_spaces c2 SInitial) = 1"
    "largest_acked_packet (cn_spaces c2 SInitial) = None" "rx_packet (cn_spaces c2 SInitial) = 0"
    "ps_dedup (cn_spaces c2 SInitial) = dedup_new" "cn_streams c2 = streams_new Client" "cn_spaces c2 SData = packet_space_new t0"
    using hello_send_next [OF c(1,2) refl, where at = t2 and now = t1 and packet = request and n = n and l = l] c(3-9) by auto
  obtain ih payload s where s: "header_decode B request 0 SUPPORTED_VERSIONS = Ok (HInitial ih, payload)"
    "handle_first_packet B t4 ih payload (conn_new Server t3) = (s, Ok ())" "hello_due True s"
    "cn_state s = CEstablished" "cn_streams s = (streams_new Server)\<lparr>st_events := [Connected]\<rparr>" "cn_side s = Server" "cn_path s = path_new t3"
    "cn_spaces s SHandshake = packet_space_new t3" "cn_spaces s SData = packet_space_new t3" "sent_packets (cn_spaces s SInitial) = []"
    using server_first [OF c1(2), of t4 t3] by blast
  have accept: "dispatch_datagram S B request addr t4 t3 e =
      Ok (insert_task S addr (with_connection s (sl_vacant_key S (ep_connections e)) addr) e)"
    using s(1,2) assms(2) by (simp add: dispatch_datagram_def accept_connection_def)
  obtain answer m k where s1: "poll_transmit B t5 s = (Ok ((hello_sent t5 answer m s)\<lparr>app_limited := k\<rparr>, False) :: (_, unit) outcome)"
    "m \<le> INITIAL_MTU" "hello_packet B True answer"
    using hello_poll [OF assms(1) s(3), where now = t5 and 'e = unit] by auto
  have "sending_queue (cn_path s) = []" by (simp add: s path_new_def)
  then obtain s2 where s2: "send_next (Some t6) ((hello_sent t5 answer m s)\<lparr>app_limited := k\<rparr>) = Ok (s2, Some answer)"
    using hello_send_next [OF _ s(10) refl, where at = t6 and now = t5 and packet = answer and n = m and l = k] by auto
  note ready = hello_sender_ready [OF s(3-10) s1(2) s2]
  obtain c3 where c3: "handle_data B t7 answer c2 = Ok c3" "cn_state c3 = CEstablished"
    "cn_streams c3 = (streams_new Client)\<lparr>st_events := [Connected]\<rparr>" "sent_packets (cn_spaces c3 SInitial) = []"
    "cn_spaces c3 SData = packet_space_new t0"
    using client_answered [OF s1(3) c2(2-10), of t7] c2(11,12) by (auto simp: streams_new_def)
  have "ready_to_receive s2 c3"
    using ready c3
    by (simp add: ready_to_receive_def s(5) streams_new_def packet_space_new_def largest_acked_or_0_def dedup_insert_def dedup_new_def checked_sub_def)
  then have "delivers B s2 c3 dir data max_length t8 t9 t10"
    using ready assms(1,3-5) by (intro message_delivered) (simp_all add: s(5) streams_new_def)
  then show ?thesis
    using c1(1) c2(1) accept s(4,5) s1(1) s2 c3(1,2,4) unfolding c_def
    by (intro exI conjI) (assumption | simp add: s(5) c3(3))+
qed

theorem session_works_witness:
  "\<exists>c1 c2 request s s1 s2 answer c3.
    poll_transmit std_bytes 1 (conn_new Client 0) = (Ok (c1, False) :: (_, unit) outcome) \<and>
    send_next (Some 2) c1 = Ok (c2, Some request) \<and>
    dispatch_datagram vec_slab std_bytes request (7 :: nat) 3 3 (endpoint_new vec_slab) =
      Ok (insert_task vec_slab 7 (with_connection s 0 7) (endpoint_new vec_slab)) \<and>
    cn_state s = CEstablished \<and> st_events (cn_streams s) = [Connected] \<and>
    poll_transmit std_bytes 5 s = (Ok (s1, False) :: (_, unit) outcome) \<and>
    send_next (Some 6) s1 = Ok (s2, Some answer) \<and>
    handle_data std_bytes 9 answer c2 = Ok c3 \<and>
    cn_state c3 = CEstablished \<and> st_events (cn_streams c3) = [Connected] \<and> sent_packets (cn_spaces c3 SInitial) = [] \<and>
    delivers std_bytes s2 c3 Bi [104, 105] 1024 10 11 12"
proof -
  have none: "ep_routes (endpoint_new vec_slab) (7 :: nat) = None" by (simp add: endpoint_new_def)
  have vacant: "sl_vacant_key vec_slab (ep_connections (endpoint_new vec_slab :: (nat, _) endpoint)) = 0"
    by (simp add: endpoint_new_def vec_slab_def)
  have "[104, 105] \<noteq> ([] :: u8 list)" "length ([104, 105] :: u8 list) \<le> 1400" "length ([104, 105] :: u8 list) \<le> 1024" by simp_all
  from session_works [OF std.bytes_crate_axioms none this, of 1 0 2 vec_slab 3 3 5 6 9 Bi 10 11 12] show ?thesis
    unfolding vacant .
qed

end
