(* ===== verification/Tail_Loss.thy ===== *)
theory Tail_Loss
  imports Handshake_Run
begin

text \<open>
  What the loss detection does not repair: packets above the largest acknowledged number are never
  declared lost, so a flight whose end is lost waits forever, however often the timer fires.
\<close>

section \<open>A flight without acknowledgement\<close>

text \<open>Nothing to send, and every packet that is watched is above the largest acknowledged one.\<close>

definition tail_unacked :: "connection \<Rightarrow> bool" where
  "tail_unacked c \<longleftrightarrow> \<not> is_closed (cn_state c) \<and> \<not> can_send_stream_data (cn_streams c) \<and> sending_queue (cn_path c) = [] \<and>
     (\<forall>k. quiet_space (cn_spaces c k)) \<and>
     (\<forall>k n p m. (n, p) \<in> set (sent_packets (cn_spaces c k)) \<longrightarrow> largest_acked_packet (cn_spaces c k) = Some m \<longrightarrow> m < n)"

text \<open>The timer fires and the task polls, once for every pair of times.\<close>

fun retry :: "bytes_api \<Rightarrow> (instant \<times> instant) list \<Rightarrow> connection \<Rightarrow> (connection, unit) outcome" where
  "retry B [] c = Ok c"
| "retry B ((fired, now) # ts) c =
     bindO (poll_transmit B now (handle_timeout LossDetection fired c)) (\<lambda>(c, again). retry B ts c)"

definition same_flight :: "connection \<Rightarrow> connection \<Rightarrow> bool" where
  "same_flight c c' \<longleftrightarrow> tail_unacked c' \<and> (\<forall>k. sent_packets (cn_spaces c' k) = sent_packets (cn_spaces c k))"

lemma tail_detect:
  assumes "tail_unacked c"
  shows "same_flight c (detect_lost_packets now sid c)"
proof -
  have "takeWhile (\<lambda>(n, p). n \<le> m) (sent_packets (cn_spaces c sid)) = []" if "largest_acked_packet (cn_spaces c sid) = Some m" for m
  proof (cases "sent_packets (cn_spaces c sid)")
    case (Cons x xs)
    then have "m < fst x" using assms that by (cases x) (force simp: tail_unacked_def)
    then show ?thesis using Cons by (simp add: case_prod_unfold)
  qed simp
  then have "\<exists>t. detect_lost_packets now sid c = upd_space sid (\<lambda>s. s\<lparr>loss_time := t\<rparr>) c"
    by (auto simp: detect_lost_packets_def Let_def split: option.split)
  then obtain t where t: "detect_lost_packets now sid c = upd_space sid (\<lambda>s. s\<lparr>loss_time := t\<rparr>) c" by blast
  show ?thesis
    unfolding t using assms by (auto simp: same_flight_def tail_unacked_def quiet_space_def ps_can_send_def)
qed

lemma same_flight_trans: "same_flight a b \<Longrightarrow> same_flight b c \<Longrightarrow> same_flight a c"
  by (simp add: same_flight_def)

lemma tail_timeout:
  assumes "tail_unacked c"
  shows "same_flight c (handle_timeout LossDetection now c)"
proof -
  have fold: "same_flight a (foldl (\<lambda>c sid. if ps_in_flight (cn_spaces c sid) > 0 then detect_lost_packets now sid c else c) b sids)"
    if "same_flight a b" for a b sids
    using that
  proof (induction sids arbitrary: b)
    case (Cons sid sids)
    then have "same_flight a (detect_lost_packets now sid b)" using tail_detect same_flight_trans same_flight_def by blast
    then show ?case using Cons by simp
  qed simp
  have timer: "same_flight a (set_loss_detection_timer b) = same_flight a b" for a b
    by (simp add: same_flight_def tail_unacked_def)
  have "same_flight c c" using assms by (simp add: same_flight_def)
  then show ?thesis
    using tail_detect [OF assms] by (auto simp: handle_timeout_def on_loss_detection_timeout_def timer fold split: option.split)
qed

lemma tail_poll: "tail_unacked c \<Longrightarrow> poll_transmit B now c = (Ok (c, False) :: (_, 'e) outcome)"
  by (cases "cn_state c")
    (auto simp: poll_transmit_unfold poll_space_def tail_unacked_def quiet_space_def space_can_send_def sendable_is_empty_def Let_def)

text \<open>The client that has sent its first packet.\<close>

lemma first_flight_tail:
  assumes "send_next (Some at) ((hello_sent now packet n (conn_new Client created))\<lparr>app_limited := l\<rparr>) = Ok (c2, Some packet)"
  shows "tail_unacked c2"
proof -
  note conn = conn_new_def Let_def upd_space_def path_new_def packet_space_new_def
  have c2: "cn_state c2 = CHandshake" "cn_streams c2 = streams_new Client" "sending_queue (cn_path c2) = []"
    "cn_spaces c2 SHandshake = packet_space_new created" "cn_spaces c2 SData = packet_space_new created"
    "largest_acked_packet (cn_spaces c2 SInitial) = None"
    "ps_pending (cn_spaces c2 SInitial) = retransmits_default" "\<not> ping_pending (cn_spaces c2 SInitial)"
    "\<not> immediate_ack_pending (cn_spaces c2 SInitial)" "\<not> immediate_ack_required (ps_pending_acks (cn_spaces c2 SInitial))"
    using assms
    by (auto simp: conn send_next_def send_one_def hello_sent_def stop_timer_def upd_acks_def ps_sent_def case_prod_unfold
        acks_sent_def ars_max_def retransmits_default_def pending_acks_new_def)
  have "quiet_space (cn_spaces c2 k)" for k
    using c2(4-10)
    by (cases k) (simp_all add: quiet_space_def sendable_is_empty_def ps_can_send_def packet_space_new_def retransmits_is_empty_def
        retransmits_default_def acks_can_send_def pending_acks_new_def)
  moreover have "largest_acked_packet (cn_spaces c2 k) = None" for k
    using c2(4-6) by (cases k) (simp_all add: packet_space_new_def)
  ultimately show ?thesis
    using c2(1-3)
    by (simp add: tail_unacked_def can_send_stream_data_def streams_new_def pending_queue_new_def pq_iter_def)
qed

section \<open>Properties\<close>

text \<open>
  C37. The end of a flight that is lost is not repeated: when every packet that is still watched is above the largest
  acknowledged one and there is nothing else to send, the loss detection timer may fire any number of times, and nothing is put
  into the queue: the same packets stay unacknowledged.  The comment in \<open>on_loss_detection_timeout\<close> says that it forces a retransmission.
\<close>

theorem lost_tail_not_repeated:
  assumes "tail_unacked c"
  shows "\<exists>c'. retry B ts c = Ok c' \<and> sending_queue (cn_path c') = [] \<and>
    (\<forall>k. sent_packets (cn_spaces c' k) = sent_packets (cn_spaces c k))"
proof -
  have "\<exists>c'. retry B ts d = Ok c' \<and> same_flight c c'" if "same_flight c d" for d
    using that
  proof (induction ts arbitrary: d)
    case (Cons x ts)
    obtain fired now where x: "x = (fired, now)" by force
    define e where "e = handle_timeout LossDetection fired d"
    have "same_flight c e"
      using Cons.prems tail_timeout same_flight_trans unfolding e_def same_flight_def by blast
    then show ?case
      using Cons.IH [of e] tail_poll [of e B now, where 'e = unit] by (auto simp: x same_flight_def simp flip: e_def)
  qed simp
  moreover have "same_flight c c" using assms by (simp add: same_flight_def)
  ultimately obtain c' where "retry B ts c = Ok c'" "same_flight c c'" by blast
  then show ?thesis by (auto simp: same_flight_def tail_unacked_def)
qed

text \<open>A client whose first packet is lost never sends it again.\<close>

theorem lost_tail_not_repeated_witness:
  "\<exists>c1 c2 request c'. poll_transmit std_bytes 1 (conn_new Client 0) = (Ok (c1, False) :: (_, unit) outcome) \<and>
    send_next (Some 2) c1 = Ok (c2, Some request) \<and> sent_packets (cn_spaces c2 SInitial) \<noteq> [] \<and>
    retry std_bytes [(1000000000, 1000000001), (3000000000, 3000000001)] c2 = Ok c' \<and> sending_queue (cn_path c') = [] \<and>
    (\<forall>k. sent_packets (cn_spaces c' k) = sent_packets (cn_spaces c2 k))"
proof -
  define c where "c = conn_new Client 0"
  obtain request n l where c1: "poll_transmit std_bytes 1 c = (Ok ((hello_sent 1 request n c)\<lparr>app_limited := l\<rparr>, False) :: (_, unit) outcome)"
    using hello_poll [OF std.bytes_crate_axioms client_due [of 0], where now = 1 and 'e = unit] by (auto simp: c_def)
  obtain c2 where c2: "send_next (Some 2) ((hello_sent 1 request n c)\<lparr>app_limited := l\<rparr>) = Ok (c2, Some request)"
    "sent_packets (cn_spaces c2 SInitial) \<noteq> []"
    using hello_send_next [where c = c, OF _ _ refl, where at = 2 and now = 1 and packet = request and n = n and l = l]
    by (auto simp: c_def conn_new_def Let_def upd_space_def path_new_def packet_space_new_def)
  have "tail_unacked c2" using first_flight_tail c2(1) unfolding c_def by blast
  obtain c' where "retry std_bytes [(1000000000, 1000000001), (3000000000, 3000000001)] c2 = Ok c'" "sending_queue (cn_path c') = []"
    "\<forall>k. sent_packets (cn_spaces c' k) = sent_packets (cn_spaces c2 k)"
    using lost_tail_not_repeated [OF \<open>tail_unacked c2\<close>] by blast
  then show ?thesis using c1 c2 unfolding c_def by blast
qed

end
