(* ===== verification/Applications.thy ===== *)
theory Applications
  imports Connection_Steps
begin

text \<open>
  The programs of \<open>src/bin/client.rs\<close> and \<open>src/bin/server.rs\<close>: the handlers they install, which
  the task of a connection calls with every event.  A handler keeps what its closure captures
  as its state, takes the time at which it may close the connection, and returns the connection
  after its calls; \<open>unwrap\<close>, \<open>expect\<close>, \<open>assert_eq\<close> and \<open>unreachable\<close> panic.  Files are byte
  lists; the random error code of \<open>pingpong_stop\<close> is an argument.
\<close>

section \<open>Using the connection\<close>

text \<open>The calls that return an error, on which the programs that \<open>unwrap\<close> panic.\<close>

fun app_fails :: "app_call \<Rightarrow> connection \<Rightarrow> bool" where
  "app_fails (AppWrite sid data) c = (case (conn_write sid data c :: (_, unit) outcome) of Ok (_, Err _) \<Rightarrow> True | _ \<Rightarrow> False)"
| "app_fails (AppFinish sid) c = (case conn_finish sid c of Err _ \<Rightarrow> True | _ \<Rightarrow> False)"
| "app_fails (AppPriority sid p) c = (case sstream_set_priority (cn_streams c) sid p of Err _ \<Rightarrow> True | _ \<Rightarrow> False)"
| "app_fails (AppStop sid code) c = (case rstream_stop (cn_streams c) (data_pending c) sid code of Err _ \<Rightarrow> True | _ \<Rightarrow> False)"
| "app_fails _ c = False"

definition unwrapped :: "app_call \<Rightarrow> connection \<Rightarrow> (connection, unit) outcome" where
  "unwrapped a c = (if app_fails a c then Panic else app_exec a c)"

text \<open>\<open>open_stream\<close>, then calls on the new stream.\<close>

definition open_with :: "dir \<Rightarrow> (stream_id \<Rightarrow> app_call list) \<Rightarrow> connection \<Rightarrow> (connection \<times> stream_id, unit) outcome" where
  "open_with d calls c =
     bindO (conn_open_stream d c) (\<lambda>(c, sid).
     bindO (foldl (\<lambda>r a. bindO r (unwrapped a)) (Ok c) (calls sid)) (\<lambda>c. Ok (c, sid)))"

text \<open>
  The loops over \<open>chunks.next(n)\<close>: \<open>n\<close> is \<open>Suc m\<close>, it is never 0 in the programs.  The body
  returns its state and whether to go on.  Every chunk shortens what is buffered.
\<close>

datatype read_stop = StopEnd | StopErr read_error | StopBody

definition unread :: "chunks \<Rightarrow> nat" where
  "unread ch = (case ch_state ch of
     ChReadable rs \<Rightarrow> sum_list (map (\<lambda>b. Suc (length (buf_bytes b))) (asm_data (rcv_assembler rs)))
   | _ \<Rightarrow> 0)"

lemma chunks_next_shorter:
  assumes "chunks_next ch (Suc m) = Ok (ch', Ok (Some k))"
  shows "unread ch' < unread ch"
  using assms
  by (auto simp: chunks_next_def asm_read_def unread_def bindO_eq_Ok Let_def
      split: chunks_state.splits list.splits if_splits option.splits recv_state.splits)

function read_loop :: "nat \<Rightarrow> ('h \<Rightarrow> chunk \<Rightarrow> 'h \<times> bool) \<Rightarrow> 'h \<Rightarrow> chunks \<Rightarrow> ('h \<times> chunks \<times> read_stop, unit) outcome" where
  "read_loop m body h ch =
     (case (chunks_next ch (Suc m) :: (_, unit) outcome) of
        Ok (ch', Ok (Some k)) \<Rightarrow>
          (case body h k of
             (h', True) \<Rightarrow> read_loop m body h' ch'
           | (h', False) \<Rightarrow> Ok (h', ch', StopBody))
      | Ok (ch', Ok None) \<Rightarrow> Ok (h, ch', StopEnd)
      | Ok (ch', Err e) \<Rightarrow> Ok (h, ch', StopErr e)
      | _ \<Rightarrow> Panic)"
  by pat_completeness auto
termination
  by (relation "measure (\<lambda>(m, body, h, ch). unread ch)") (auto dest: chunks_next_shorter)

declare read_loop.simps [simp del]

text \<open>
  \<open>conn.recv_stream(id).read(true)\<close> and such a loop; \<open>None\<close> stands for an error of \<open>read\<close>.
\<close>

definition read_with :: "nat \<Rightarrow> ('h \<Rightarrow> chunk \<Rightarrow> 'h \<times> bool) \<Rightarrow> 'h \<Rightarrow> stream_id \<Rightarrow> connection \<Rightarrow>
    (connection \<times> ('h \<times> read_stop) option, unit) outcome" where
  "read_with m body h sid c =
     (if \<not> may_recv c sid then Panic
      else case chunks_new (cn_streams c) sid True of
        (st, Panic) \<Rightarrow> Panic
      | (st, Err e) \<Rightarrow> Ok (c\<lparr>cn_streams := st\<rparr>, None)
      | (st, Ok ch) \<Rightarrow>
          bindO (read_loop m body h ch) (\<lambda>(h, ch, stop).
          Ok (c\<lparr>cn_streams := chunks_drop st ch\<rparr>, Some (h, stop))))"

text \<open>\<open>n\<close> calls of \<open>write\<close>, each unwrapped.\<close>

fun write_times :: "nat \<Rightarrow> stream_id \<Rightarrow> bytes \<Rightarrow> connection \<Rightarrow> (connection, unit) outcome" where
  "write_times 0 sid data c = Ok c"
| "write_times (Suc n) sid data c = bindO (unwrapped (AppWrite sid data) c) (write_times n sid data)"

definition USIZE_MAX_PRED :: nat where "USIZE_MAX_PRED = 2 ^ 64 - 2"

definition text_bytes :: "string \<Rightarrow> bytes" where
  "text_bytes s = map of_char s"

section \<open>Clients\<close>

text \<open>\<open>pingpong\<close>: the state is how many pings are left.\<close>

fun ping_loop :: "stream_id \<Rightarrow> nat \<Rightarrow> nat \<Rightarrow> connection \<Rightarrow> (nat \<times> connection, unit) outcome" where
  "ping_loop sid (Suc cnt) (Suc remaining) c =
     bindO (unwrapped (AppWrite sid (text_bytes ''ping'')) c) (ping_loop sid cnt remaining)"
| "ping_loop sid cnt remaining c = Ok (remaining, c)"

definition client_pingpong :: "instant \<Rightarrow> nat \<Rightarrow> event \<Rightarrow> connection \<Rightarrow> (nat \<times> connection, unit) outcome" where
  "client_pingpong now remaining ev c =
     bindO (case ev of
         Connected \<Rightarrow> bindO (open_with Bi (\<lambda>sid. [AppWrite sid (text_bytes ''ping'')]) c) (\<lambda>(c, sid). Ok (c, (None, 0), False))
       | StreamEv (Readable sid) \<Rightarrow>
           bindO (read_with 3 (\<lambda>(rcv, cnt) k. ((Some sid, Suc cnt), True)) (None, 0) sid c) (\<lambda>(c, r).
             case r of None \<Rightarrow> Panic | Some (rc, stop) \<Rightarrow> Ok (c, rc, stop = StopEnd))
       | _ \<Rightarrow> Ok (c, (None, 0), False)) (\<lambda>(c, (rcv, cnt), finished).
     if finished then Ok (remaining, conn_close now 0 (text_bytes ''byebye'') c)
     else case rcv of
       None \<Rightarrow> Ok (remaining, c)
     | Some sid \<Rightarrow>
         bindO (ping_loop sid cnt remaining c) (\<lambda>(remaining, c).
         if remaining = 0 then bindO (unwrapped (AppFinish sid) c) (\<lambda>c. Ok (remaining, c))
         else Ok (remaining, c)))"

text \<open>\<open>pingpong_stop\<close>: the streams it opened.\<close>

record stop_stream =
  ss_id :: stream_id
  ss_to_send :: bytes
  ss_remain :: "nat option"
  ss_finished :: bool

text \<open>What the loop collects: the stream, how often to answer, and whether to reset.\<close>

definition stop_chunk :: "stop_stream \<times> nat \<times> bool \<Rightarrow> chunk \<Rightarrow> (stop_stream \<times> nat \<times> bool) \<times> bool" where
  "stop_chunk h k =
     (case h of (s, cnt, reset) \<Rightarrow>
        (case ss_remain s of
           Some (Suc n) \<Rightarrow> ((s\<lparr>ss_remain := Some n\<rparr>, Suc cnt, reset), True)
         | Some 0 \<Rightarrow> ((s, cnt, True), True)
         | None \<Rightarrow> ((s, Suc cnt, reset), True)))"

definition find_stream :: "('s \<Rightarrow> stream_id) \<Rightarrow> stream_id \<Rightarrow> 's list \<Rightarrow> nat option" where
  "find_stream f sid ss = (case filter (\<lambda>i. f (ss ! i) = sid) [0..<length ss] of [] \<Rightarrow> None | i # _ \<Rightarrow> Some i)"

definition stop_open :: "string \<Rightarrow> nat option \<Rightarrow> stop_stream list \<Rightarrow> connection \<Rightarrow> (stop_stream list \<times> connection, unit) outcome" where
  "stop_open msg remain ss c =
     bindO (open_with Bi (\<lambda>sid. [AppWrite sid (text_bytes msg)]) c) (\<lambda>(c, sid).
     Ok (ss @ [\<lparr>ss_id = sid, ss_to_send = text_bytes msg, ss_remain = remain, ss_finished = False\<rparr>], c))"

definition client_pingpong_stop :: "nat \<Rightarrow> instant \<Rightarrow> stop_stream list \<Rightarrow> event \<Rightarrow> connection \<Rightarrow> (stop_stream list \<times> connection, unit) outcome" where
  "client_pingpong_stop error_code now ss ev c =
     bindO (case ev of
         Connected \<Rightarrow> bindO (stop_open ''ping'' (Some 9) ss c) (\<lambda>(ss, c). Ok (ss, c, None))
       | StreamEv (Readable sid) \<Rightarrow>
           (case find_stream ss_id sid ss of
              None \<Rightarrow> Panic
            | Some i \<Rightarrow>
                let s = ss ! i in
                bindO (read_with (length (ss_to_send s) - 1) stop_chunk (s, 0, False) sid c) (\<lambda>(c, r).
                  case r of
                    None \<Rightarrow> Panic
                  | Some ((s, cnt, reset), stop) \<Rightarrow>
                      Ok (ss[i := (if stop = StopEnd then s\<lparr>ss_finished := True\<rparr> else s)], c, Some (s, cnt, reset))))
       | StreamEv (StStopped sid code) \<Rightarrow>
           if length ss \<le> 1 \<or> sid \<noteq> ss_id (ss ! 1) \<or> code \<noteq> error_code then Panic
           else Ok (ss[1 := (ss ! 1)\<lparr>ss_finished := True\<rparr>], c, None)
       | _ \<Rightarrow> Ok (ss, c, None)) (\<lambda>(ss, c, act).
     if length (filter ss_finished ss) = 2 then Ok (ss, conn_close now 0 (text_bytes ''byebye'') c)
     else case act of
       None \<Rightarrow> Ok (ss, c)
     | Some (s, cnt, reset) \<Rightarrow>
         bindO (write_times cnt (ss_id s) (ss_to_send s) c) (\<lambda>c.
         if \<not> reset then Ok (ss, c)
         else
           bindO (app_exec (AppReset (ss_id s) error_code) c) (\<lambda>c.
           if length ss \<ge> 2 then Ok (ss, c) else stop_open ''ping ping'' None ss c)))"

text \<open>\<open>cc\<close>, the receiver of a file: the state is what was written to the file.\<close>

definition client_cc :: "instant \<Rightarrow> bytes \<Rightarrow> event \<Rightarrow> connection \<Rightarrow> (bytes \<times> connection, unit) outcome" where
  "client_cc now file ev c =
     (case ev of
        StreamEv (Readable sid) \<Rightarrow>
          bindO (read_with USIZE_MAX_PRED (\<lambda>f k. (f @ chunk_bytes k, True)) file sid c) (\<lambda>(c, r).
            case r of
              None \<Rightarrow> Ok (file, c)
            | Some (file, stop) \<Rightarrow> Ok (file, if stop = StopEnd then conn_close now 0 (text_bytes ''finished'') c else c))
      | _ \<Rightarrow> Ok (file, c))"

text \<open>\<open>echo\<close>: two streams with a large message each; the first is reset, the second stopped.\<close>

record echo_stream =
  es_id :: stream_id
  es_bytes :: nat
  es_finished :: bool

definition LARGE_MESSAGE :: nat where "LARGE_MESSAGE = 1024000"

definition echo_open :: "int \<Rightarrow> echo_stream list \<times> connection \<Rightarrow> (echo_stream list \<times> connection, unit) outcome" where
  "echo_open prio h =
     (case h of (ss, c) \<Rightarrow>
        bindO (open_with Bi (\<lambda>sid. [AppPriority sid prio, AppWrite sid (replicate LARGE_MESSAGE 0), AppFinish sid]) c) (\<lambda>(c, sid).
        Ok (ss @ [\<lparr>es_id = sid, es_bytes = 0, es_finished = False\<rparr>], c)))"

definition client_echo :: "instant \<Rightarrow> echo_stream list \<Rightarrow> event \<Rightarrow> connection \<Rightarrow> (echo_stream list \<times> connection, unit) outcome" where
  "client_echo now ss ev c =
     bindO (case ev of
         Connected \<Rightarrow> bindO (echo_open 2 (ss, c)) (echo_open 1)
       | StreamEv (Readable sid) \<Rightarrow>
           (case find_stream es_id sid ss of
              None \<Rightarrow> Panic
            | Some i \<Rightarrow>
                bindO (read_with USIZE_MAX_PRED (\<lambda>n k. (add64 n (length (chunk_bytes k)), True)) (es_bytes (ss ! i)) sid c) (\<lambda>(c, r).
                  case r of
                    None \<Rightarrow> Ok (ss, c)
                  | Some (n, stop) \<Rightarrow>
                      Ok (ss[i := (ss ! i)\<lparr>es_bytes := n, es_finished := (es_finished (ss ! i) \<or> stop = StopEnd)\<rparr>], c)))
       | StreamEv (StStopped sid code) \<Rightarrow>
           if length ss \<le> 1 \<or> sid \<noteq> es_id (ss ! 1) \<or> code \<noteq> 0x7331 then Panic
           else Ok (ss[1 := (ss ! 1)\<lparr>es_finished := True\<rparr>], c)
       | _ \<Rightarrow> Ok (ss, c)) (\<lambda>(ss, c).
     if ss = [] then Panic
     else if \<not> es_finished (ss ! 0) then
       if es_bytes (ss ! 0) > LARGE_MESSAGE div 16
       then bindO (app_exec (AppReset (es_id (ss ! 0)) 0x1337) c) (\<lambda>c. Ok (ss, c)) else Ok (ss, c)
     else if length ss \<le> 1 then Panic
     else if \<not> es_finished (ss ! 1) then
       if es_bytes (ss ! 1) > LARGE_MESSAGE div 4
       then bindO (app_exec (AppStop (es_id (ss ! 1)) 0x7331) c) (\<lambda>c. Ok (ss, c)) else Ok (ss, c)
     else Ok (ss, conn_close now 0 (text_bytes ''byebye'') c))"

section \<open>Servers\<close>

definition server_pingpong :: "event \<Rightarrow> connection \<Rightarrow> (connection, unit) outcome" where
  "server_pingpong ev c =
     (case ev of
        StreamEv (Readable sid) \<Rightarrow>
          bindO (read_with 3 (\<lambda>n k. (Suc n, True)) 0 sid c) (\<lambda>(c, r).
            case r of
              None \<Rightarrow> Panic
            | Some (0, stop) \<Rightarrow> Ok c
            | Some (cnt, stop) \<Rightarrow>
                bindO (write_times cnt sid (text_bytes ''pong'') c) (\<lambda>c.
                if stop = StopEnd then unwrapped (AppFinish sid) c else Ok c))
      | _ \<Rightarrow> Ok c)"

text \<open>\<open>pingpong_stop\<close>: the error code of the client and the number of long pings.\<close>

definition server_stop_chunk :: "stream_id \<Rightarrow> bytes \<Rightarrow> nat option \<Rightarrow> nat \<times> app_call list \<Rightarrow> chunk \<Rightarrow> (nat \<times> app_call list) \<times> bool" where
  "server_stop_chunk sid reply code h k =
     (case h of (cnt, acts) \<Rightarrow>
        let cnt = (if reply = text_bytes ''pong pong'' then Suc cnt else cnt) in
        if cnt < 10 then ((cnt, acts @ [AppWrite sid reply]), True)
        else ((cnt, acts @ [AppStop sid (case code of None \<Rightarrow> 0 | Some n \<Rightarrow> n), AppFinish sid]), False))"

definition server_pingpong_stop :: "nat option \<times> nat \<Rightarrow> event \<Rightarrow> connection \<Rightarrow> ((nat option \<times> nat) \<times> connection, unit) outcome" where
  "server_pingpong_stop h ev c =
     (case h of (code, cnt) \<Rightarrow>
        bindO (case ev of
            StreamEv (Readable sid) \<Rightarrow>
              let reply = (if sid = 0 then text_bytes ''pong'' else text_bytes ''pong pong'') in
              bindO (read_with (length reply - 1) (server_stop_chunk sid reply code) (cnt, []) sid c) (\<lambda>(c, r).
                case r of
                  None \<Rightarrow> Panic
                | Some ((cnt, acts), StopEnd) \<Rightarrow> Panic
                | Some ((cnt, acts), StopErr (RReset n)) \<Rightarrow> Ok ((Some n, cnt), c, acts @ [AppFinish sid])
                | Some ((cnt, acts), _) \<Rightarrow> Ok ((code, cnt), c, acts))
          | StreamEv (StStopped sid n) \<Rightarrow> Ok ((code, cnt), c, [AppStop sid n])
          | _ \<Rightarrow> Ok ((code, cnt), c, [])) (\<lambda>(h, c, acts).
        bindO (app_execs acts c) (\<lambda>c. Ok (h, c))))"

text \<open>\<open>cc\<close>, the sender of a file.\<close>

definition server_cc :: "bytes \<Rightarrow> event \<Rightarrow> connection \<Rightarrow> (connection, unit) outcome" where
  "server_cc content ev c =
     (case ev of
        Connected \<Rightarrow> bindO (open_with Uni (\<lambda>sid. [AppWrite sid content, AppFinish sid]) c) (\<lambda>(c, sid). Ok c)
      | _ \<Rightarrow> Ok c)"

definition server_echo :: "event \<Rightarrow> connection \<Rightarrow> (connection, unit) outcome" where
  "server_echo ev c =
     (case ev of
        StreamEv (Readable sid) \<Rightarrow>
          bindO (read_with USIZE_MAX_PRED (\<lambda>_ k. (Some (chunk_bytes k), False)) None sid c) (\<lambda>(c, r).
            case r of
              None \<Rightarrow> Ok c
            | Some (_, StopEnd) \<Rightarrow> Panic
            | Some (data, StopBody) \<Rightarrow> app_exec (AppWrite sid (case data of None \<Rightarrow> [] | Some bs \<Rightarrow> bs)) c
            | Some (_, StopErr RBlocked) \<Rightarrow> Ok c
            | Some (_, StopErr (RReset n)) \<Rightarrow> unwrapped (AppFinish sid) c)
      | StreamEv (StStopped sid code) \<Rightarrow> unwrapped (AppStop sid code) c
      | _ \<Rightarrow> Ok c)"

section \<open>The programs only use the public calls\<close>

definition via_api :: "connection \<Rightarrow> connection \<Rightarrow> bool" where
  "via_api c c' \<longleftrightarrow> (\<exists>as. app_execs as c = Ok c')"

lemma app_execs_append: "app_execs (as @ bs) c = bindO (app_execs as c) (app_execs bs)"
  by (induction as arbitrary: c) (simp_all add: bindO_assoc cong: bindO_cong)

lemma via_api_refl [simp]: "via_api c c"
  unfolding via_api_def by (rule exI [of _ "[]"]) simp

lemma via_api_trans: "via_api c d \<Longrightarrow> via_api d e \<Longrightarrow> via_api c e"
  unfolding via_api_def by (auto simp: app_execs_append bindO_eq_Ok) (metis app_execs_append bindO_eq_Ok)

lemma via_app_exec: "via_api c0 c \<Longrightarrow> app_exec a c = Ok c' \<Longrightarrow> via_api c0 c'"
  by (rule via_api_trans) (auto simp: via_api_def intro!: exI [of _ "[a]"])

lemma post_app_exec: "via_api c0 c \<Longrightarrow> post (app_exec a c) (via_api c0)"
  by (auto simp: post_def intro: via_app_exec)

lemma post_app_execs: "via_api c0 c \<Longrightarrow> post (app_execs as c) (via_api c0)"
  by (auto simp: post_def via_api_def intro: via_api_trans [unfolded via_api_def])

lemma post_unwrapped: "via_api c0 c \<Longrightarrow> post (unwrapped a c) (via_api c0)"
  by (auto simp: post_def unwrapped_def intro: via_app_exec)

lemma via_close: "via_api c0 c \<Longrightarrow> via_api c0 (conn_close now code reason c)"
  by (rule via_app_exec [where a = "AppClose now code reason"]) simp_all

lemma post_open_with: "via_api c0 c \<Longrightarrow> post (open_with d calls c) (\<lambda>(c', sid). via_api c0 c')"
proof -
  assume c: "via_api c0 c"
  have calls: "post (foldl (\<lambda>r a. bindO r (unwrapped a)) r as) (via_api c0)" if "post r (via_api c0)" for r as
    using that by (induction as arbitrary: r) (auto intro: post_bind post_unwrapped)
  have opened: "via_api c0 c'" if "conn_open_stream d c = (Ok (c', sid) :: (_, unit) outcome)" for c' sid
    using via_app_exec [OF c, of "AppOpen d"] that by simp
  show ?thesis
    unfolding open_with_def
    by (rule post_bind [where Q = "\<lambda>(c', sid). via_api c0 c'"])
      (auto simp: post_def bindO_eq_Ok dest: opened dest!: calls [unfolded post_def, rule_format, rotated])
qed

text \<open>A loop over chunks is a sequence of calls of \<open>next\<close>.\<close>

lemma read_loop_calls:
  "read_loop m body h ch = Ok (h', ch', stop) \<Longrightarrow> \<exists>n. next_calls ch (replicate n (Suc m)) = (Ok ch' :: (_, unit) outcome)"
proof (induction m body h ch rule: read_loop.induct)
  case (1 m body h ch)
  obtain ch1 r where next_ch: "chunks_next ch (Suc m) = (Ok (ch1, r) :: (_, unit) outcome)"
    using "1.prems" by (subst (asm) read_loop.simps) (auto split: outcome.splits)
  show ?case
  proof (cases "\<exists>k h1. r = Ok (Some k) \<and> body h k = (h1, True)")
    case True
    then obtain k h1 where k: "r = Ok (Some k)" "body h k = (h1, True)" by blast
    have "read_loop m body h1 ch1 = Ok (h', ch', stop)"
      using "1.prems" by (subst (asm) read_loop.simps) (simp add: next_ch k)
    then obtain n where "next_calls ch1 (replicate n (Suc m)) = (Ok ch' :: (_, unit) outcome)"
      using "1.IH" [OF next_ch refl k(1) refl k(2) [symmetric] refl] by blast
    then show ?thesis by (intro exI [of _ "Suc n"]) (simp add: next_ch)
  next
    case False
    then have "ch' = ch1"
      using "1.prems" next_ch by (subst (asm) read_loop.simps) (auto split: outcome.splits option.splits prod.splits bool.splits)
    then show ?thesis by (intro exI [of _ "1"]) (simp add: next_ch)
  qed
qed

lemma post_read_with: "via_api c0 c \<Longrightarrow> post (read_with m body h sid c) (\<lambda>(c', r). via_api c0 c')"
proof -
  assume c: "via_api c0 c"
  have "via_api c c'" if read: "read_with m body h sid c = Ok (c', r)" for c' r
  proof -
    have may: "may_recv c sid" using read by (auto simp: read_with_def split: if_splits)
    obtain st res where new: "chunks_new (cn_streams c) sid True = (st, res)" by fastforce
    have "\<exists>lens. app_exec (AppRead sid True lens) c = Ok c'"
    proof (cases res)
      case (Ok ch)
      then obtain h' ch' stop where loop: "read_loop m body h ch = Ok (h', ch', stop)" "c' = c\<lparr>cn_streams := chunks_drop st ch'\<rparr>"
        using read may new by (auto simp: read_with_def bindO_eq_Ok)
      obtain n where "next_calls ch (replicate n (Suc m)) = (Ok ch' :: (_, unit) outcome)"
        using read_loop_calls [OF loop(1)] by blast
      then show ?thesis
        using may new Ok loop(2) by (intro exI [of _ "replicate n (Suc m)"]) (simp add: read_stream_def with_streams_def or_else_def)
    next
      case (Err e)
      then show ?thesis
        using read may new by (intro exI [of _ "[]"]) (simp add: read_with_def read_stream_def with_streams_def or_else_def)
    qed (use read may new in \<open>simp add: read_with_def\<close>)
    then show ?thesis using via_app_exec [OF via_api_refl] by blast
  qed
  then show ?thesis using via_api_trans [OF c] by (auto simp: post_def)
qed

lemma post_write_times: "via_api c0 c \<Longrightarrow> post (write_times n sid data c) (via_api c0)"
  by (induction n arbitrary: c) (auto intro!: post_Ok intro: post_bind post_unwrapped)

lemma post_ping_loop: "via_api c0 c \<Longrightarrow> post (ping_loop sid cnt remaining c) (\<lambda>(r, c'). via_api c0 c')"
proof (induction cnt arbitrary: remaining c)
  case (Suc cnt)
  then show ?case
    by (cases remaining) (auto intro!: post_Ok post_bind [OF post_unwrapped])
qed (simp add: post_Ok)

text \<open>From here on calls are opaque: results of calls, with an arbitrary continuation.\<close>

declare app_exec.simps [simp del] write_times.simps [simp del]

lemma post_after_read:
  assumes "via_api c0 c" "\<And>c' r. via_api c0 c' \<Longrightarrow> post (f (c', r)) P"
  shows "post (bindO (read_with m body h sid c) f) P"
  by (rule post_bind [OF post_read_with [OF assms(1)]]) (use assms(2) in auto)

lemma post_after_open:
  assumes "via_api c0 c" "\<And>c' sid. via_api c0 c' \<Longrightarrow> post (f (c', sid)) P"
  shows "post (bindO (open_with d calls c) f) P"
  by (rule post_bind [OF post_open_with [OF assms(1)]]) (use assms(2) in auto)

lemma post_after_call:
  assumes "via_api c0 c" "\<And>c'. via_api c0 c' \<Longrightarrow> post (f c') P"
  shows "post (bindO (unwrapped a c) f) P" "post (bindO (app_exec a c) f) P" "post (bindO (app_execs as c) f) P"
    "post (bindO (write_times n sid data c) f) P"
  by (rule post_bind, rule post_unwrapped post_app_exec post_app_execs post_write_times, rule assms, rule assms, assumption)+

lemmas program_intros = post_Ok post_Panic post_after_read post_after_open post_after_call via_close post_unwrapped post_app_exec
  post_write_times

lemma client_pingpong_api: "post (client_pingpong now remaining ev c) (\<lambda>(r, c'). via_api c c')"
proof -
  have loop: "post (bindO (ping_loop sid cnt remaining d) f) P"
    if "via_api c d" "\<And>r c'. via_api c c' \<Longrightarrow> post (f (r, c')) P" for sid cnt d f P
    by (rule post_bind [OF post_ping_loop [OF that(1)]]) (use that(2) in auto)
  show ?thesis
    unfolding client_pingpong_def
    by (rule post_bind [where Q = "\<lambda>(c', x). via_api c c'"])
      (auto split: event.split stream_event.split option.split intro!: program_intros loop)
qed

lemma stop_open_api: "via_api c0 c \<Longrightarrow> post (stop_open msg remain ss c) (\<lambda>(ss, c'). via_api c0 c')"
  unfolding stop_open_def by (auto intro!: program_intros)

lemma client_pingpong_stop_api: "post (client_pingpong_stop code now ss ev c) (\<lambda>(ss, c'). via_api c c')"
proof -
  have opened: "post (bindO (stop_open msg remain ss' d) f) P"
    if "via_api c d" "\<And>ss c'. via_api c c' \<Longrightarrow> post (f (ss, c')) P" for msg remain ss' d f P
    by (rule post_bind [OF stop_open_api [OF that(1)]]) (use that(2) in auto)
  show ?thesis
    unfolding client_pingpong_stop_def Let_def
    by (rule post_bind [where Q = "\<lambda>(ss, c', x). via_api c c'"])
      (auto split: event.split stream_event.split option.split intro!: program_intros opened stop_open_api)
qed

lemma client_cc_api: "post (client_cc now file ev c) (\<lambda>(f, c'). via_api c c')"
  unfolding client_cc_def
  by (auto split: event.split stream_event.split option.split intro!: program_intros)

lemma echo_open_api: "via_api c0 (snd h) \<Longrightarrow> post (echo_open prio h) (\<lambda>(ss, c'). via_api c0 c')"
  unfolding echo_open_def by (auto split: prod.split intro!: program_intros)

lemma client_echo_api: "post (client_echo now ss ev c) (\<lambda>(ss, c'). via_api c c')"
proof -
  have opened: "post (bindO (echo_open p (ss, c)) (echo_open q)) (\<lambda>(ss, c'). via_api c c')" for p q
    by (rule post_bind [OF echo_open_api [of c]]) (auto intro!: echo_open_api)
  show ?thesis
    unfolding client_echo_def
    by (rule post_bind [where Q = "\<lambda>(ss, c'). via_api c c'"])
      (auto split: event.split stream_event.split option.split intro!: program_intros opened)
qed

lemma server_pingpong_api: "post (server_pingpong ev c) (via_api c)"
  unfolding server_pingpong_def
  by (auto split: event.split stream_event.split option.split nat.split intro!: program_intros)

lemma server_pingpong_stop_api: "post (server_pingpong_stop h ev c) (\<lambda>(h, c'). via_api c c')"
proof (cases h)
  case (Pair code cnt)
  show ?thesis
    unfolding server_pingpong_stop_def Pair prod.case
    by (rule post_bind [where Q = "\<lambda>(h, c', acts). via_api c c'"])
      (auto simp: Let_def split: event.split stream_event.split option.split read_stop.split read_error.split
        intro!: program_intros)
qed

lemma server_cc_api: "post (server_cc content ev c) (via_api c)"
  unfolding server_cc_def by (auto split: event.split intro!: program_intros)

lemma server_echo_api: "post (server_echo ev c) (via_api c)"
  unfolding server_echo_def
  by (auto split: event.split stream_event.split option.split read_stop.split read_error.split intro!: program_intros)

section \<open>Receiving a file\<close>

lemma read_loop_file:
  assumes "ch_state ch = ChReadable rs" "ch_ordered ch" "asm_inv (rcv_assembler rs) f" "rcv_state rs = Recv sz"
  shows "\<exists>ch' n stop. read_loop m (\<lambda>file k. (file @ chunk_bytes k, True)) (map f [0..<asm_bytes_read (rcv_assembler rs)]) ch =
      Ok (map f [0..<n], ch', stop) \<and> asm_bytes_read (rcv_assembler rs) \<le> n \<and> ch_id ch' = ch_id ch \<and>
    (stop = StopEnd \<and> sz = Some n \<and> rcv_end rs = n \<and> ch_state ch' = ChFinished \<or>
     stop = StopErr RBlocked \<and> n \<notin> covered (asm_data (rcv_assembler rs)) \<and>
       (\<exists>rs'. ch_state ch' = ChReadable rs' \<and> asm_inv (rcv_assembler rs') f \<and> asm_bytes_read (rcv_assembler rs') = n))"
  using assms
proof (induction "unread ch" arbitrary: ch rs rule: less_induct)
  case less
  let ?a = "rcv_assembler rs"
  obtain a' res where read: "asm_read ?a (Suc m) True = (Ok (a', res) :: (_, unit) outcome)" "asm_inv a' f"
      "covered (asm_data a') = covered (asm_data ?a) - {..<asm_bytes_read a'}"
      "case res of None \<Rightarrow> a' = ?a \<and> asm_bytes_read ?a \<notin> covered (asm_data ?a)
       | Some c \<Rightarrow> chunk_bytes c = map f [asm_bytes_read ?a..<asm_bytes_read a'] \<and> asm_bytes_read ?a \<le> asm_bytes_read a'"
    using asm_read_spec [OF less.prems(3), of "Suc m", where 'e = unit] by (auto split: option.splits)
  show ?case
  proof (cases res)
    case None
    have same: "rs\<lparr>rcv_assembler := ?a\<rparr> = rs" by (cases rs) simp
    show ?thesis
      using less.prems None read same
      by (subst read_loop.simps) (auto simp: chunks_next_def Let_def)
  next
    case (Some k)
    let ?ch = "ch\<lparr>ch_state := ChReadable (rs\<lparr>rcv_assembler := a'\<rparr>), ch_read := add64 (ch_read ch) (length (chunk_bytes k))\<rparr>"
    have next_ch: "chunks_next ch (Suc m) = (Ok (?ch, Ok (Some k)) :: (_, unit) outcome)"
      using less.prems read Some by (simp add: chunks_next_def Let_def)
    have extended: "map f [0..<asm_bytes_read ?a] @ chunk_bytes k = map f [0..<asm_bytes_read a']"
      using read(4) Some le_add_diff_inverse [of "asm_bytes_read ?a" "asm_bytes_read a'"]
        upt_add_eq_append [of 0 "asm_bytes_read ?a" "asm_bytes_read a' - asm_bytes_read ?a"] by simp
    have "unread ?ch < unread ch" using chunks_next_shorter next_ch by blast
    from less.hyps [OF this, of "rs\<lparr>rcv_assembler := a'\<rparr>"] obtain ch' n stop where
      "read_loop m (\<lambda>file k. (file @ chunk_bytes k, True)) (map f [0..<asm_bytes_read a']) ?ch = Ok (map f [0..<n], ch', stop)"
      "asm_bytes_read a' \<le> n" "ch_id ch' = ch_id ch"
      "stop = StopEnd \<and> sz = Some n \<and> rcv_end rs = n \<and> ch_state ch' = ChFinished \<or>
       stop = StopErr RBlocked \<and> n \<notin> covered (asm_data a') \<and>
       (\<exists>rs'. ch_state ch' = ChReadable rs' \<and> asm_inv (rcv_assembler rs') f \<and> asm_bytes_read (rcv_assembler rs') = n)"
      using less.prems read(2) by auto
    moreover have "read_loop m (\<lambda>file k. (file @ chunk_bytes k, True)) (map f [0..<asm_bytes_read ?a]) ch =
        read_loop m (\<lambda>file k. (file @ chunk_bytes k, True)) (map f [0..<asm_bytes_read a']) ?ch"
      by (subst read_loop.simps) (simp add: next_ch extended)
    ultimately show ?thesis using read(3,4) Some by (auto intro!: exI [of _ n] intro: le_trans)
  qed
qed

section \<open>The programs\<close>

text \<open>What one of the programs may make of a connection when it is given an event.\<close>

inductive program_step :: "event \<Rightarrow> connection \<Rightarrow> connection \<Rightarrow> bool" where
  "client_pingpong now h ev c = Ok (h', c') \<Longrightarrow> program_step ev c c'"
| "client_pingpong_stop code now ss ev c = Ok (ss', c') \<Longrightarrow> program_step ev c c'"
| "client_cc now file ev c = Ok (file', c') \<Longrightarrow> program_step ev c c'"
| "client_echo now es ev c = Ok (es', c') \<Longrightarrow> program_step ev c c'"
| "server_pingpong ev c = Ok c' \<Longrightarrow> program_step ev c c'"
| "server_pingpong_stop sh ev c = Ok (sh', c') \<Longrightarrow> program_step ev c c'"
| "server_cc content ev c = Ok c' \<Longrightarrow> program_step ev c c'"
| "server_echo ev c = Ok c' \<Longrightarrow> program_step ev c c'"

lemmas programs_api = client_pingpong_api client_pingpong_stop_api client_cc_api client_echo_api server_pingpong_api
  server_pingpong_stop_api server_cc_api server_echo_api

lemma program_step_api: "program_step ev c c' \<Longrightarrow> via_api c c'"
  by (induction rule: program_step.induct) (drule programs_api [unfolded post_def, rule_format], simp)+

section \<open>Properties\<close>


text \<open>A server that has taken the first packet of a client, with a CRYPTO frame.\<close>

definition first_header :: initial_header where
  "first_header = \<lparr>ih_dst_cid = \<lparr>cid_len = 0, cid_bytes = []\<rparr>, ih_src_cid = \<lparr>cid_len = 0, cid_bytes = []\<rparr>,
     ih_token = [], ih_number = U8 0, ih_version = 1\<rparr>"

definition greeted :: connection where
  "greeted = fst (handle_first_packet std_bytes 1 first_header [6, 0, 1, 0] (conn_new Server 0))"

lemma crypto_item:
  "parser_next std_bytes \<lparr>fp_bytes = [6, 0, 1, 0], fp_last_ty = None\<rparr> =
     (Ok (\<lparr>fp_bytes = [], fp_last_ty = Some 6\<rparr>, Some (Ok (Crypto \<lparr>crypto_offset = 0, crypto_data = [0]\<rparr>))) :: (_, 'e) outcome)"
proof -
  have one: "try_get_varint std_bytes (b # buf) = Ok (unat b, buf)" if "varint_parse_len b = 1" "unat b < 64" for b buf
    using that by (simp add: try_get_varint_def try_get_uint_def std_bytes_def and_varint_max take_bit_eq_mod)
  have "parse_frame std_bytes 6 [0, 1, 0] = Ok (Crypto \<lparr>crypto_offset = 0, crypto_data = [0]\<rparr>, [])"
    using parse_frame_by_type(8) [of std_bytes "[0, 1, 0]"]
    by (simp add: CRYPTO_def one varint_parse_len_def try_get_bytes_with_varint_length_def)
  then show ?thesis by (simp add: parser_next_def try_next_def one varint_parse_len_def)
qed

lemma process_crypto:
  "process_packet std_bytes now num (HInitial ih) [6, 0, 1, 0] c =
     (fst (early_frame std_bytes now SInitial (Crypto \<lparr>crypto_offset = 0, crypto_data = [0]\<rparr>) c), Ok ())"
proof -
  have last_item: "frame_loop std_bytes handle \<lparr>fp_bytes = [], fp_last_ty = ty\<rparr> d = (d, Ok ())" for handle ty d
    by (subst frame_loop.simps) (simp add: parser_next_def)
  have "frame_loop std_bytes (early_frame std_bytes now SInitial) \<lparr>fp_bytes = [6, 0, 1, 0], fp_last_ty = None\<rparr> c =
      (fst (early_frame std_bytes now SInitial (Crypto \<lparr>crypto_offset = 0, crypto_data = [0]\<rparr>) c), Ok ())"
    by (subst frame_loop.simps) (simp add: crypto_item early_frame_def last_item Let_def)
  then show ?thesis
    by (simp add: process_packet_def process_early_payload_def process_frames_def frame_parser_new_def)
qed

lemma greeted_result: "handle_first_packet std_bytes 1 first_header [6, 0, 1, 0] (conn_new Server 0) = (greeted, Ok ())"
  "cn_state greeted = CEstablished" "st_events (cn_streams greeted) = [Connected]" "roomy greeted"
proof -
  define d where "d = on_packet_authenticated 1 SInitial (Some 0) (conn_new Server 0)"
  have zero: "pn_expand (U8 0) 0 = 0"
    by (simp add: pn_expand_def checked_sub_def add64_def Let_def)
  have first: "handle_first_packet std_bytes 1 first_header [6, 0, 1, 0] (conn_new Server 0) =
      (fst (early_frame std_bytes 1 SInitial (Crypto \<lparr>crypto_offset = 0, crypto_data = [0]\<rparr>) d), Ok ())"
    by (simp add: handle_first_packet_def first_header_def zero process_crypto Let_def d_def)
  show "handle_first_packet std_bytes 1 first_header [6, 0, 1, 0] (conn_new Server 0) = (greeted, Ok ())"
    by (simp add: greeted_def first [simplified])
  have greeted: "greeted = fst (early_frame std_bytes 1 SInitial (Crypto \<lparr>crypto_offset = 0, crypto_data = [0]\<rparr>) d)"
    by (simp add: greeted_def first [simplified])
  have d: "cn_state d = CHandshake" "st_events (cn_streams d) = []" "calm d greeted"
    using calm_early_frame by (simp_all add: d_def on_packet_authenticated_def conn_new_def Let_def streams_new_def
        case_prod_unfold greeted [unfolded d_def])
  show "cn_state greeted = CEstablished" "st_events (cn_streams greeted) = [Connected]"
    using d(1,2) by (simp_all add: greeted early_frame_def Let_def emit_def)
  have "roomy d"
    using conn_new_sound(3) [of Server 0]
    by (auto simp: roomy_def d_def on_packet_authenticated_def Let_def case_prod_unfold)
  then show "roomy greeted" using d(3) by (simp add: calm_def roomy_def)
qed



text \<open>A client that has received two bytes and the end of a file.\<close>

definition file_bytes :: "nat \<Rightarrow> u8" where
  "file_bytes i = (if i = 0 then 7 else 8)"

definition file_half :: recv where
  "file_half = \<lparr>rcv_state = Recv (Some 2),
     rcv_assembler = \<lparr>asm_state = Ordered, asm_data = [buffer_new 0 [7, 8] 2], buffered = 2, allocated = 2,
       asm_bytes_read = 0, asm_end = 2\<rparr>, rcv_end = 2, stopped = False\<rparr>"

definition file_client :: connection where
  "file_client = (conn_new Client 0)\<lparr>cn_streams := (streams_new Client)\<lparr>st_recv := [3 \<mapsto> file_half]\<rparr>\<rparr>"


text \<open>The echo client indexes its list of streams on every event, also when the connection is lost before it was established.\<close>

lemma echo_client_panics: "client_echo now [] (ConnectionLost e) c = Panic"
  by (simp add: client_echo_def)

end
