(* ===== verification/Programs.thy ===== *)
theory Programs
  imports Endpoint
begin

text \<open>
  How the programs start and end: the command line (\<open>src/lib.rs\<close>), the file that tells a client that
  the server is listening (\<open>src/file_notice_macos.rs\<close>), and the two \<open>main\<close> functions
  (\<open>src/bin/client.rs\<close>, \<open>server.rs\<close>).  A file system is the set of the paths that exist, a path the list of
  its components; whether a call of the operating system succeeds is an argument.
\<close>

section \<open>Command line\<close>

type_synonym path = "string list"
type_synonym file_system = "path set"

datatype program = StreamEcho | PingPong | PingPongStop | FileTransfer "path option"

record 'addr cli_arguments =
  cli_address :: 'addr
  cli_program :: program
  cli_file_lock :: "path option"

text \<open>The handlers a program may install; their code is in \<open>Applications\<close>.\<close>

datatype handler = H_pingpong | H_pingpong_stop | H_echo | H_cc

text \<open>\<open>FILE_PATH\<close> is set at most once; a second \<open>set\<close> fails and the error is dropped.\<close>

definition file_path_set :: "path \<Rightarrow> path option \<Rightarrow> path option" where
  "file_path_set path cell = (case cell of None \<Rightarrow> Some path | Some p \<Rightarrow> Some p)"

fun client_handler :: "program \<Rightarrow> path option \<Rightarrow> handler \<times> path option" where
  "client_handler PingPong cell = (H_pingpong, cell)"
| "client_handler PingPongStop cell = (H_pingpong_stop, cell)"
| "client_handler StreamEcho cell = (H_echo, cell)"
| "client_handler (FileTransfer path) cell =
     (H_cc, case path of Some path \<Rightarrow> file_path_set path cell | None \<Rightarrow> cell)"

fun server_handler :: "program \<Rightarrow> path option \<Rightarrow> handler \<times> path option" where
  "server_handler PingPong cell = (H_pingpong, cell)"
| "server_handler PingPongStop cell = (H_pingpong_stop, cell)"
| "server_handler StreamEcho cell = (H_echo, cell)"
| "server_handler (FileTransfer path) cell =
     (H_cc, case path of Some path \<Rightarrow> file_path_set path cell | None \<Rightarrow> cell)"

section \<open>The file marker\<close>

datatype file_wait_error = AlreadyExists | Io

definition path_parent :: "path \<Rightarrow> path option" where
  "path_parent path = (if path = [] then None else Some (butlast path))"

text \<open>\<open>fs::create_dir_all\<close> makes the directory and all above it.\<close>

definition create_dir_all :: "path \<Rightarrow> file_system \<Rightarrow> file_system" where
  "create_dir_all path fs = fs \<union> set (map (\<lambda>n. take n path) [0..<Suc (length path)])"

text \<open>\<open>FileMarker::new\<close>, where \<open>dir_ok\<close> and \<open>write_ok\<close> say which of the two calls succeed.\<close>

definition marker_new :: "path \<Rightarrow> bool \<Rightarrow> bool \<Rightarrow> file_system \<Rightarrow> file_system \<times> (path, file_wait_error) outcome" where
  "marker_new path dir_ok write_ok fs =
     (case path_parent path of
        Some parent \<Rightarrow>
          if \<not> dir_ok then (fs, Err Io)
          else
            let fs = create_dir_all parent fs in
            if write_ok then (insert path fs, Ok path) else (fs, Err Io)
      | None \<Rightarrow> if write_ok then (insert path fs, Ok path) else (fs, Err Io))"

definition marker_drop :: "path \<Rightarrow> bool \<Rightarrow> file_system \<Rightarrow> file_system" where
  "marker_drop path remove_ok fs = (if remove_ok then fs - {path} else fs)"

definition waiter_new :: "path \<Rightarrow> file_system \<Rightarrow> (path, file_wait_error) outcome" where
  "waiter_new path fs = (if path \<in> fs then Err AlreadyExists else Ok path)"

text \<open>
  The loop of \<open>wait_until_file_marker\<close>: \<open>looks n\<close> is the file system at the \<open>n\<close>th look, 50 milliseconds
  after the one before.  The result is the look that found the marker; a wait without end is \<open>None\<close>.
\<close>

partial_function (option) wait_until_file_marker :: "(nat \<Rightarrow> file_system) \<Rightarrow> path \<Rightarrow> nat \<Rightarrow> nat option" where
  "wait_until_file_marker looks path n =
     (if path \<in> looks n then Some n else wait_until_file_marker looks path (Suc n))"

section \<open>The programs\<close>

text \<open>The part of the client's \<open>main\<close> before the endpoint is made: \<open>AsyncFileWaiter::new\<close> takes the first look.\<close>

definition client_wait :: "(nat \<Rightarrow> file_system) \<Rightarrow> path option \<Rightarrow> nat option" where
  "client_wait looks file_lock =
     (case file_lock of
        None \<Rightarrow> Some 0
      | Some path \<Rightarrow>
          (case waiter_new path (looks 0) of
             Ok path \<Rightarrow> wait_until_file_marker looks path 1
           | _ \<Rightarrow> Some 0))"

text \<open>
  \<open>parse_addr\<close> and the part of \<open>Endpoint::new\<close> that opens the socket: \<open>resolved\<close> is what
  \<open>to_socket_addrs\<close> returns (nothing on an error), \<open>bind_ok\<close> whether the address could be bound.
\<close>

definition parse_addr :: "'addr list option \<Rightarrow> ('addr, unit) outcome" where
  "parse_addr resolved = (case resolved of Some (addr # _) \<Rightarrow> Ok addr | _ \<Rightarrow> Panic)"

definition endpoint_open :: "('s, 'addr connection_task) slab_api \<Rightarrow> 'addr list option \<Rightarrow> bool \<Rightarrow> (('addr, 's) endpoint, unit) outcome" where
  "endpoint_open S resolved bind_ok =
     bindO (parse_addr resolved) (\<lambda>addr. if bind_ok then Ok (endpoint_new S) else Panic)"

text \<open>
  \<open>main\<close> of the client: the handler, \<open>FILE_PATH\<close>, the look after which it goes on, and how the endpoint ends.
  A socket address resolves to itself; \<open>any_addr\<close> is what \<open>0.0.0.0:0\<close> resolves to.
\<close>

definition client_main :: "('s, 'addr connection_task) slab_api \<Rightarrow> bytes_api \<Rightarrow> 'addr cli_arguments \<Rightarrow> path option \<Rightarrow>
    (nat \<Rightarrow> file_system) \<Rightarrow> 'addr \<Rightarrow> bool \<Rightarrow> (nat \<Rightarrow> instant) \<Rightarrow> 'addr run_event list \<Rightarrow>
    (handler \<times> path option \<times> nat \<times> (('addr, 's) endpoint \<times> bool, unit) outcome) option" where
  "client_main S B args cell looks any_addr bind_ok clock evs =
     (case client_handler (cli_program args) cell of (handler, cell) \<Rightarrow>
      (case client_wait looks (cli_file_lock args) of
         None \<Rightarrow> None
       | Some n \<Rightarrow> Some (handler, cell, n,
           bindO (endpoint_open S (Some [any_addr]) bind_ok) (\<lambda>e.
           bindO (parse_addr (Some [cli_address args])) (\<lambda>addr.
           ep_run S B True evs (ep_connect S (clock n) addr e))))))"

text \<open>
  \<open>main\<close> of the server.  The endpoint is open before the marker is made; when it cannot be opened the program panics.  It
  ends when the task of the endpoint does, or at Ctrl+C, which is the end of \<open>evs\<close>; the marker is dropped then.  The
  result has the file system while the server runs and after it.
\<close>

record ('addr, 's) server_run =
  sv_handler :: handler
  sv_file_path :: "path option"
  sv_running :: file_system
  sv_ended :: file_system
  sv_endpoint :: "(('addr, 's) endpoint \<times> bool, unit) outcome"

definition server_main :: "('s, 'addr connection_task) slab_api \<Rightarrow> bytes_api \<Rightarrow> 'addr cli_arguments \<Rightarrow> path option \<Rightarrow>
    bool \<Rightarrow> bool \<Rightarrow> bool \<Rightarrow> bool \<Rightarrow> file_system \<Rightarrow> 'addr run_event list \<Rightarrow> (('addr, 's) server_run, unit) outcome" where
  "server_main S B args cell bind_ok dir_ok write_ok remove_ok fs evs =
     (case server_handler (cli_program args) cell of (handler, cell) \<Rightarrow>
      bindO (endpoint_open S (Some [cli_address args]) bind_ok) (\<lambda>e.
      let (running, marker) = (case cli_file_lock args of
            None \<Rightarrow> (fs, None)
          | Some path \<Rightarrow> (case marker_new path dir_ok write_ok fs of (fs, r) \<Rightarrow> (fs, Some r)));
          ended = (case marker of Some (Ok path) \<Rightarrow> marker_drop path remove_ok running | _ \<Rightarrow> running) in
      Ok \<lparr>sv_handler = handler, sv_file_path = cell, sv_running = running, sv_ended = ended,
          sv_endpoint = ep_run S B False evs e\<rparr>))"

section \<open>Waiting\<close>

lemma wait_until_first:
  assumes "path \<in> looks m" "n \<le> m" "\<And>k. n \<le> k \<Longrightarrow> k < m \<Longrightarrow> path \<notin> looks k"
  shows "wait_until_file_marker looks path n = Some m"
  using assms(2,3)
proof (induction "m - n" arbitrary: n)
  case 0
  then have "m = n" by simp
  then show ?case using assms(1) by (subst wait_until_file_marker.simps) simp
next
  case (Suc d)
  then have "path \<notin> looks n" "d = m - Suc n" "Suc n \<le> m" by simp_all
  then show ?case using Suc.hyps(1) [of "Suc n"] Suc.prems by (subst wait_until_file_marker.simps) simp
qed

lemma wait_until_found:
  assumes "wait_until_file_marker looks path n = Some m"
  shows "n \<le> m \<and> path \<in> looks m \<and> (\<forall>k. n \<le> k \<longrightarrow> k < m \<longrightarrow> path \<notin> looks k)"
proof (rule wait_until_file_marker.raw_induct [OF _ assms], goal_cases)
  case (1 wait looks path n m)
  show ?case
  proof (cases "path \<in> looks n")
    case False
    then have "wait looks path (Suc n) = Some m" using 1(2) by simp
    then have ih: "Suc n \<le> m" "path \<in> looks m" "\<And>k. Suc n \<le> k \<Longrightarrow> k < m \<Longrightarrow> path \<notin> looks k" using 1(1) by blast+
    have "path \<notin> looks k" if "n \<le> k" "k < m" for k
      using that False ih(3) [of k] by (cases "k = n") simp_all
    then show ?thesis using ih(1,2) by simp
  qed (use 1(2) in simp)
qed

text \<open>The client goes on at the first look that shows the marker, and only then.\<close>

lemma client_wait_iff:
  "client_wait looks (Some path) = Some n \<longleftrightarrow> path \<in> looks n \<and> (\<forall>k<n. path \<notin> looks k)"
proof (cases "path \<in> looks 0")
  case True
  then show ?thesis by (cases n) (auto simp: client_wait_def waiter_new_def)
next
  case False
  have "wait_until_file_marker looks path 1 = Some n \<longleftrightarrow> path \<in> looks n \<and> (\<forall>k<n. path \<notin> looks k)"
  proof
    assume "wait_until_file_marker looks path 1 = Some n"
    from wait_until_found [OF this] have n: "path \<in> looks n" "\<And>k. 1 \<le> k \<Longrightarrow> k < n \<Longrightarrow> path \<notin> looks k" by blast+
    have "path \<notin> looks k" if "k < n" for k using n(2) [of k] that False by (cases "k = 0") simp_all
    with n(1) show "path \<in> looks n \<and> (\<forall>k<n. path \<notin> looks k)" by blast
  next
    assume n: "path \<in> looks n \<and> (\<forall>k<n. path \<notin> looks k)"
    then have "1 \<le> n" using False by (cases n) simp_all
    then show "wait_until_file_marker looks path 1 = Some n" using n by (intro wait_until_first) simp_all
  qed
  then show ?thesis using False by (simp add: client_wait_def waiter_new_def)
qed

lemma endpoint_open_Some: "endpoint_open S (Some [addr]) bind_ok = (if bind_ok then Ok (endpoint_new S) else Panic)"
  by (simp add: endpoint_open_def parse_addr_def)

lemma handlers_agree: "fst (server_handler p cell) = fst (client_handler p cell)"
  by (cases p) simp_all

lemma server_main_run:
  assumes "server_main S B args cell bind_ok dir_ok write_ok True fs evs = Ok run" "cli_file_lock args = Some path"
  shows "bind_ok \<and> sv_handler run = fst (client_handler (cli_program args) cell) \<and>
    (dir_ok \<and> write_ok \<longrightarrow> path \<in> sv_running run \<and> path \<notin> sv_ended run)"
proof -
  have "bind_ok" using assms(1) by (auto simp: server_main_def endpoint_open_Some split: prod.splits if_splits)
  then show ?thesis
    using assms handlers_agree [of "cli_program args" cell]
    by (cases "path = []")
      (auto simp: server_main_def endpoint_open_Some marker_new_def path_parent_def marker_drop_def Let_def case_prod_unfold)
qed

section \<open>Properties\<close>


text \<open>A server whose marker a client finds at its third look.\<close>

definition marker_args :: "nat cli_arguments" where
  "marker_args = \<lparr>cli_address = 7, cli_program = PingPong, cli_file_lock = Some [''run'', ''ready'']\<rparr>"


end
