(* ===== verification/Spec2Isabelle.thy ===== *)
theory Spec2Isabelle
  imports Range_Iter Frame_Types Text Reliability Timer_Future Long_Message Tail_Loss Applications Programs
begin

text \<open>
  A model of the QUIC stack in \<open>src/quic-starter-code-rust\<close> and the theorems that make it
  correct.  The stack has three layers.  The crate \<open>proto\<close> has the wire format: variable-length
  integers, connection and stream identifiers, frames, packet headers, sets of ranges.  The
  crate \<open>core\<close> has a connection - three packet number spaces, a network path with congestion
  control, timers, streams - the task that drives it and the endpoint that owns the socket
  and routes datagrams to connections.  The binaries have four small programs on top of
  connections, each with a client and a server.

  \<^bold>\<open>How the code is translated.\<close>  A struct is a record, an enum a datatype, a method that
  changes its receiver returns the new one.  \<open>u64\<close> and \<open>usize\<close> are natural numbers with the
  wrap-around of release builds written out (\<open>add64\<close>, \<open>sub64\<close>, \<open>mul64\<close> of \<open>Prelude\<close>); bytes, packet
  numbers and the 128-bit window of the duplicate filter are words.  A function that may return \<open>Err\<close> or
  panic returns an \<open>outcome\<close>: \<open>Ok\<close>, \<open>Err\<close> or \<open>Panic\<close>; a handler that may fail after it changed the
  connection returns both.  \<open>BTreeMap\<close> is a sorted association list, \<open>HashMap\<close> a map, a channel a list.
  Time is a natural number of nanoseconds and an argument wherever the code reads the clock.
  Two third-party crates are parameters with the laws their documentation states: the byte order methods
  of \<open>bytes\<close> (\<open>bytes_api\<close>, locale \<open>bytes_crate\<close>) and \<open>slab\<close> (\<open>slab_api\<close>, locale \<open>slab_crate\<close>); each
  has an instance on which the concrete theorems evaluate.

  \<^bold>\<open>Theories.\<close>
  \<^item> \<open>Prelude\<close>: outcomes, wrap-around arithmetic, the generic lemmas.
  \<^item> \<open>Varint\<close> (\<open>proto/src/varint.rs\<close>): reading and writing variable-length integers; the round trip.
  \<^item> \<open>Range_Set_Spec\<close>, \<open>Array_Range_Set\<close>, \<open>Btree_Map\<close>, \<open>Btree_Range_Set\<close> (\<open>proto/src/range_set\<close>): the contract of
    a set of ranges as locale \<open>range_set\<close> over sets of numbers, and the two implementations as
    interpretations of it; they refine the abstract sets and agree with each other.  \<open>Range_Iter\<close> has the iterators over
    ranges and over elements, which list the whole set in order from either end.
  \<^item> \<open>Common\<close> (\<open>proto/src/common.rs\<close>, \<open>error.rs\<close>): sides, identifiers, error codes.
  \<^item> \<open>Frame\<close>, \<open>Frame_Codec\<close> (\<open>proto/src/frame.rs\<close>): every frame, its encoder, the parser, the iterator over the ranges of
    an ACK; encoders and parser are inverse, the parser consumes input and returns an error or a frame.  \<open>Frame_Types\<close>: every
    field of a parsed frame is in the range of its type.
  \<^item> \<open>Text\<close> (the \<open>Display\<close> and \<open>Debug\<close> impls of \<open>proto\<close>): the texts of identifiers, error codes and frames; identifiers can be read
    back from their texts.
  \<^item> \<open>Packet\<close> (\<open>proto/src/packet.rs\<close>): headers and packet numbers; headers round trip and a truncated number is
    expanded to the number sent while the receiver is within the window.
  \<^item> \<open>Space\<close> (\<open>core/src/connection/space.rs\<close>): sent packets, pending acknowledgements, the duplicate filter, frames to
    retransmit; every number is processed once and only received packets are acknowledged.
  \<^item> \<open>Send_Stream\<close>, \<open>Recv_Stream\<close>, \<open>Stream_State\<close> (\<open>core/src/connection/stream\<close>): the send buffer, the assembler, the state
    machines of both halves, the table of streams, the priority queue and the writing of STREAM frames; unacknowledged
    data is kept, data is delivered in order and once, writing frames ends.
  \<^item> \<open>Path\<close> (\<open>core/src/connection/path.rs\<close>, \<open>timer.rs\<close>): round-trip estimator, NewReno, bytes in flight, timers.  \<open>Timer_Future\<close> has the
    table of timers as the future of the task, with its waker, in a small model of the runtime: no timer is slept through.
  \<^item> \<open>Connection\<close> (\<open>core/src/connection/mod.rs\<close>): every handler of a connection.  \<open>Connection_Inv\<close> states the
    invariant \<open>conn_inv\<close> that ties spaces, queue and path together and proves that the handlers of packets keep it;
    \<open>Packet_Build\<close> does the same for the assembly of packets, with the bound on their size; its locale \<open>writer_keeps\<close> says
    that what one write of bytes keeps, every encoder and loop that fills a packet keeps.
  \<^item> \<open>Connection_Task\<close>: the calls of the application and one turn of the loop of \<open>run_connection\<close>.
    \<open>Connection_Steps\<close> has the step relation \<open>conn_step\<close>, one rule for every call the loop makes, and the
    reachable connections \<open>conn_reach\<close>; a turn is a sequence of steps, the invariant holds in all reachable states, the
    phases of a connection only advance, and a closed connection is drained.
  \<^item> \<open>Stream_Reliability\<close>, \<open>Reliability\<close>: where the bytes of a stream are.  Every byte handed to a stream is unsent, waits to be sent
    again, is acknowledged, or is in a packet that the connection still watches, in all reachable states.
  \<^item> \<open>Hello_Packet\<close>, \<open>Packet_Sent\<close>, \<open>Message\<close>, \<open>Handshake_Run\<close>: two connections.  What one puts into its queue the other decodes, in
    the right space and under the full packet number; a message written on a new stream is read by the other application; and
    a new client and the endpoint of a server come to two established connections that deliver messages.  \<open>Long_Message\<close> and \<open>Tail_Loss\<close>
    have the two cases in which a message does not arrive: it does not fit into one packet, or its packet is lost and no later one arrives.
  \<^item> \<open>Endpoint\<close> (\<open>core/src/endpoint.rs\<close>, \<open>ConnectionTask\<close>): slab, routes, connect, accept, dispatch, the periodic check and the loop of \<open>run\<close>;
    routes and connections agree until a connection ends, datagrams reach their connection, the loop ends at the first check
    after all tasks have ended.
  \<^item> \<open>Applications\<close> (\<open>src/bin/client.rs\<close>, \<open>server.rs\<close>): the eight handlers; they use a connection only through its calls,
    and the file client writes the file in order and completely.
  \<^item> \<open>Programs\<close> (\<open>src/lib.rs\<close>, \<open>file_notice_macos.rs\<close>, the two \<open>main\<close> functions): the arguments, the marker file, the opening of the
    endpoint; a client goes on at its first look that finds the marker, and the server makes it after the endpoint is open.

  \<^bold>\<open>Bounds and fuel.\<close>  The invariant of a connection is proved in the range \<open>roomy\<close>: fewer than \<open>2 ^ 40\<close> packets sent in a space
  and received packet numbers below \<open>2 ^ 62\<close>, the limit of the protocol; in it no counter of a connection overflows.
  The loop of \<open>write_stream_frames\<close> has fuel \<open>wsf_fuel\<close>, the space left in the packet plus the streams that wait, and is
  proved to end within it; the loops over ACK ranges, frames and chunks are proved to end by the input they
  consume.  A burst is at most 128 polls, as in the code.

  \<^bold>\<open>What the theorems show to be wrong.\<close>  Where the code does not do what it means to, the theorem states
  what it does: connection identifiers above 20 bytes panic, a full packet makes \<open>write_stream_frames\<close> panic, so that a
  message of 1450 bytes or more ends its task, the lost end of a flight is never repeated, a lost FIN is not sent again, a stream that fits in one frame is dropped, an overlapping frame stalls a stream, a segment is
  released while bytes in its middle are unacknowledged, and after a connection has ended its route
  makes the endpoint panic.

  \<^bold>\<open>Not modelled.\<close>  The socket, the file system and the async runtime (their results are arguments), the parsing of the command line
  by \<open>clap\<close>, logging, and the texts that other crates make: \<open>Debug\<close> of a connection identifier and of the derived types, \<open>Display\<close> of the close
  frames and of the error types.  Overflow of \<open>Duration\<close> (beyond \<open>2 ^ 64\<close> seconds) and memory exhaustion are ignored.
\<close>

end
